(* ===== verification/Prelude.thy ===== *)
theory Prelude
  imports Main "HOL-Library.Word"
begin

text \<open>
  Shared vocabulary of the development: the C integer types as machine words, the result type of
  every kernel routine with its sequencing operator, the collections of rewrite rules the
  component theories extend, and generic lemmas on words, lists and results.

  A kernel routine takes the machine state last and returns a \<open>res\<close>:
  \<^item> \<open>Ok x s\<close>: the routine returned \<open>x\<close> and left the state \<open>s\<close>;
  \<^item> \<open>Halt s\<close>: it entered one of the kernel's endless loops (\<open>while(1)\<close> in \<open>panic_spin\<close>
    and in the default interrupt handler) with the state \<open>s\<close>;
  \<^item> \<open>Blocked s\<close>: the calling thread gave the processor away inside \<open>thread_block\<close> and \<open>s\<close> is
    the state in which the next thread runs; what the caller still has to do is done when it is
    scheduled again;
  \<^item> \<open>Diverge\<close>: a loop over memory never ends.
\<close>

unbundle bit_operations_syntax

section \<open>C integer types\<close>

type_synonym u8 = "8 word"
type_synonym u16 = "16 word"
type_synonym u32 = "32 word"
type_synonym u64 = "64 word"

abbreviation NULL :: u32 where "NULL \<equiv> 0"

abbreviation PG_SIZE :: u32 where "PG_SIZE \<equiv> 4096"

section \<open>Results of kernel routines\<close>

datatype ('a, 's) res = Ok 'a 's | Halt 's | Blocked 's | Diverge

fun bind :: "('a, 's) res \<Rightarrow> ('a \<Rightarrow> 's \<Rightarrow> ('b, 's) res) \<Rightarrow> ('b, 's) res" where
  "bind (Ok x s) f = f x s"
| "bind (Halt s) f = Halt s"
| "bind (Blocked s) f = Blocked s"
| "bind Diverge f = Diverge"

text \<open>The result of a loop that may not end, as part of a routine's result.\<close>

definition of_loop :: "'a option \<Rightarrow> 's \<Rightarrow> ('a, 's) res" where
  "of_loop r s = (case r of None \<Rightarrow> Diverge | Some x \<Rightarrow> Ok x s)"

fun returns :: "('a, 's) res \<Rightarrow> bool" where
  "returns (Ok x s) = True"
| "returns _ = False"

fun halts :: "('a, 's) res \<Rightarrow> bool" where
  "halts (Halt s) = True"
| "halts _ = False"

lemma bind_eq_Ok:
  "bind m f = Ok y t \<longleftrightarrow> (\<exists>x s. m = Ok x s \<and> f x s = Ok y t)"
  by (cases m) auto

lemma bind_eq_Blocked:
  "bind m f = Blocked t \<longleftrightarrow> m = Blocked t \<or> (\<exists>x s. m = Ok x s \<and> f x s = Blocked t)"
  by (cases m) auto

lemma bind_eq_Halt:
  "bind m f = Halt t \<longleftrightarrow> m = Halt t \<or> (\<exists>x s. m = Ok x s \<and> f x s = Halt t)"
  by (cases m) auto

lemma bind_eq_Diverge:
  "bind m f = Diverge \<longleftrightarrow> m = Diverge \<or> (\<exists>x s. m = Ok x s \<and> f x s = Diverge)"
  by (cases m) auto

lemma of_loop_simps [simp]: "of_loop (Some x) s = Ok x s" "of_loop None s = Diverge"
  by (simp_all add: of_loop_def)

lemma res_bind_assoc: "bind (bind m f) g = bind m (\<lambda>x s. bind (f x s) g)"
  by (cases m) auto

lemma bind_Ok [simp]: "bind m Ok = m"
  by (cases m) auto

lemma returns_iff: "returns m \<longleftrightarrow> (\<exists>x s. m = Ok x s)"
  by (cases m) auto

lemma halts_iff: "halts m \<longleftrightarrow> (\<exists>s. m = Halt s)"
  by (cases m) auto

lemmas bind_elims = bind_eq_Ok bind_eq_Blocked bind_eq_Halt bind_eq_Diverge

section \<open>Collections of rules\<close>

named_theorems machine_defs \<open>definitions of the primitive machine operations\<close>
named_theorems frame \<open>what an operation leaves unchanged\<close>

section \<open>Words\<close>

lemma unat_Suc_less:
  fixes i n :: "'a::len word"
  assumes "i < n"
  shows "unat (i + 1) = Suc (unat i)"
proof -
  have "unat i < unat n" and "unat n < 2 ^ LENGTH('a)"
    using assms by (simp_all only: word_less_nat_alt unsigned_less)
  then have "unat i + 1 < 2 ^ LENGTH('a)"
    by linarith
  then show ?thesis
    by (simp add: unat_word_ariths)
qed

lemma unat_numeral_eq:
  "numeral n < (2::nat) ^ LENGTH('a) \<Longrightarrow> unat (numeral n :: 'a::len word) = numeral n"
  by (simp add: unat_numeral take_bit_nat_eq_self)

lemma unat_add_below:
  fixes a b :: "'a::len word"
  assumes "unat a + unat b < 2 ^ LENGTH('a)"
  shows "unat (a + b) = unat a + unat b"
  using assms by (simp add: unat_word_ariths)

lemma unat_mult_below:
  fixes a b :: "'a::len word"
  assumes "unat a * unat b < 2 ^ LENGTH('a)"
  shows "unat (a * b) = unat a * unat b"
  using assms by (simp add: unat_word_ariths)

lemma unat_sub_le:
  fixes a b :: "'a::len word"
  assumes "b \<le> a"
  shows "unat (a - b) = unat a - unat b"
  using assms by (rule unat_sub)

lemma unat_of_nat_below:
  "n < 2 ^ LENGTH('a) \<Longrightarrow> unat (of_nat n :: 'a::len word) = n"
  by (simp add: unat_of_nat take_bit_nat_eq_self)

lemma unat_less_Suc_iff:
  fixes x :: "'a::len word"
  shows "unat x < Suc n \<longleftrightarrow> x = 0 \<or> unat (x - 1) < n"
proof (cases "x = 0")
  case False
  then have "unat (x - 1) = unat x - 1" and "0 < unat x"
    by (simp_all add: unat_minus_one unat_gt_0)
  then show ?thesis
    using False by auto
qed simp

text \<open>The \<open>n\<close> addresses from \<open>d\<close> on, around the end of the address space if need be.\<close>

definition in_range :: "'a::len word \<Rightarrow> nat \<Rightarrow> 'a word \<Rightarrow> bool" where
  "in_range d n a \<longleftrightarrow> unat (a - d) < n"

lemma in_range_0 [simp]: "\<not> in_range d 0 a"
  by (simp add: in_range_def)

lemma in_range_Suc: "in_range d (Suc n) a \<longleftrightarrow> a = d \<or> in_range (d + 1) n a"
  using unat_less_Suc_iff [of "a - d" n] by (auto simp: in_range_def algebra_simps)

lemma in_range_offset:
  fixes d :: "'a::len word"
  shows "in_range d n (d + of_nat i) \<longleftrightarrow> unat (of_nat i :: 'a word) < n"
  by (simp add: in_range_def)

lemma in_range_Suc_last: "in_range d (Suc n) a \<longleftrightarrow> in_range d n a \<or> unat (a - d) = n"
  by (auto simp: in_range_def)

lemma not_in_range_before:
  fixes d :: "'a::len word"
  assumes "0 < k" and "k + n \<le> 2 ^ LENGTH('a)"
  shows "\<not> in_range d n (d - of_nat k)"
proof
  let ?x = "- of_nat k :: 'a word"
  assume "in_range d n (d - of_nat k)"
  then have "unat ?x < n" by (simp add: in_range_def)
  moreover from this have "k < 2 ^ LENGTH('a)" using assms(2) by linarith
  moreover from this have k: "unat (of_nat k :: 'a word) = k" by (rule unat_of_nat_below)
  ultimately have "unat (?x + of_nat k) = unat ?x + unat (of_nat k :: 'a word)"
    using assms(2) by (intro unat_add_below) simp
  then show False using assms(1) k by simp
qed

lemma u32_bound: "unat (x :: u32) < 2 ^ 32"
  using unsigned_less [of x, where ?'a = nat] by simp

lemma u32_minus_one: "unat (- 1 :: u32) = 2 ^ 32 - 1"
  by (simp add: unsigned_minus_1_eq_mask mask_eq_exp_minus_1)

lemma of_nat_eq_word_iff:
  assumes "m < 2 ^ LENGTH('a)" and "n < 2 ^ LENGTH('a)"
  shows "(of_nat m :: 'a::len word) = of_nat n \<longleftrightarrow> m = n"
  using assms by (metis unat_of_nat_below)

lemma div_mod_digit: "r < n \<Longrightarrow> (n * k + r) div n = k" "r < n \<Longrightarrow> (n * k + r) mod n = r" for n k r :: nat
  by (simp_all add: div_mult_self2)

section \<open>Fields of a 32-bit word\<close>

lemma unat_drop_bit: "unat (drop_bit n x) = unat x div 2 ^ n" for x :: u32
  using u32_bound [of x]
  by (simp only: unsigned_drop_bit_eq) (simp add: drop_bit_eq_div take_bit_nat_eq_self)

lemma unat_and_mask: "unat (x AND mask n) = unat x mod 2 ^ n" for x :: u32
  by (simp only: take_bit_eq_mask [symmetric] unsigned_take_bit_eq) (simp add: take_bit_eq_mod)

lemma unat_and_not_mask: "unat (x AND NOT (mask n)) = unat x div 2 ^ n * 2 ^ n" for x :: u32
proof -
  have "x AND NOT (mask n) = push_bit n (drop_bit n x)"
    by (rule bit_word_eqI) (auto simp: bit_simps)
  moreover have "unat x div 2 ^ n * 2 ^ n < 2 ^ 32"
    using u32_bound [of x] by (meson div_times_less_eq_dividend le_less_trans)
  ultimately show ?thesis
    by (simp only: unsigned_push_bit_eq unat_drop_bit) (simp add: push_bit_eq_mult take_bit_nat_eq_self)
qed

lemma field_masks:
  "(0xfff :: u32) = mask 12" "(0xfffff000 :: u32) = NOT (mask 12)" "(0xffc00000 :: u32) = NOT (mask 22)"
  "(0x003ff000 :: u32) = push_bit 12 (mask 10)"
  by (simp_all add: mask_eq_exp_minus_1)

lemma low12: "unat (x AND 0xfff) = unat x mod 4096" for x :: u32
  unfolding field_masks unat_and_mask by simp

lemma high20: "unat (x AND 0xfffff000) = unat x div 4096 * 4096" for x :: u32
  unfolding field_masks unat_and_not_mask by simp

text \<open>The page an address lies in.\<close>

definition page_of :: "u32 \<Rightarrow> u32" where
  "page_of a = a AND 0xfffff000"

definition page_aligned :: "u32 \<Rightarrow> bool" where
  "page_aligned a \<longleftrightarrow> unat a mod 4096 = 0"

lemma unat_page_of: "unat (page_of a) = unat a div 4096 * 4096"
  by (simp add: page_of_def high20)

lemma page_aligned_room: "page_aligned t \<Longrightarrow> n < 4096 \<Longrightarrow> unat t + n < 2 ^ 32"
proof -
  assume "page_aligned t" and "n < 4096"
  then obtain q where q: "unat t = 4096 * q" by (auto simp: page_aligned_def)
  then have "q < 1048576" using u32_bound [of t] by simp
  then show ?thesis using q \<open>n < 4096\<close> by simp
qed

lemma page_of_offset:
  assumes "page_aligned t" and "unat d < 4096"
  shows "page_of (t + d) = t"
proof -
  have "unat (t + d) = unat t + unat d"
    using page_aligned_room [OF assms] by (intro unat_add_below) simp
  moreover obtain q where "unat t = 4096 * q" using assms(1) by (auto simp: page_aligned_def)
  ultimately have "unat (page_of (t + d)) = unat t"
    using assms(2) by (simp add: unat_page_of)
  then show ?thesis by (simp add: word_unat_eq_iff)
qed

lemma page_of_within: "page_aligned t \<Longrightarrow> unat (a - t) < 4096 \<Longrightarrow> page_of a = t"
  using page_of_offset [of t "a - t"] by simp

lemma page_aligned_page_of [simp]: "page_aligned (page_of a)"
  by (simp add: page_aligned_def unat_page_of)

section \<open>Transition systems\<close>

text \<open>An invariant of a step relation holds in every state reached from one that satisfies it.\<close>

locale invariant_system =
  fixes step :: "'s \<Rightarrow> 's \<Rightarrow> bool" and inv :: "'s \<Rightarrow> bool"
  assumes step_inv: "inv s \<Longrightarrow> step s t \<Longrightarrow> inv t"
begin

lemma reach_inv: "step\<^sup>*\<^sup>* s t \<Longrightarrow> inv s \<Longrightarrow> inv t"
  by (induction rule: rtranclp_induct) (auto intro: step_inv)

end

text \<open>A concrete system whose steps are steps of an abstract one, as long as the invariant of the
  abstract one holds.\<close>

locale simulation = invariant_system step inv
  for step :: "'a \<Rightarrow> 'a \<Rightarrow> bool" and inv :: "'a \<Rightarrow> bool" +
  fixes cstep :: "'c \<Rightarrow> 'c \<Rightarrow> bool" and rep :: "'c \<Rightarrow> 'a \<Rightarrow> bool"
  assumes sim: "rep c a \<Longrightarrow> inv a \<Longrightarrow> cstep c c' \<Longrightarrow> \<exists>a'. step a a' \<and> rep c' a'"
begin

lemma reach_sim: "cstep\<^sup>*\<^sup>* c c' \<Longrightarrow> rep c a \<Longrightarrow> inv a \<Longrightarrow> \<exists>a'. step\<^sup>*\<^sup>* a a' \<and> rep c' a' \<and> inv a'"
proof (induction rule: rtranclp_induct)
  case (step y z)
  then obtain b where b: "step\<^sup>*\<^sup>* a b" "rep y b" "inv b" by blast
  obtain b' where "step b b'" "rep z b'" using sim [OF b(2,3) step.hyps(2)] by blast
  then show ?case using b(1) step_inv [OF b(3)] by (blast intro: rtranclp.rtrancl_into_rtrancl)
qed blast

end

end
