(* ===== verification/Machine.thy ===== *)
theory Machine
  imports Prelude
begin

text \<open>
  The machine the kernel runs on, and the routines that touch it directly: the interrupt flag
  (\<open>kernel/interrupt.c\<close>: \<open>get_intr_status\<close>, \<open>intr_enable\<close>, \<open>intr_disable\<close>,
  \<open>set_intr_status\<close>), port output (\<open>lib/kernel/io.h\<close>) and the panic routine and assertion
  macro (\<open>kernel/debug.c\<close>, \<open>kernel/debug.h\<close>).

  Memory is split by type, as the C objects are accessed: bytes (\<open>mem\<close>: bitmaps, strings and
  raw buffers), the 32-bit words of physical memory that hold page directories and page tables
  (\<open>phys\<close>, indexed by the physical address; the code reaches them through the paging unit) and the two
  pointer fields of a \<open>struct list_node\<close> (\<open>node_prev\<close>, \<open>node_next\<close>), the others indexed by the
  virtual address. The calls into the assembly routines of \<open>lib/kernel/print.S\<close> are recorded
  in order in \<open>screen\<close>, the bytes written to I/O ports in \<open>ports\<close>, the pages named by the instruction
  \<open>invlpg\<close> in \<open>invlpgs\<close>: the processor's buffer of translations itself is not part of the state.
  Later theories extend the record with the state of their component.
\<close>

section \<open>State\<close>

datatype print_call = Put_char u8 | Put_str string | Put_int u32 | Set_cursor u32

record machine =
  eflags :: u32
  ports :: "(u16 \<times> u8) list"
  screen :: "print_call list"
  mem :: "u32 \<Rightarrow> u8"
  phys :: "u32 \<Rightarrow> u32"
  cr3 :: u32
  invlpgs :: "u32 list"
  node_prev :: "u32 \<Rightarrow> u32"
  node_next :: "u32 \<Rightarrow> u32"

datatype intr_status = INTR_OFF | INTR_ON

definition EFLAGS_IF :: u32 where "EFLAGS_IF = 0x200"

section \<open>Output\<close>

definition put_char :: "u8 \<Rightarrow> 'e machine_scheme \<Rightarrow> 'e machine_scheme" where
  "put_char c s = s\<lparr>screen := screen s @ [Put_char c]\<rparr>"

definition put_str :: "string \<Rightarrow> 'e machine_scheme \<Rightarrow> 'e machine_scheme" where
  "put_str str s = s\<lparr>screen := screen s @ [Put_str str]\<rparr>"

definition put_int :: "u32 \<Rightarrow> 'e machine_scheme \<Rightarrow> 'e machine_scheme" where
  "put_int n s = s\<lparr>screen := screen s @ [Put_int n]\<rparr>"

definition set_cursor :: "u32 \<Rightarrow> 'e machine_scheme \<Rightarrow> 'e machine_scheme" where
  "set_cursor pos s = s\<lparr>screen := screen s @ [Set_cursor pos]\<rparr>"

definition outb :: "u16 \<Rightarrow> u8 \<Rightarrow> 'e machine_scheme \<Rightarrow> 'e machine_scheme" where
  "outb port data s = s\<lparr>ports := ports s @ [(port, data)]\<rparr>"

text \<open>A string literal with a newline at its end.\<close>

abbreviation (input) ln :: "string \<Rightarrow> string" where "ln str \<equiv> str @ [CHR 0x0A]"

section \<open>The interrupt flag\<close>

definition get_intr_status :: "'e machine_scheme \<Rightarrow> intr_status" where
  "get_intr_status s = (if eflags s AND EFLAGS_IF \<noteq> 0 then INTR_ON else INTR_OFF)"

definition sti :: "'e machine_scheme \<Rightarrow> 'e machine_scheme" where
  "sti s = s\<lparr>eflags := eflags s OR EFLAGS_IF\<rparr>"

definition cli :: "'e machine_scheme \<Rightarrow> 'e machine_scheme" where
  "cli s = s\<lparr>eflags := eflags s AND NOT EFLAGS_IF\<rparr>"

definition intr_enable :: "'e machine_scheme \<Rightarrow> intr_status \<times> 'e machine_scheme" where
  "intr_enable s =
     (let old_status = get_intr_status s in
      if old_status = INTR_ON then (old_status, s) else (old_status, sti s))"

definition intr_disable :: "'e machine_scheme \<Rightarrow> intr_status \<times> 'e machine_scheme" where
  "intr_disable s =
     (let old_status = get_intr_status s in
      if old_status = INTR_ON then (old_status, cli s) else (old_status, s))"

definition set_intr_status ::
    "intr_status \<Rightarrow> 'e machine_scheme \<Rightarrow> intr_status \<times> 'e machine_scheme" where
  "set_intr_status status s = (if status = INTR_ON then intr_enable s else intr_disable s)"

section \<open>Panic and assertions\<close>

text \<open>
  A panic site is the file, the line, the function and the text the preprocessor puts there.
\<close>

type_synonym site = "string \<times> nat \<times> string \<times> string"

definition panic_spin ::
    "string \<Rightarrow> nat \<Rightarrow> string \<Rightarrow> string \<Rightarrow> 'e machine_scheme \<Rightarrow> ('a, 'e machine_scheme) res" where
  "panic_spin filename line func condition s =
     (let s = snd (intr_disable s);
          s = put_str ([CHR 0x0A] @ ln ''!!!error!!!'') s;
          s = put_str ''filename:'' s;
          s = put_str filename s;
          s = put_str (ln '''') s;
          s = put_str ''line:0x'' s;
          s = put_int (of_nat line) s;
          s = put_str (ln '''') s;
          s = put_str ''function:'' s;
          s = put_str func s;
          s = put_str (ln '''') s;
          s = put_str ''condition:'' s;
          s = put_str condition s;
          s = put_str (ln '''') s
      in Halt s)"

definition PANIC :: "site \<Rightarrow> 'e machine_scheme \<Rightarrow> ('a, 'e machine_scheme) res" where
  "PANIC site s = (case site of (file, line, func, msg) \<Rightarrow> panic_spin file line func msg s)"

definition ASSERT :: "bool \<Rightarrow> site \<Rightarrow> 'e machine_scheme \<Rightarrow> (unit, 'e machine_scheme) res" where
  "ASSERT condition site s = (if condition then Ok () s else PANIC site s)"

section \<open>Lemmas\<close>

lemmas [machine_defs] = put_char_def put_str_def put_int_def set_cursor_def outb_def sti_def cli_def

lemma EFLAGS_IF_nonzero [simp]: "EFLAGS_IF \<noteq> 0"
  by (simp add: EFLAGS_IF_def)

lemma flag_set: "(x OR EFLAGS_IF) AND EFLAGS_IF = EFLAGS_IF"
  by (rule bit_word_eqI) (auto simp: bit_simps)

lemma flag_clear: "(x AND NOT EFLAGS_IF) AND EFLAGS_IF = 0"
  by (rule bit_word_eqI) (auto simp: bit_simps)

lemma flag_exp: "EFLAGS_IF = 2 ^ 9"
  by (simp add: EFLAGS_IF_def)

lemma bit_flag: "bit EFLAGS_IF n \<longleftrightarrow> n = 9"
  unfolding flag_exp by (simp only: bit_exp_iff possible_bit_word len_num0 len_bit0 len_num1) auto

lemma flag_test: "x AND EFLAGS_IF \<noteq> 0 \<longleftrightarrow> bit x 9"
  unfolding flag_exp by (simp only: and_exp_eq_0_iff_not_bit not_not)

lemma flag_set_id: "x AND EFLAGS_IF \<noteq> 0 \<Longrightarrow> x OR EFLAGS_IF = x"
  unfolding flag_test by (rule bit_word_eqI) (auto simp: bit_flag bit_simps)

lemma flag_set_clear_id: "x AND EFLAGS_IF \<noteq> 0 \<Longrightarrow> (x AND NOT EFLAGS_IF) OR EFLAGS_IF = x"
  unfolding flag_test by (rule bit_word_eqI) (auto simp: bit_flag bit_simps)

lemma flag_clear_id: "x AND EFLAGS_IF = 0 \<Longrightarrow> x AND NOT EFLAGS_IF = x"
  using flag_test [of x] by (intro bit_word_eqI) (auto simp: bit_flag bit_simps)

lemma get_sti [simp]: "get_intr_status (sti s) = INTR_ON"
  by (simp add: get_intr_status_def sti_def flag_set)

lemma get_cli [simp]: "get_intr_status (cli s) = INTR_OFF"
  by (simp add: get_intr_status_def cli_def flag_clear)

lemma sti_id: "get_intr_status s = INTR_ON \<Longrightarrow> sti s = s"
  by (simp add: get_intr_status_def sti_def flag_set_id split: if_splits)

lemma cli_id: "get_intr_status s = INTR_OFF \<Longrightarrow> cli s = s"
  by (simp add: get_intr_status_def cli_def flag_clear_id split: if_splits)

lemma sti_cli: "get_intr_status s = INTR_ON \<Longrightarrow> sti (cli s) = s"
  by (simp add: get_intr_status_def cli_def sti_def flag_set_clear_id split: if_splits)

lemma not_INTR_ON [simp]: "x \<noteq> INTR_ON \<longleftrightarrow> x = INTR_OFF"
  by (cases x) auto

lemma intr_disable_eq: "intr_disable s = (get_intr_status s, cli s)"
  by (simp add: intr_disable_def Let_def cli_id)

lemma intr_enable_eq: "intr_enable s = (get_intr_status s, sti s)"
  by (simp add: intr_enable_def Let_def sti_id)

lemma set_intr_status_eq:
  "set_intr_status st s = (get_intr_status s, if st = INTR_ON then sti s else cli s)"
  by (simp add: set_intr_status_def intr_disable_eq intr_enable_eq)

lemma ASSERT_simps [simp]:
  "ASSERT True site s = Ok () s"
  "ASSERT False site s = PANIC site s"
  by (simp_all add: ASSERT_def)

lemma ASSERT_eq_Ok [simp]: "ASSERT c site s = Ok u t \<longleftrightarrow> c \<and> t = s"
  by (cases site) (auto simp: ASSERT_def PANIC_def panic_spin_def Let_def)

lemma PANIC_halts [simp]: "halts (PANIC site s)" "PANIC site s \<noteq> Ok x t" "PANIC site s \<noteq> Blocked t"
  by (cases site, simp add: PANIC_def panic_spin_def Let_def)+

lemma PANIC_not_Diverge [simp]: "PANIC site s \<noteq> Diverge"
  by (cases site) (simp add: PANIC_def panic_spin_def Let_def)

lemmas not_PANIC [simp] = PANIC_halts(2,3) [symmetric] PANIC_not_Diverge [symmetric]

lemma PANIC_intr_off: "PANIC site s = Halt t \<Longrightarrow> get_intr_status t = INTR_OFF"
  by (cases site)
    (auto simp: PANIC_def panic_spin_def Let_def intr_disable_eq get_intr_status_def
      put_str_def put_int_def cli_def flag_clear)

lemma ASSERT_not_Blocked [simp]: "ASSERT c site s \<noteq> Blocked t"
  by (simp add: ASSERT_def)

lemma bind_ASSERT: "bind (ASSERT c site s) f = (if c then f () s else bind (PANIC site s) f)"
  by (simp add: ASSERT_def)

lemma bind_PANIC [simp]: "bind (PANIC site s) f = PANIC site s"
  by (cases site) (simp add: PANIC_def panic_spin_def Let_def)

section \<open>Critical sections\<close>

text \<open>
  The kernel protects a shared structure by \<open>old = intr_disable(); ...; set_intr_status(old);\<close>.
  The locale states what it needs of the interrupt routines and derives the discipline once: the
  protected body runs with interrupts off, and the caller's status comes back, for nested
  sections too.
\<close>

locale intr_guard =
  fixes status :: "'s \<Rightarrow> intr_status"
    and disable :: "'s \<Rightarrow> intr_status \<times> 's"
    and set_status :: "intr_status \<Rightarrow> 's \<Rightarrow> intr_status \<times> 's"
  assumes disable_old: "fst (disable s) = status s"
    and disable_off: "status (snd (disable s)) = INTR_OFF"
    and set_status_sets: "status (snd (set_status st s)) = st"
    and set_status_restores: "set_status (status s) (snd (disable s)) = (INTR_OFF, s)"
begin

definition guarded :: "('s \<Rightarrow> 's) \<Rightarrow> 's \<Rightarrow> 's" where
  "guarded body s =
     (case disable s of (old, t) \<Rightarrow> snd (set_status old (body t)))"

lemma guarded_runs_masked:
  "guarded body s = snd (set_status (status s) (body (snd (disable s))))"
  by (simp add: guarded_def disable_old split_beta)

lemma guarded_status: "status (guarded body s) = status s"
  by (simp add: guarded_runs_masked set_status_sets)

lemma guarded_id: "guarded (\<lambda>t. t) s = s"
  using set_status_restores [of s] by (simp add: guarded_runs_masked)

end

interpretation intr: intr_guard get_intr_status intr_disable set_intr_status
  by unfold_locales
    (auto simp: intr_disable_eq set_intr_status_eq sti_cli cli_id dest: sti_cli)

section \<open>A concrete machine\<close>

text \<open>A machine with a few bytes in memory, for examples: interrupts are on.\<close>

definition demo :: machine where
  "demo = \<lparr>eflags = 0x202, ports = [], screen = [],
     mem = (\<lambda>_. 0)(0x1000 := 0x61, 0x1001 := 0x62, 0x2000 := 0x61, 0x2001 := 0x62, 0x2003 := 0x7A),
     phys = \<lambda>_. 0, cr3 = 0x100000, invlpgs = [], node_prev = \<lambda>_. 0, node_next = \<lambda>_. 0\<rparr>"

end
