(* ===== verification/Cstring.thy ===== *)
theory Cstring
  imports Machine
begin

text \<open>
  \<open>lib/string.c\<close> over the byte memory. The counted loops (\<open>while (size--)\<close>) recurse on the
  count; the loops that run to a terminator are partial and give \<open>Diverge\<close> where no
  terminator stops them. \<open>char\<close> is signed on this target, so comparisons of characters read
  the byte with \<open>sint\<close>, and a \<open>char\<close> is compared with a \<open>uint8_t\<close> after promotion.

  The lemmas give each routine's effect as a function of the memory: \<open>memset\<close> and \<open>memcpy\<close>
  as a pointwise description, the string routines over the predicate \<open>cstr\<close> (the bytes of a
  terminated string at an address).
\<close>

type_synonym bytes = "u32 \<Rightarrow> u8"

section \<open>Routines\<close>

fun memset_loop :: "nat \<Rightarrow> u32 \<Rightarrow> u8 \<Rightarrow> bytes \<Rightarrow> bytes" where
  "memset_loop 0 dst value m = m"
| "memset_loop (Suc n) dst value m = memset_loop n (dst + 1) value (m(dst := value))"

definition memset ::
    "u32 \<Rightarrow> u8 \<Rightarrow> u32 \<Rightarrow> 'e machine_scheme \<Rightarrow> (unit, 'e machine_scheme) res" where
  "memset dst' value sz s =
     bind (ASSERT (dst' \<noteq> NULL) (''lib/string.c'', 7, ''memset'', ''dst_ != NULL'') s) (\<lambda>_ s.
     Ok () (s\<lparr>mem := memset_loop (unat sz) dst' value (mem s)\<rparr>))"

fun memcpy_loop :: "nat \<Rightarrow> u32 \<Rightarrow> u32 \<Rightarrow> bytes \<Rightarrow> bytes" where
  "memcpy_loop 0 dst src m = m"
| "memcpy_loop (Suc n) dst src m = memcpy_loop n (dst + 1) (src + 1) (m(dst := m src))"

definition memcpy ::
    "u32 \<Rightarrow> u32 \<Rightarrow> u32 \<Rightarrow> 'e machine_scheme \<Rightarrow> (unit, 'e machine_scheme) res" where
  "memcpy dst' src' sz s =
     bind (ASSERT (dst' \<noteq> NULL \<and> src' \<noteq> NULL)
             (''lib/string.c'', 17, ''memcpy'', ''dst_ != NULL && src_ != NULL'') s) (\<lambda>_ s.
     Ok () (s\<lparr>mem := memcpy_loop (unat sz) dst' src' (mem s)\<rparr>))"

fun memcmp_loop :: "nat \<Rightarrow> u32 \<Rightarrow> u32 \<Rightarrow> bytes \<Rightarrow> int" where
  "memcmp_loop 0 a b m = 0"
| "memcmp_loop (Suc n) a b m =
     (if sint (m a) > sint (m b) then 1
      else if sint (m a) < sint (m b) then - 1
      else memcmp_loop n (a + 1) (b + 1) m)"

definition memcmp ::
    "u32 \<Rightarrow> u32 \<Rightarrow> u32 \<Rightarrow> 'e machine_scheme \<Rightarrow> (int, 'e machine_scheme) res" where
  "memcmp a' b' sz s =
     bind (ASSERT (a' \<noteq> NULL \<and> b' \<noteq> NULL)
             (''lib/string.c'', 29, ''memcmp'', ''a_ != NULL && b_ != NULL'') s) (\<lambda>_ s.
     Ok (memcmp_loop (unat sz) a' b' (mem s)) s)"

partial_function (option) strcpy_loop :: "u32 \<Rightarrow> u32 \<Rightarrow> bytes \<Rightarrow> bytes option" where
  "strcpy_loop dst' src' m =
     (if m src' \<noteq> 0 then strcpy_loop (dst' + 1) (src' + 1) (m(dst' := m src')) else Some m)"

definition strcpy ::
    "u32 \<Rightarrow> u32 \<Rightarrow> 'e machine_scheme \<Rightarrow> (u32, 'e machine_scheme) res" where
  "strcpy dst' src' s =
     bind (ASSERT (dst' \<noteq> NULL \<and> src' \<noteq> NULL)
             (''lib/string.c'', 43, ''strcpy'', ''dst_ != NULL && src_ != NULL'') s) (\<lambda>_ s.
     bind (of_loop (strcpy_loop dst' src' (mem s)) s) (\<lambda>m s.
     Ok dst' (s\<lparr>mem := m\<rparr>)))"

partial_function (option) strlen_loop :: "bytes \<Rightarrow> u32 \<Rightarrow> u32 option" where
  "strlen_loop m p = (if m p \<noteq> 0 then strlen_loop m (p + 1) else Some (p + 1))"

definition strlen :: "u32 \<Rightarrow> 'e machine_scheme \<Rightarrow> (u32, 'e machine_scheme) res" where
  "strlen str s =
     bind (ASSERT (str \<noteq> NULL) (''lib/string.c'', 55, ''strlen'', ''str != NULL'') s) (\<lambda>_ s.
     bind (of_loop (strlen_loop (mem s) str) s) (\<lambda>p s.
     Ok (p - str - 1) s))"

text \<open>
  The loop of \<open>strcmp\<close> tests the pointer \<open>a\<close>, not the character it points to; it ends at the
  first difference or when \<open>a\<close> has run around the address space to 0.
\<close>

function strcmp_loop :: "bytes \<Rightarrow> u32 \<Rightarrow> u32 \<Rightarrow> u32 \<times> u32" where
  "strcmp_loop m a b =
     (if a \<noteq> NULL \<and> sint (m a) = sint (m b) then strcmp_loop m (a + 1) (b + 1) else (a, b))"
  by pat_completeness auto
termination
proof (relation "measure (\<lambda>(m, a, b). unat (- a))")
  fix m :: bytes and a b :: u32
  assume "a \<noteq> NULL \<and> sint (m a) = sint (m b)"
  then have "- a \<noteq> 0" by simp
  then have "unat (- a - 1) < unat (- a)"
    by (simp add: unat_minus_one unat_gt_0)
  moreover have "- (a + 1) = - a - 1" by simp
  ultimately show "((m, a + 1, b + 1), (m, a, b)) \<in> measure (\<lambda>(m, a, b). unat (- a))"
    by (simp only: in_measure split_conv)
qed simp

definition strcmp :: "u32 \<Rightarrow> u32 \<Rightarrow> 'e machine_scheme \<Rightarrow> (int, 'e machine_scheme) res" where
  "strcmp a b s =
     bind (ASSERT (a \<noteq> NULL \<and> b \<noteq> NULL)
             (''lib/string.c'', 63, ''strcmp'', ''a != NULL && b != NULL'') s) (\<lambda>_ s.
     case strcmp_loop (mem s) a b of (a, b) \<Rightarrow>
     Ok (if sint (mem s a) < sint (mem s b) then - 1
         else if sint (mem s a) > sint (mem s b) then 1 else 0) s)"

partial_function (option) strchr_loop :: "bytes \<Rightarrow> u32 \<Rightarrow> u8 \<Rightarrow> u32 option" where
  "strchr_loop m str ch =
     (if m str \<noteq> 0
      then if sint (m str) = uint ch then Some str else strchr_loop m (str + 1) ch
      else Some NULL)"

definition strchr :: "u32 \<Rightarrow> u8 \<Rightarrow> 'e machine_scheme \<Rightarrow> (u32, 'e machine_scheme) res" where
  "strchr str ch s =
     bind (ASSERT (str \<noteq> NULL) (''lib/string.c'', 73, ''strchr'', ''str != NULL'') s) (\<lambda>_ s.
     of_loop (strchr_loop (mem s) str ch) s)"

partial_function (option) strrchr_loop :: "bytes \<Rightarrow> u32 \<Rightarrow> u8 \<Rightarrow> u32 \<Rightarrow> u32 option" where
  "strrchr_loop m str ch last_appear =
     (if m str \<noteq> 0
      then strrchr_loop m (str + 1) ch (if sint (m str) = uint ch then str else last_appear)
      else Some last_appear)"

definition strrchr :: "u32 \<Rightarrow> u8 \<Rightarrow> 'e machine_scheme \<Rightarrow> (u32, 'e machine_scheme) res" where
  "strrchr str ch s =
     bind (ASSERT (str \<noteq> NULL) (''lib/string.c'', 85, ''strrchr'', ''str != NULL'') s) (\<lambda>_ s.
     of_loop (strrchr_loop (mem s) str ch NULL) s)"

partial_function (option) str_end :: "bytes \<Rightarrow> u32 \<Rightarrow> u32 option" where
  "str_end m dst' = (if m dst' \<noteq> 0 then str_end m (dst' + 1) else Some dst')"

partial_function (option) strcat_loop :: "u32 \<Rightarrow> u32 \<Rightarrow> bytes \<Rightarrow> (u32 \<times> bytes) option" where
  "strcat_loop dst src' m =
     (if m src' \<noteq> 0 then strcat_loop (dst + 1) (src' + 1) (m(dst := m src')) else Some (dst, m))"

definition strcat :: "u32 \<Rightarrow> u32 \<Rightarrow> 'e machine_scheme \<Rightarrow> (u32, 'e machine_scheme) res" where
  "strcat dst' src' s =
     bind (ASSERT (dst' \<noteq> NULL \<and> src' \<noteq> NULL)
             (''lib/string.c'', 98, ''strcat'', ''dst_ != NULL && src_ != NULL'') s) (\<lambda>_ s.
     bind (of_loop (str_end (mem s) dst') s) (\<lambda>dst' s.
     bind (of_loop (strcat_loop dst' src' (mem s)) s) (\<lambda>(dst, m) s.
     Ok dst' (s\<lparr>mem := m(dst := 0)\<rparr>))))"

partial_function (option) strchrs_loop :: "bytes \<Rightarrow> u32 \<Rightarrow> u8 \<Rightarrow> u32 \<Rightarrow> u32 option" where
  "strchrs_loop m p ch cnt =
     (if m p \<noteq> 0
      then strchrs_loop m (p + 1) ch (if sint (m p) = uint ch then cnt + 1 else cnt)
      else Some cnt)"

definition strchrs :: "u32 \<Rightarrow> u8 \<Rightarrow> 'e machine_scheme \<Rightarrow> (u32, 'e machine_scheme) res" where
  "strchrs str ch s =
     bind (ASSERT (str \<noteq> NULL) (''lib/string.c'', 112, ''strchrs'', ''str != NULL'') s) (\<lambda>_ s.
     of_loop (strchrs_loop (mem s) str ch 0) s)"

section \<open>Copying and filling\<close>

lemma memset_loop_eq: "memset_loop n d v m = (\<lambda>a. if in_range d n a then v else m a)"
  by (induction n arbitrary: d m) (auto simp: in_range_Suc fun_eq_iff)

lemma copy_step_apart:
  fixes d src a :: u32
  assumes "in_range (d + 1) n a" and "d = src \<or> Suc n \<le> unat (d - src)"
  shows "(m(d := m src)) (src + (a - d)) = m (src + (a - d))"
proof (cases "d = src")
  case False
  have "src + (a - d) \<noteq> d"
  proof
    assume "src + (a - d) = d"
    then have "a - d = d - src" by (simp add: algebra_simps)
    moreover have "unat (a - d) < Suc n"
      using assms(1) unat_less_Suc_iff [of "a - d" n] by (simp add: in_range_def algebra_simps)
    ultimately show False using assms(2) False by simp
  qed
  then show ?thesis by simp
qed simp

lemma memcpy_loop_eq:
  assumes "d = src \<or> n \<le> unat (d - src)"
  shows "memcpy_loop n d src m = (\<lambda>a. if in_range d n a then m (src + (a - d)) else m a)"
  using assms
proof (induction n arbitrary: d src m)
  case (Suc n)
  have "memcpy_loop n (d + 1) (src + 1) (m(d := m src)) =
      (\<lambda>a. if in_range (d + 1) n a then (m(d := m src)) (src + 1 + (a - (d + 1)))
            else (m(d := m src)) a)"
    by (rule Suc.IH) (use Suc.prems in auto)
  also have "\<dots> = (\<lambda>a. if in_range d (Suc n) a then m (src + (a - d)) else m a)"
  proof
    fix a
    show "(if in_range (d + 1) n a then (m(d := m src)) (src + 1 + (a - (d + 1)))
        else (m(d := m src)) a) = (if in_range d (Suc n) a then m (src + (a - d)) else m a)"
      using copy_step_apart [OF _ Suc.prems, of a m] by (auto simp: in_range_Suc algebra_simps)
  qed
  finally show ?case by simp
qed simp

section \<open>Terminated strings\<close>

fun cstr :: "bytes \<Rightarrow> u32 \<Rightarrow> u8 list \<Rightarrow> bool" where
  "cstr m p [] \<longleftrightarrow> m p = 0"
| "cstr m p (x # xs) \<longleftrightarrow> m p = x \<and> x \<noteq> 0 \<and> cstr m (p + 1) xs"

lemma cstr_unique: "cstr m p xs \<Longrightarrow> cstr m p ys \<Longrightarrow> xs = ys"
proof (induction m p xs arbitrary: ys rule: cstr.induct)
  case (1 m p)
  then show ?case by (cases ys) auto
next
  case (2 m p x xs)
  then show ?case by (cases ys) auto
qed

lemma cstr_upd:
  assumes "\<not> in_range p (Suc (length xs)) d"
  shows "cstr (m(d := v)) p xs = cstr m p xs"
  using assms by (induction m p xs rule: cstr.induct) (auto simp: in_range_Suc)

lemma strlen_loop_cstr: "cstr m p xs \<Longrightarrow> strlen_loop m p = Some (p + of_nat (length xs) + 1)"
proof (induction m p xs rule: cstr.induct)
  case (1 m p)
  then show ?case by (simp add: strlen_loop.simps)
next
  case (2 m p x xs)
  then show ?case by (subst strlen_loop.simps) (simp add: algebra_simps)
qed

lemma str_end_cstr: "cstr m p xs \<Longrightarrow> str_end m p = Some (p + of_nat (length xs))"
proof (induction m p xs rule: cstr.induct)
  case (1 m p)
  then show ?case by (simp add: str_end.simps)
next
  case (2 m p x xs)
  then show ?case by (subst str_end.simps) (simp add: algebra_simps)
qed

text \<open>
  Copying a string is copying its bytes without the terminator, as long as the copy does not run
  into the part of the source still to be read.
\<close>

lemma copied_tail:
  assumes "cstr m src (x # xs)" and "d = src \<or> length (x # xs) < unat (d - src)"
  shows "cstr (m(d := m src)) (src + 1) xs"
proof (cases "d = src")
  case True
  then have "m(d := m src) = m" by (simp only: fun_upd_triv)
  then show ?thesis using assms(1) by simp
next
  case False
  then have "\<not> in_range (src + 1) (Suc (length xs)) d"
    using assms(2) in_range_Suc [of src "Suc (length xs)" d] by (auto simp: in_range_def)
  then show ?thesis using assms(1) by (simp add: cstr_upd)
qed

lemma strcat_loop_cstr:
  assumes "cstr m src xs" and "d = src \<or> length xs < unat (d - src)"
  shows "strcat_loop d src m = Some (d + of_nat (length xs), memcpy_loop (length xs) d src m)"
  using assms
proof (induction xs arbitrary: d src m)
  case Nil
  then show ?case by (simp add: strcat_loop.simps)
next
  case (Cons x xs)
  have "strcat_loop (d + 1) (src + 1) (m(d := m src)) =
      Some (d + 1 + of_nat (length xs), memcpy_loop (length xs) (d + 1) (src + 1) (m(d := m src)))"
    by (rule Cons.IH [OF copied_tail [OF Cons.prems]]) (use Cons.prems(2) in auto)
  then show ?case
    using Cons.prems(1) by (subst strcat_loop.simps) (simp add: algebra_simps)
qed

lemma strcpy_loop_cat: "strcpy_loop d src m = map_option snd (strcat_loop d src m)"
  if "cstr m src xs" and "d = src \<or> length xs < unat (d - src)"
  using that
proof (induction xs arbitrary: d src m)
  case Nil
  then show ?case by (simp add: strcat_loop.simps strcpy_loop.simps)
next
  case (Cons x xs)
  have "strcpy_loop (d + 1) (src + 1) (m(d := m src)) =
      map_option snd (strcat_loop (d + 1) (src + 1) (m(d := m src)))"
    by (rule Cons.IH [OF copied_tail [OF Cons.prems]]) (use Cons.prems(2) in auto)
  then show ?case
    using Cons.prems(1) by (subst strcat_loop.simps, subst strcpy_loop.simps) simp
qed

lemma strcpy_loop_cstr:
  assumes "cstr m src xs" and "d = src \<or> length xs < unat (d - src)"
  shows "strcpy_loop d src m = Some (memcpy_loop (length xs) d src m)"
  using strcpy_loop_cat [OF assms] strcat_loop_cstr [OF assms] by simp

section \<open>Comparing\<close>

declare strcmp_loop.simps [simp del]

lemma strcmp_loop_skip:
  assumes "\<And>j. j < n \<Longrightarrow> m (a + of_nat j) = m (b + of_nat j)" and "unat a + n \<le> 2 ^ 32" and "a \<noteq> NULL"
  shows "strcmp_loop m a b = strcmp_loop m (a + of_nat n) (b + of_nat n)"
  using assms
proof (induction n)
  case (Suc n)
  have "unat a + n < 2 ^ 32" and "0 < unat a"
    using Suc.prems(2,3) by (simp_all add: unat_gt_0)
  then have "unat (a + of_nat n) = unat a + n"
    by (simp add: unat_word_ariths unat_of_nat take_bit_nat_eq_self)
  then have "a + of_nat n \<noteq> NULL"
    using \<open>0 < unat a\<close> by (metis add_is_0 less_numeral_extra(3) unat_0)
  moreover have "m (a + of_nat n) = m (b + of_nat n)"
    using Suc.prems(1) by blast
  ultimately have "strcmp_loop m (a + of_nat n) (b + of_nat n) =
      strcmp_loop m (a + of_nat (Suc n)) (b + of_nat (Suc n))"
    by (subst strcmp_loop.simps) (simp add: algebra_simps)
  then show ?case
    using Suc by simp
qed simp

lemma strcmp_loop_stop: "m a \<noteq> m b \<Longrightarrow> strcmp_loop m a b = (a, b)"
  by (subst strcmp_loop.simps) (auto simp: signed_word_eqI)

lemma cstr_bytes: "cstr m p xs \<Longrightarrow> i < length xs \<Longrightarrow> m (p + of_nat i) = xs ! i"
proof (induction m p xs arbitrary: i rule: cstr.induct)
  case (2 m p x xs)
  then show ?case by (cases i) (auto simp: algebra_simps)
qed simp

lemma cstr_terminator: "cstr m p xs \<Longrightarrow> m (p + of_nat (length xs)) = 0"
  by (induction m p xs rule: cstr.induct) (auto simp: algebra_simps)

lemma cstr_same_bytes:
  assumes "cstr m a xs" and "cstr m b xs" and "j < Suc (length xs)"
  shows "m (a + of_nat j) = m (b + of_nat j)"
proof (cases "j = length xs")
  case True
  then show ?thesis
    using assms(1,2) by (simp add: cstr_terminator)
next
  case False
  then show ?thesis
    using assms by (simp add: cstr_bytes)
qed

lemma cstr_iff:
  "cstr m p xs \<longleftrightarrow>
     (\<forall>i<length xs. m (p + of_nat i) = xs ! i \<and> xs ! i \<noteq> 0) \<and> m (p + of_nat (length xs)) = 0"
proof (induction m p xs rule: cstr.induct)
  case (2 m p x xs)
  have "(\<forall>i<Suc (length xs). m (p + of_nat i) = (x # xs) ! i \<and> (x # xs) ! i \<noteq> 0) \<longleftrightarrow>
      m p = x \<and> x \<noteq> 0 \<and> (\<forall>i<length xs. m (p + 1 + of_nat i) = xs ! i \<and> xs ! i \<noteq> 0)"
    by (auto simp: All_less_Suc2 algebra_simps)
  then show ?case
    using 2 by (auto simp: algebra_simps)
qed simp

lemma memcpy_loop_at:
  assumes "d = src \<or> n \<le> unat (d - src)" and "i < n" and "n < 2 ^ 32"
  shows "memcpy_loop n d src m (d + of_nat i) = m (src + of_nat i)"
  using assms by (simp add: memcpy_loop_eq in_range_offset unat_of_nat_below)

lemma cstr_concat:
  assumes "cstr m p xs" and "cstr m src ys" and "length ys < unat (p + of_nat (length xs) - src)"
    and "length xs + length ys < 2 ^ 32"
  shows "cstr ((memcpy_loop (length ys) (p + of_nat (length xs)) src m)
           (p + of_nat (length xs) + of_nat (length ys) := 0)) p (xs @ ys)"
    (is "cstr (?c(?e := 0)) p _")
proof -
  let ?d = "p + of_nat (length xs)"
  have at: "(?c(?e := 0)) (p + of_nat i) = (xs @ ys) ! i" if i: "i < length xs + length ys" for i
  proof -
    have "p + of_nat i \<noteq> ?e"
      using i assms(4) of_nat_eq_word_iff [of i "length xs + length ys", where ?'a = 32]
      by (simp add: add.assoc flip: of_nat_add)
    moreover have "?c (p + of_nat i) = (xs @ ys) ! i"
    proof (cases "i < length xs")
      case True
      have "p + of_nat i = ?d - of_nat (length xs - i)"
        using True by (simp add: of_nat_diff)
      then have "\<not> in_range ?d (length ys) (p + of_nat i)"
        using True assms(4) not_in_range_before [of "length xs - i" "length ys" ?d] by simp
      then show ?thesis
        using True assms(1,3) by (simp add: memcpy_loop_eq cstr_bytes nth_append)
    next
      case False
      then obtain j where j: "i = length xs + j" and "j < length ys"
        using i by (metis add_less_cancel_left le_Suc_ex not_less)
      then have "?c (?d + of_nat j) = ys ! j"
        using memcpy_loop_at [of ?d src "length ys" j m] assms(2,3,4) by (simp add: cstr_bytes)
      then show ?thesis
        using j by (simp add: nth_append algebra_simps)
    qed
    ultimately show ?thesis by simp
  qed
  have "(xs @ ys) ! i \<noteq> 0" if "i < length xs + length ys" for i
    using that assms(1,2) by (auto simp: cstr_iff nth_append)
  moreover have "(?c(?e := 0)) (p + of_nat (length xs + length ys)) = 0"
    by (simp add: add.assoc)
  ultimately show ?thesis
    using at by (simp add: cstr_iff)
qed

section \<open>Properties\<close>

text \<open>\<open>memset\<close> sets exactly the \<open>size\<close> bytes from \<open>dst\<close> on to \<open>value\<close> and changes nothing
  else, for every size.\<close>

theorem memset_fills:
  assumes "dst \<noteq> NULL"
  shows "memset dst value n s =
           Ok () (s\<lparr>mem := \<lambda>a. if in_range dst (unat n) a then value else mem s a\<rparr>)"
  using assms by (simp add: memset_def memset_loop_eq)

lemma demo_strings:
  "cstr (mem demo) 0x1000 [0x61, 0x62]" "cstr (mem demo) 0x2000 [0x61, 0x62]"
  by (simp_all add: demo_def)

theorem memset_fills_witness:
  "memset 0x1000 7 4 demo =
     Ok () (demo\<lparr>mem := \<lambda>a. if in_range 0x1000 (unat (4 :: u32)) a then 7 else mem demo a\<rparr>)"
  by (rule memset_fills) simp

text \<open>\<open>memcpy\<close> copies \<open>size\<close> bytes from \<open>src\<close> to \<open>dst\<close> and changes nothing else, when the
  destination does not start inside the bytes of the source still to be read.\<close>

theorem memcpy_copies:
  assumes "dst \<noteq> NULL" and "src \<noteq> NULL" and "dst = src \<or> unat n \<le> unat (dst - src)"
  shows "memcpy dst src n s =
           Ok () (s\<lparr>mem := \<lambda>a. if in_range dst (unat n) a then mem s (src + (a - dst)) else mem s a\<rparr>)"
  using assms by (simp add: memcpy_def memcpy_loop_eq)

theorem memcpy_copies_witness:
  "memcpy 0x3000 0x1000 3 demo =
     Ok () (demo\<lparr>mem := \<lambda>a. if in_range 0x3000 (unat (3 :: u32)) a then mem demo (0x1000 + (a - 0x3000))
                           else mem demo a\<rparr>)"
  by (rule memcpy_copies) simp_all

text \<open>\<open>strlen\<close> returns on every terminated string, with its length, and leaves the machine as
  it was.\<close>

theorem strlen_counts:
  assumes "str \<noteq> NULL" and "cstr (mem s) str xs"
  shows "strlen str s = Ok (of_nat (length xs)) s"
  using assms by (simp add: strlen_def strlen_loop_cstr)

theorem strlen_counts_witness: "strlen 0x1000 demo = Ok (of_nat (length [0x61, 0x62 :: u8])) demo"
  by (rule strlen_counts [OF _ demo_strings(1)]) simp

text \<open>C40: \<open>strcpy\<close> copies the characters of the source, but not its terminator: the byte after
  the copied characters, and every other byte outside them, keeps its old value.\<close>

theorem strcpy_leaves_terminator:
  assumes "dst \<noteq> NULL" and "src \<noteq> NULL" and "cstr (mem s) src xs"
    and "length xs < unat (dst - src)"
  shows "\<exists>m. strcpy dst src s = Ok dst (s\<lparr>mem := m\<rparr>) \<and>
           (\<forall>i<length xs. m (dst + of_nat i) = xs ! i) \<and>
           (\<forall>a. \<not> in_range dst (length xs) a \<longrightarrow> m a = mem s a) \<and>
           m (dst + of_nat (length xs)) = mem s (dst + of_nat (length xs))"
proof -
  let ?m = "memcpy_loop (length xs) dst src (mem s)"
  have small: "length xs < 2 ^ 32"
    using assms(4) u32_bound by (rule less_trans)
  have "strcpy dst src s = Ok dst (s\<lparr>mem := ?m\<rparr>)"
    using assms by (simp add: strcpy_def strcpy_loop_cstr)
  moreover have "?m (dst + of_nat i) = xs ! i" if "i < length xs" for i
    using that assms(3,4) small by (simp add: memcpy_loop_at cstr_bytes)
  moreover have "?m a = mem s a" if "\<not> in_range dst (length xs) a" for a
    using that assms(4) by (simp add: memcpy_loop_eq)
  moreover have "\<not> in_range dst (length xs) (dst + of_nat (length xs))"
    using small by (simp add: in_range_offset unat_of_nat_below)
  ultimately show ?thesis by blast
qed

theorem strcpy_leaves_terminator_witness:
  "\<exists>m. strcpy 0x2001 0x1000 demo = Ok 0x2001 (demo\<lparr>mem := m\<rparr>) \<and>
     m 0x2001 = 0x61 \<and> m 0x2002 = 0x62 \<and> m 0x2003 = 0x7A"
proof -
  obtain m where m: "strcpy 0x2001 0x1000 demo = Ok 0x2001 (demo\<lparr>mem := m\<rparr>)"
    and "\<forall>i<length [0x61, 0x62 :: u8]. m (0x2001 + of_nat i) = [0x61, 0x62] ! i"
    and "m (0x2001 + of_nat (length [0x61, 0x62 :: u8])) = mem demo (0x2001 + of_nat (length [0x61, 0x62 :: u8]))"
    using strcpy_leaves_terminator [OF _ _ demo_strings(1), where dst = "0x2001"] by auto
  then show ?thesis
    by (intro exI [of _ m]) (auto simp: demo_def All_less_Suc numeral_2_eq_2)
qed

text \<open>\<open>strcmp\<close> of two strings with a first difference returns the sign of that difference
  (bytes read as signed characters).\<close>

theorem strcmp_first_difference:
  assumes "a \<noteq> NULL" and "b \<noteq> NULL" and "unat a + n \<le> 2 ^ 32"
    and "\<And>j. j < n \<Longrightarrow> mem s (a + of_nat j) = mem s (b + of_nat j)"
    and "mem s (a + of_nat n) \<noteq> mem s (b + of_nat n)"
  shows "strcmp a b s =
           Ok (if sint (mem s (a + of_nat n)) < sint (mem s (b + of_nat n)) then - 1 else 1) s"
proof -
  have "strcmp_loop (mem s) a b = (a + of_nat n, b + of_nat n)"
    using strcmp_loop_skip [OF assms(4,3,1)] strcmp_loop_stop [of "mem s" "a + of_nat n" "b + of_nat n"] assms(5) by simp
  then show ?thesis
    using assms(1,2,5) by (simp add: strcmp_def) (metis linorder_neqE signed_word_eqI)
qed

theorem strcmp_first_difference_witness:
  "strcmp 0x1001 0x2003 demo =
     Ok (if sint (mem demo (0x1001 + of_nat 0)) < sint (mem demo (0x2003 + of_nat 0)) then - 1 else 1) demo"
  by (rule strcmp_first_difference) (simp_all add: demo_def)

text \<open>\<open>strcmp\<close> does not stop at the terminator: for two equal strings it goes on comparing
  the bytes that follow them in memory and returns what that comparison gives.\<close>

theorem strcmp_equal_strings_run_on:
  assumes "a \<noteq> NULL" and "b \<noteq> NULL" and "cstr (mem s) a xs" and "cstr (mem s) b xs"
    and "unat a + Suc (length xs) < 2 ^ 32" and "b + of_nat (Suc (length xs)) \<noteq> NULL"
  shows "strcmp a b s = strcmp (a + of_nat (Suc (length xs))) (b + of_nat (Suc (length xs))) s"
proof -
  have "unat (a + of_nat (Suc (length xs))) = unat a + Suc (length xs)"
    using assms(5) by (simp add: unat_add_below unat_of_nat_below del: of_nat_Suc)
  then have "a + of_nat (Suc (length xs)) \<noteq> NULL"
    by (metis add_is_0 nat.distinct(1) unat_0)
  moreover have "strcmp_loop (mem s) a b =
      strcmp_loop (mem s) (a + of_nat (Suc (length xs))) (b + of_nat (Suc (length xs)))"
    using assms(1,5) cstr_same_bytes [OF assms(3,4)] by (intro strcmp_loop_skip) auto
  ultimately show ?thesis
    using assms(1,2,6) by (simp add: strcmp_def)
qed

theorem strcmp_equal_strings_run_on_witness:
  "strcmp 0x1000 0x2000 demo =
     strcmp (0x1000 + of_nat (Suc (length [0x61, 0x62 :: u8]))) (0x2000 + of_nat (Suc (length [0x61, 0x62 :: u8])))
       demo"
  by (rule strcmp_equal_strings_run_on [OF _ _ demo_strings]) simp_all

text \<open>\<open>strcat\<close> leaves the concatenation of the two strings at \<open>dst\<close>, terminated; the
  pointer it returns is the old end of \<open>dst\<close>, not \<open>dst\<close>.\<close>

theorem strcat_appends:
  assumes "dst \<noteq> NULL" and "src \<noteq> NULL" and "cstr (mem s) dst xs" and "cstr (mem s) src ys"
    and "length ys < unat (dst + of_nat (length xs) - src)"
    and "length xs + length ys < 2 ^ 32"
  shows "\<exists>m. strcat dst src s = Ok (dst + of_nat (length xs)) (s\<lparr>mem := m\<rparr>) \<and>
           cstr m dst (xs @ ys)"
proof -
  let ?d = "dst + of_nat (length xs)"
  have "strcat dst src s = Ok ?d
      (s\<lparr>mem := (memcpy_loop (length ys) ?d src (mem s))(?d + of_nat (length ys) := 0)\<rparr>)"
    using assms by (simp add: strcat_def str_end_cstr strcat_loop_cstr)
  then show ?thesis
    using cstr_concat [OF assms(3-6)] by blast
qed

theorem strcat_appends_witness:
  "\<exists>m. strcat 0x2000 0x1000 demo = Ok (0x2000 + of_nat (length [0x61, 0x62 :: u8])) (demo\<lparr>mem := m\<rparr>) \<and>
     cstr m 0x2000 ([0x61, 0x62] @ [0x61, 0x62])"
  by (rule strcat_appends [OF _ _ demo_strings(2,1)]) simp_all

end
