(* ===== verification/Bitmap.thy ===== *)
theory Bitmap
  imports Cstring
begin

text \<open>
  \<open>lib/kernel/bitmap.c\<close>: a bitmap is a pointer to its bytes and their number; the bytes are in
  the byte memory. \<open>bitmap_scan\<close> is the kernel's first-fit search for free pages; its three
  loops are translated as they stand, on 32-bit indices.

  \<open>bm_bit\<close> is the bit the code means by an index, and \<open>first_fit\<close> the search it performs,
  both on natural numbers. The lemmas show that the loops compute \<open>first_fit\<close>, that
  \<open>bitmap_set\<close> changes one bit, and (in the locale \<open>bit_pool\<close>) what marking and releasing a
  run of bits does; the page allocator rests on those.
\<close>

section \<open>Routines\<close>

record bitmap =
  btmp_bytes_len :: u32
  bits :: u32

definition bitmap_init :: "bitmap \<Rightarrow> 'e machine_scheme \<Rightarrow> (unit, 'e machine_scheme) res" where
  "bitmap_init btmp s = memset (bits btmp) 0 (btmp_bytes_len btmp) s"

definition bitmap_scan_test :: "bitmap \<Rightarrow> u32 \<Rightarrow> bytes \<Rightarrow> u32" where
  "bitmap_scan_test btmp bit_idx m =
     (let byte_idx = bit_idx div 8; bit_off = bit_idx mod 8
      in ucast (m (bits btmp + byte_idx)) AND push_bit (unat bit_off) 1)"

text \<open>The first byte that is not \<open>0xff\<close>.\<close>

function skip_full_bytes :: "bitmap \<Rightarrow> bytes \<Rightarrow> u32 \<Rightarrow> u32" where
  "skip_full_bytes btmp m byte_idx =
     (if byte_idx < btmp_bytes_len btmp \<and> m (bits btmp + byte_idx) = 0xff
      then skip_full_bytes btmp m (byte_idx + 1) else byte_idx)"
  by pat_completeness auto
termination
  by (relation "measure (\<lambda>(btmp, m, byte_idx). unat (btmp_bytes_len btmp) - unat byte_idx)")
    (auto simp: unat_Suc_less word_less_nat_alt)

text \<open>The first clear bit of a byte; a shift past the byte meets only zeros.\<close>

lemma byte_mask_zero: "8 \<le> n \<Longrightarrow> (ucast (x :: u8) :: u32) AND 2 ^ n = 0"
  by (rule bit_word_eqI) (auto simp: bit_simps dest: bit_imp_le_length)

function skip_set_bits :: "u8 \<Rightarrow> nat \<Rightarrow> nat" where
  "skip_set_bits byte bit_off =
     (if (ucast byte :: u32) AND push_bit bit_off 1 \<noteq> 0 then skip_set_bits byte (bit_off + 1)
      else bit_off)"
  by pat_completeness auto
termination
proof (relation "measure (\<lambda>(byte, bit_off). 8 - bit_off)")
  fix byte :: u8 and bit_off :: nat
  assume "(ucast byte :: u32) AND push_bit bit_off 1 \<noteq> 0"
  then have "bit_off < 8"
    using byte_mask_zero [of bit_off byte] by (simp add: not_le [symmetric]) blast
  then show "((byte, bit_off + 1), byte, bit_off) \<in> measure (\<lambda>(byte, bit_off). 8 - bit_off)"
    by simp
qed simp

text \<open>The search for \<open>cnt\<close> clear bits in a row; \<open>-1\<close> when there are none.\<close>

function scan_run :: "bitmap \<Rightarrow> bytes \<Rightarrow> u32 \<Rightarrow> u32 \<Rightarrow> u32 \<Rightarrow> u32" where
  "scan_run btmp m cnt bit_idx count =
     (if bit_idx < btmp_bytes_len btmp * 8 then
        let count = (if bitmap_scan_test btmp bit_idx m = 0 then count + 1 else 0)
        in if count = cnt then bit_idx - cnt + 1
           else scan_run btmp m cnt (bit_idx + 1) count
      else - 1)"
  by pat_completeness auto
termination
  by (relation "measure (\<lambda>(btmp, m, cnt, bit_idx, count). unat (btmp_bytes_len btmp * 8) - unat bit_idx)")
    (auto simp: unat_Suc_less word_less_nat_alt)

definition bitmap_scan :: "bitmap \<Rightarrow> u32 \<Rightarrow> 'e machine_scheme \<Rightarrow> (u32, 'e machine_scheme) res" where
  "bitmap_scan btmp cnt s =
     (let byte_idx = skip_full_bytes btmp (mem s) 0 in
      bind (ASSERT (byte_idx < btmp_bytes_len btmp)
              (''lib/kernel/bitmap.c'', 27, ''bitmap_scan'', ''byte_idx < btmp->btmp_bytes_len'') s) (\<lambda>_ s.
      if byte_idx \<ge> btmp_bytes_len btmp then Ok (- 1) s
      else
        let bit_off = skip_set_bits (mem s (bits btmp + byte_idx)) 0;
            bit_idx = byte_idx * 8 + of_nat bit_off
        in Ok (scan_run btmp (mem s) cnt bit_idx 0) s))"

definition bitmap_set :: "bitmap \<Rightarrow> u32 \<Rightarrow> u8 \<Rightarrow> 'e machine_scheme \<Rightarrow> (unit, 'e machine_scheme) res" where
  "bitmap_set btmp bit_idx value s =
     bind (ASSERT (value = 0 \<or> value = 1)
             (''lib/kernel/bitmap.c'', 62, ''bitmap_set'', ''value == 0 || value == 1'') s) (\<lambda>_ s.
     let byte_idx = bit_idx div 8; bit_off = bit_idx mod 8; a = bits btmp + byte_idx in
     if value \<noteq> 0
     then Ok () (s\<lparr>mem := (mem s)(a := mem s a OR push_bit (unat bit_off) 1)\<rparr>)
     else Ok () (s\<lparr>mem := (mem s)(a := mem s a AND NOT (push_bit (unat bit_off) 1))\<rparr>))"

declare skip_full_bytes.simps [simp del] skip_set_bits.simps [simp del] scan_run.simps [simp del]

section \<open>The bits a bitmap holds\<close>

definition nbits :: "bitmap \<Rightarrow> nat" where
  "nbits btmp = unat (btmp_bytes_len btmp) * 8"

definition bm_bit :: "bitmap \<Rightarrow> bytes \<Rightarrow> nat \<Rightarrow> bool" where
  "bm_bit btmp m i = bit (m (bits btmp + of_nat (i div 8))) (i mod 8)"

definition wf_bitmap :: "bitmap \<Rightarrow> bool" where
  "wf_bitmap btmp \<longleftrightarrow> unat (btmp_bytes_len btmp) < 2 ^ 29 \<and>
     unat (bits btmp) + unat (btmp_bytes_len btmp) \<le> 2 ^ 32 \<and> bits btmp \<noteq> NULL"

text \<open>The first \<open>k\<close> such that the \<open>n\<close> bits from \<open>k\<close> on are clear and inside the bitmap.\<close>

definition first_fit :: "bitmap \<Rightarrow> nat \<Rightarrow> bytes \<Rightarrow> nat option" where
  "first_fit btmp n m =
     find (\<lambda>k. list_all (\<lambda>j. \<not> bm_bit btmp m j) [k..<k + n]) [0..<Suc (nbits btmp) - n]"

definition free_run :: "bitmap \<Rightarrow> bytes \<Rightarrow> nat \<Rightarrow> nat \<Rightarrow> bool" where
  "free_run btmp m n k \<longleftrightarrow> k + n \<le> nbits btmp \<and> (\<forall>j. k \<le> j \<and> j < k + n \<longrightarrow> \<not> bm_bit btmp m j)"

lemma free_run_listed:
  "free_run btmp m n k \<longleftrightarrow>
     k < Suc (nbits btmp) - n \<and> list_all (\<lambda>j. \<not> bm_bit btmp m j) [k..<k + n]"
  unfolding free_run_def list_all_iff set_upt atLeastLessThan_iff by auto

lemma first_fit_Some:
  assumes "first_fit btmp n m = Some k"
  shows "free_run btmp m n k" and "\<And>j. j < k \<Longrightarrow> \<not> free_run btmp m n j"
  using assms by (auto simp: first_fit_def free_run_listed find_Some_iff)

lemma first_fit_None: "first_fit btmp n m = None \<longleftrightarrow> (\<forall>k. \<not> free_run btmp m n k)"
  by (auto simp: first_fit_def free_run_listed find_None_iff)

lemma first_fitI:
  assumes "free_run btmp m n k" and "\<And>j. j < k \<Longrightarrow> \<not> free_run btmp m n j"
  shows "first_fit btmp n m = Some k"
proof (cases "first_fit btmp n m")
  case None
  then show ?thesis using assms(1) by (simp add: first_fit_None)
next
  case (Some i)
  then show ?thesis
    using first_fit_Some [OF Some] assms by (metis linorder_neqE_nat)
qed

section \<open>The tests and the loops on bits\<close>

lemma byte_mask_bit: "n < 8 \<Longrightarrow> (ucast (x :: u8) :: u32) AND 2 ^ n \<noteq> 0 \<longleftrightarrow> bit x n"
  by (simp add: and_exp_eq_0_iff_not_bit bit_simps)

lemma index_div_mod:
  fixes i :: u32
  shows "unat (i div 8) = unat i div 8" and "unat (i mod 8) = unat i mod 8"
  by (simp_all add: unat_div unat_mod)

lemma scan_test_bit: "bitmap_scan_test btmp i m \<noteq> 0 \<longleftrightarrow> bm_bit btmp m (unat i)"
proof -
  have "i div 8 = of_nat (unat i div 8)"
    using index_div_mod(1) [of i] by (metis of_nat_unat ucast_id)
  then show ?thesis
    by (simp add: bitmap_scan_test_def bm_bit_def index_div_mod byte_mask_bit Let_def)
qed

lemma skip_full_bytes_prop:
  assumes "byte_idx \<le> btmp_bytes_len btmp"
    and "\<And>i. i < byte_idx \<Longrightarrow> m (bits btmp + i) = 0xff"
  defines "r \<equiv> skip_full_bytes btmp m byte_idx"
  shows "r \<le> btmp_bytes_len btmp \<and> (\<forall>i < r. m (bits btmp + i) = 0xff) \<and>
         (r < btmp_bytes_len btmp \<longrightarrow> m (bits btmp + r) \<noteq> 0xff)"
  using assms(1,2) unfolding r_def
proof (induction btmp m byte_idx rule: skip_full_bytes.induct)
  case (1 btmp m byte_idx)
  show ?case
  proof (cases "byte_idx < btmp_bytes_len btmp \<and> m (bits btmp + byte_idx) = 0xff")
    case True
    have Suc: "unat (byte_idx + 1) = Suc (unat byte_idx)"
      using True unat_Suc_less by blast
    have le: "byte_idx + 1 \<le> btmp_bytes_len btmp"
      using True by (simp add: word_le_nat_alt word_less_nat_alt Suc)
    have below: "m (bits btmp + i) = 0xff" if "i < byte_idx + 1" for i
    proof (cases "i = byte_idx")
      case False
      then have "i < byte_idx"
        using that Suc word_unat_eq_iff [of i byte_idx] by (simp add: word_less_nat_alt less_Suc_eq)
      then show ?thesis by (rule "1.prems")
    qed (use True in simp)
    show ?thesis
      using "1.IH" [OF True le below] True by (simp add: skip_full_bytes.simps [of btmp m byte_idx])
  next
    case False
    then show ?thesis
      using "1.prems" by (auto simp: skip_full_bytes.simps [of btmp m byte_idx])
  qed
qed

lemma skip_set_bits_prop:
  assumes "x \<noteq> 0xff" and "n \<le> 8" and "\<And>i. i < n \<Longrightarrow> bit x i"
  defines "r \<equiv> skip_set_bits x n"
  shows "r < 8 \<and> \<not> bit x r \<and> (\<forall>i<r. bit x i)"
  using assms(1-3) unfolding r_def
proof (induction x n rule: skip_set_bits.induct)
  case (1 x n)
  have "n < 8"
  proof (rule ccontr)
    assume "\<not> n < 8"
    then have "x = - 1"
      using "1.prems"(2,3) by (intro bit_word_eqI) auto
    then show False using "1.prems"(1) by simp
  qed
  show ?case
  proof (cases "bit x n")
    case True
    then have "(ucast x :: u32) AND push_bit n 1 \<noteq> 0"
      using \<open>n < 8\<close> by (simp add: byte_mask_bit)
    moreover have "bit x i" if "i < n + 1" for i
      using that True "1.prems"(3) by (cases "i = n") auto
    ultimately show ?thesis
      using "1.IH" "1.prems"(1) \<open>n < 8\<close> by (simp add: skip_set_bits.simps [of x n])
  next
    case False
    then have "(ucast x :: u32) AND push_bit n 1 = 0"
      using byte_mask_bit [OF \<open>n < 8\<close>, of x] by simp
    then show ?thesis
      using \<open>n < 8\<close> False "1.prems" by (simp add: skip_set_bits.simps [of x n])
  qed
qed

section \<open>The search\<close>

text \<open>
  What the search knows at bit \<open>i\<close>: the \<open>count\<close> bits before \<open>i\<close> are clear, the one before
  them (if any) is set, and no run of \<open>n\<close> clear bits ends at or before \<open>i\<close>.
\<close>

definition scan_inv :: "bitmap \<Rightarrow> bytes \<Rightarrow> nat \<Rightarrow> nat \<Rightarrow> nat \<Rightarrow> bool" where
  "scan_inv btmp m n i count \<longleftrightarrow>
     count \<le> i \<and> count < n \<and> (\<forall>j. i - count \<le> j \<and> j < i \<longrightarrow> \<not> bm_bit btmp m j) \<and>
     (count = i \<or> bm_bit btmp m (i - count - 1)) \<and>
     (\<forall>k. k + n \<le> i \<longrightarrow> \<not> free_run btmp m n k)"

lemma scan_inv_set:
  assumes "scan_inv btmp m n i count" and "bm_bit btmp m i"
  shows "scan_inv btmp m n (Suc i) 0"
proof -
  have "\<not> free_run btmp m n k" if "k + n \<le> Suc i" for k
  proof (cases "k + n = Suc i")
    case True
    then have "k \<le> i" and "i < k + n" using assms(1) by (auto simp: scan_inv_def)
    then show ?thesis using assms(2) by (auto simp: free_run_def)
  qed (use that assms(1) in \<open>auto simp: scan_inv_def\<close>)
  then show ?thesis
    using assms by (auto simp: scan_inv_def)
qed

lemma scan_inv_clear:
  assumes "scan_inv btmp m n i count" and "\<not> bm_bit btmp m i" and "Suc count < n"
  shows "scan_inv btmp m n (Suc i) (Suc count)"
proof -
  have "\<not> free_run btmp m n k" if "k + n \<le> Suc i" for k
  proof (cases "k + n = Suc i")
    case True
    then have "count \<noteq> i" and "k \<le> i - count - 1" and "i - count - 1 < k + n"
      using assms(1,3) by (auto simp: scan_inv_def)
    then show ?thesis using assms(1) by (auto simp: scan_inv_def free_run_def)
  qed (use that assms(1) in \<open>auto simp: scan_inv_def\<close>)
  moreover have "\<not> bm_bit btmp m j" if "i - count \<le> j" and "j < Suc i" for j
    using that assms(1,2) by (cases "j = i") (auto simp: scan_inv_def)
  ultimately show ?thesis
    using assms by (auto simp: scan_inv_def)
qed

lemma scan_inv_found:
  assumes "scan_inv btmp m n i count" and "\<not> bm_bit btmp m i" and "Suc count = n" and "i < nbits btmp"
  shows "first_fit btmp n m = Some (Suc i - n)"
proof (rule first_fitI)
  have "\<not> bm_bit btmp m j" if "i - count \<le> j" and "j < Suc i" for j
    using that assms(1,2) by (cases "j = i") (auto simp: scan_inv_def)
  then show "free_run btmp m n (Suc i - n)"
    using assms(1,3,4) by (auto simp: free_run_def scan_inv_def)
  show "\<not> free_run btmp m n j" if "j < Suc i - n" for j
    using that assms(1) by (auto simp: scan_inv_def)
qed

definition scan_result :: "nat option \<Rightarrow> u32" where
  "scan_result r = (case r of None \<Rightarrow> - 1 | Some k \<Rightarrow> of_nat k)"

lemma nbits_word: "wf_bitmap btmp \<Longrightarrow> unat (btmp_bytes_len btmp * 8) = nbits btmp"
  by (simp add: wf_bitmap_def nbits_def unat_mult_below)

lemma scan_run_first_fit:
  assumes "wf_bitmap btmp" and "scan_inv btmp m (unat cnt) (unat i) (unat count)"
  shows "scan_run btmp m cnt i count = scan_result (first_fit btmp (unat cnt) m)"
  using assms
proof (induction btmp m cnt i count rule: scan_run.induct)
  case (1 btmp m cnt i count)
  note step = scan_run.simps [of btmp m cnt i count]
  have limit: "i < btmp_bytes_len btmp * 8 \<longleftrightarrow> unat i < nbits btmp"
    using "1.prems"(1) by (simp add: word_less_nat_alt nbits_word)
  show ?case
  proof (cases "unat i < nbits btmp")
    case False
    have "\<not> free_run btmp m (unat cnt) k" for k
    proof (cases "k + unat cnt \<le> unat i")
      case True
      then show ?thesis using "1.prems"(2) by (simp add: scan_inv_def)
    next
      case False
      then show ?thesis using \<open>\<not> unat i < nbits btmp\<close> by (simp add: free_run_def)
    qed
    then show ?thesis
      using False limit step by (simp add: scan_result_def first_fit_None [THEN iffD2])
  next
    case True
    have i1: "unat (i + 1) = Suc (unat i)"
      using True limit unat_Suc_less by blast
    have "count < cnt"
      using "1.prems"(2) by (simp add: scan_inv_def word_less_nat_alt)
    then have c1: "unat (count + 1) = Suc (unat count)"
      by (rule unat_Suc_less)
    show ?thesis
    proof (cases "bm_bit btmp m (unat i)")
      case set: True
      then have "bitmap_scan_test btmp i m \<noteq> 0" by (simp add: scan_test_bit)
      moreover have "0 \<noteq> cnt"
        using \<open>count < cnt\<close> by auto
      moreover have "scan_inv btmp m (unat cnt) (unat (i + 1)) (unat (0 :: u32))"
        using scan_inv_set [OF "1.prems"(2) set] i1 by simp
      ultimately show ?thesis
        using "1.IH" [OF limit [THEN iffD2, OF True] refl] "1.prems"(1) True limit step by simp
    next
      case clear: False
      then have test: "bitmap_scan_test btmp i m = 0" using scan_test_bit by blast
      show ?thesis
      proof (cases "count + 1 = cnt")
        case found: True
        then have n: "Suc (unat count) = unat cnt" using c1 by metis
        have "i - cnt + 1 = of_nat (Suc (unat i) - unat cnt)"
          using n "1.prems"(2) by (simp add: scan_inv_def of_nat_diff)
        then show ?thesis
          using scan_inv_found [OF "1.prems"(2) clear n True] test found True limit step
          by (simp add: scan_result_def)
      next
        case False
        then have "Suc (unat count) < unat cnt"
          using \<open>count < cnt\<close> c1 word_unat_eq_iff [of "count + 1" cnt] by (simp add: word_less_nat_alt)
        then have "scan_inv btmp m (unat cnt) (unat (i + 1)) (unat (count + 1))"
          using scan_inv_clear [OF "1.prems"(2) clear] i1 c1 by simp
        then show ?thesis
          using "1.IH" [OF limit [THEN iffD2, OF True] refl] "1.prems"(1) test False True limit step
          by simp
      qed
    qed
  qed
qed

text \<open>The whole search: the two loops before it stop at the first clear bit.\<close>

definition full :: "bitmap \<Rightarrow> bytes \<Rightarrow> bool" where
  "full btmp m \<longleftrightarrow> (\<forall>i < btmp_bytes_len btmp. m (bits btmp + i) = 0xff)"

lemma skip_full_bytes_full: "full btmp m \<Longrightarrow> \<not> skip_full_bytes btmp m 0 < btmp_bytes_len btmp"
  using skip_full_bytes_prop [of 0 btmp m] by (auto simp: full_def)

lemma skip_full_bytes_not_full:
  assumes "\<not> full btmp m"
  defines "r \<equiv> skip_full_bytes btmp m 0"
  shows "r < btmp_bytes_len btmp" and "m (bits btmp + r) \<noteq> 0xff"
    and "\<And>i. i < r \<Longrightarrow> m (bits btmp + i) = 0xff"
proof -
  have r: "r \<le> btmp_bytes_len btmp" "\<And>i. i < r \<Longrightarrow> m (bits btmp + i) = 0xff"
    "r < btmp_bytes_len btmp \<Longrightarrow> m (bits btmp + r) \<noteq> 0xff"
    using skip_full_bytes_prop [of 0 btmp m] by (auto simp: r_def)
  then have "r \<noteq> btmp_bytes_len btmp"
    using assms(1) by (auto simp: full_def)
  then show "r < btmp_bytes_len btmp" using r(1) by simp
  then show "m (bits btmp + r) \<noteq> 0xff" by (rule r(3))
  show "\<And>i. i < r \<Longrightarrow> m (bits btmp + i) = 0xff" by (rule r(2))
qed

lemma full_no_run: "full btmp m \<Longrightarrow> 0 < n \<Longrightarrow> wf_bitmap btmp \<Longrightarrow> \<not> free_run btmp m n k"
proof
  assume "full btmp m" and "0 < n" and wf: "wf_bitmap btmp" and "free_run btmp m n k"
  then have k: "k < nbits btmp" and clear: "\<not> bm_bit btmp m k" by (auto simp: free_run_def)
  have "k div 8 < unat (btmp_bytes_len btmp)"
    using k by (simp add: nbits_def less_mult_imp_div_less)
  then have "(of_nat (k div 8) :: u32) < btmp_bytes_len btmp"
    using u32_bound [of "btmp_bytes_len btmp"] by (simp add: word_less_nat_alt unat_of_nat_below)
  then have "m (bits btmp + of_nat (k div 8)) = - 1"
    using \<open>full btmp m\<close> by (simp add: full_def)
  then show False using clear by (simp add: bm_bit_def)
qed

lemma first_clear_bit:
  assumes "wf_bitmap btmp" and "\<not> full btmp m" and "0 < n"
  defines "r \<equiv> skip_full_bytes btmp m 0"
  defines "i \<equiv> r * 8 + of_nat (skip_set_bits (m (bits btmp + r)) 0)"
  shows "scan_inv btmp m n (unat i) 0"
proof -
  let ?off = "skip_set_bits (m (bits btmp + r)) 0"
  note r = skip_full_bytes_not_full [OF assms(2), folded r_def]
  have off: "?off < 8" "\<not> bit (m (bits btmp + r)) ?off" "\<And>j. j < ?off \<Longrightarrow> bit (m (bits btmp + r)) j"
    using skip_set_bits_prop [OF r(2), of 0] by auto
  have "unat r < 2 ^ 29"
    using r(1) assms(1) by (simp add: wf_bitmap_def word_less_nat_alt)
  then have i: "unat i = unat r * 8 + ?off"
    using off(1) by (simp add: i_def unat_word_ariths unat_of_nat_below)
  have set: "bm_bit btmp m j" if "j < unat i" for j
  proof (cases "j div 8 = unat r")
    case True
    then have "j mod 8 < ?off" using that i div_mult_mod_eq [of j 8] by linarith
    then show ?thesis using True off(3) by (simp add: bm_bit_def)
  next
    case False
    then have "j div 8 < unat r" using that i off(1) div_mult_mod_eq [of j 8] by linarith
    then have "(of_nat (j div 8) :: u32) < r"
      using u32_bound [of r] by (simp add: word_less_nat_alt unat_of_nat_below)
    then have "m (bits btmp + of_nat (j div 8)) = - 1" using r(3) by simp
    then show ?thesis by (simp add: bm_bit_def)
  qed
  have "\<not> free_run btmp m n k" if "k + n \<le> unat i" for k
    using set [of k] that assms(3) by (auto simp: free_run_def)
  moreover have "0 = unat i \<or> bm_bit btmp m (unat i - 0 - 1)"
    using set [of "unat i - 1"] by (cases "unat i") simp_all
  ultimately show ?thesis
    using assms(3) by (auto simp: scan_inv_def)
qed

lemma bitmap_scan_eq:
  assumes "wf_bitmap btmp" and "\<not> full btmp (mem s)" and "cnt \<noteq> 0"
  shows "bitmap_scan btmp cnt s = Ok (scan_result (first_fit btmp (unat cnt) (mem s))) s"
proof -
  let ?r = "skip_full_bytes btmp (mem s) 0"
  let ?i = "?r * 8 + of_nat (skip_set_bits (mem s (bits btmp + ?r)) 0)"
  have "scan_inv btmp (mem s) (unat cnt) (unat ?i) (unat (0 :: u32))"
    using first_clear_bit [OF assms(1,2)] assms(3) by (simp add: unat_gt_0)
  then have "scan_run btmp (mem s) cnt ?i 0 = scan_result (first_fit btmp (unat cnt) (mem s))"
    by (rule scan_run_first_fit [OF assms(1)])
  then show ?thesis
    using skip_full_bytes_not_full(1) [OF assms(2)]
    by (simp add: bitmap_scan_def Let_def linorder_not_less [symmetric])
qed

lemma bitmap_scan_full:
  assumes "full btmp (mem s)"
  shows "bitmap_scan btmp cnt s =
    PANIC (''lib/kernel/bitmap.c'', 27, ''bitmap_scan'', ''byte_idx < btmp->btmp_bytes_len'') s"
  using skip_full_bytes_full [OF assms] by (simp add: bitmap_scan_def Let_def)

lemma bitmap_scan_Ok:
  assumes "bitmap_scan btmp cnt s = Ok r t" and "wf_bitmap btmp" and "cnt \<noteq> 0"
  shows "t = s" and "r = scan_result (first_fit btmp (unat cnt) (mem s))" and "\<not> full btmp (mem s)"
proof -
  show nf: "\<not> full btmp (mem s)"
    using assms(1) bitmap_scan_full [of btmp s cnt] by auto
  show "t = s" and "r = scan_result (first_fit btmp (unat cnt) (mem s))"
    using assms(1) bitmap_scan_eq [OF assms(2) nf assms(3)] by auto
qed

lemma scan_result_minus_one:
  assumes "wf_bitmap btmp" and "n \<noteq> 0"
  shows "scan_result (first_fit btmp n m) = - 1 \<longleftrightarrow> first_fit btmp n m = None"
proof (cases "first_fit btmp n m")
  case (Some k)
  then have "k < 2 ^ 32 - 1"
    using first_fit_Some(1) [OF Some] assms by (simp add: free_run_def nbits_def wf_bitmap_def)
  then have "unat (of_nat k :: u32) \<noteq> unat (- 1 :: u32)"
    by (simp add: unat_of_nat_below u32_minus_one)
  then show ?thesis
    using Some by (auto simp: scan_result_def)
qed (simp add: scan_result_def)

section \<open>Setting a bit\<close>

definition mark_bit :: "bitmap \<Rightarrow> nat \<Rightarrow> bool \<Rightarrow> bytes \<Rightarrow> bytes" where
  "mark_bit btmp i v m =
     (let a = bits btmp + of_nat (i div 8)
      in m(a := if v then m a OR push_bit (i mod 8) 1 else m a AND NOT (push_bit (i mod 8) 1)))"

lemma bitmap_set_eq:
  "bitmap_set btmp i 1 s = Ok () (s\<lparr>mem := mark_bit btmp (unat i) True (mem s)\<rparr>)"
  "bitmap_set btmp i 0 s = Ok () (s\<lparr>mem := mark_bit btmp (unat i) False (mem s)\<rparr>)"
proof -
  have "i div 8 = of_nat (unat i div 8)"
    using index_div_mod(1) [of i] by (metis of_nat_unat ucast_id)
  then show "bitmap_set btmp i 1 s = Ok () (s\<lparr>mem := mark_bit btmp (unat i) True (mem s)\<rparr>)"
    and "bitmap_set btmp i 0 s = Ok () (s\<lparr>mem := mark_bit btmp (unat i) False (mem s)\<rparr>)"
    by (simp_all add: bitmap_set_def mark_bit_def index_div_mod Let_def)
qed

lemma byte_addr_eq:
  assumes "wf_bitmap btmp" and "i < nbits btmp" and "j < nbits btmp"
  shows "bits btmp + of_nat (i div 8) = bits btmp + of_nat (j div 8) \<longleftrightarrow> i div 8 = j div 8"
proof -
  have "i div 8 < 2 ^ 32" and "j div 8 < 2 ^ 32"
    using assms by (auto simp: wf_bitmap_def nbits_def)
  then show ?thesis by (simp add: of_nat_eq_word_iff)
qed

lemma bit_byte_set: "n < 8 \<Longrightarrow> bit (x OR push_bit k 1) n \<longleftrightarrow> bit x n \<or> n = k" for x :: u8
  by (auto simp: bit_simps)

lemma bit_byte_clear: "n < 8 \<Longrightarrow> bit (x AND NOT (push_bit k 1)) n \<longleftrightarrow> bit x n \<and> n \<noteq> k" for x :: u8
  by (auto simp: bit_simps)

lemma mark_bit_same:
  assumes "wf_bitmap btmp" and "i < nbits btmp" and "j < nbits btmp"
  shows "bm_bit btmp (mark_bit btmp i v m) j \<longleftrightarrow> (if j = i then v else bm_bit btmp m j)"
proof (cases "j div 8 = i div 8")
  case True
  then have "j mod 8 = i mod 8 \<longleftrightarrow> j = i" by (metis div_mult_mod_eq)
  moreover have "j mod 8 < 8" by simp
  ultimately show ?thesis
    using True unfolding bm_bit_def mark_bit_def Let_def
    by (cases v) (simp_all only: fun_upd_same if_True if_False bit_byte_set bit_byte_clear, auto)
next
  case False
  then show ?thesis
    using byte_addr_eq [OF assms(1,3,2)] by (auto simp: bm_bit_def mark_bit_def Let_def)
qed

text \<open>The bytes of a bitmap; two bitmaps with disjoint bytes do not disturb each other.\<close>

definition bm_bytes :: "bitmap \<Rightarrow> u32 set" where
  "bm_bytes btmp = {a. in_range (bits btmp) (unat (btmp_bytes_len btmp)) a}"

lemma byte_in_bm_bytes:
  assumes "i < nbits btmp"
  shows "bits btmp + of_nat (i div 8) \<in> bm_bytes btmp"
proof -
  have "i div 8 < unat (btmp_bytes_len btmp)"
    using assms by (simp add: nbits_def less_mult_imp_div_less)
  then show ?thesis
    using u32_bound [of "btmp_bytes_len btmp"]
    by (simp add: bm_bytes_def in_range_offset unat_of_nat_below)
qed

lemma mark_bit_frame: "i < nbits btmp \<Longrightarrow> a \<notin> bm_bytes btmp \<Longrightarrow> mark_bit btmp i v m a = m a"
  using byte_in_bm_bytes by (auto simp: mark_bit_def Let_def)

lemma bm_bit_cong:
  assumes "i < nbits btmp" and "\<And>a. a \<in> bm_bytes btmp \<Longrightarrow> m a = m' a"
  shows "bm_bit btmp m i = bm_bit btmp m' i"
  using assms byte_in_bm_bytes [OF assms(1)] by (simp add: bm_bit_def)

section \<open>Pools of bits\<close>

text \<open>
  What the page allocator relies on: bits that can be marked one at a time and searched for a free
  run. The lemmas are about claiming and releasing a whole run, which the clients do bit by bit.
\<close>

locale bit_pool =
  fixes used :: "'b \<Rightarrow> 'm \<Rightarrow> nat \<Rightarrow> bool"
    and cap :: "'b \<Rightarrow> nat"
    and mark :: "'b \<Rightarrow> nat \<Rightarrow> bool \<Rightarrow> 'm \<Rightarrow> 'm"
    and fit :: "'b \<Rightarrow> nat \<Rightarrow> 'm \<Rightarrow> nat option"
    and ok :: "'b \<Rightarrow> bool"
  assumes used_mark: "ok b \<Longrightarrow> i < cap b \<Longrightarrow> j < cap b \<Longrightarrow>
      used b (mark b i v m) j \<longleftrightarrow> (if j = i then v else used b m j)"
    and fit_Some: "fit b n m = Some k \<Longrightarrow> k + n \<le> cap b \<and> (\<forall>j. k \<le> j \<and> j < k + n \<longrightarrow> \<not> used b m j)"
    and fit_None: "fit b n m = None \<Longrightarrow> k + n \<le> cap b \<Longrightarrow> \<exists>j. k \<le> j \<and> j < k + n \<and> used b m j"
begin

definition mark_run :: "'b \<Rightarrow> nat \<Rightarrow> nat \<Rightarrow> bool \<Rightarrow> 'm \<Rightarrow> 'm" where
  "mark_run b k n v = fold (\<lambda>i. mark b i v) [k..<k + n]"

definition in_use :: "'b \<Rightarrow> 'm \<Rightarrow> nat set" where
  "in_use b m = {j. j < cap b \<and> used b m j}"

lemma mark_run_0 [simp]: "mark_run b k 0 v m = m"
  by (simp add: mark_run_def)

lemma mark_run_Suc: "mark_run b k (Suc n) v m = mark b (k + n) v (mark_run b k n v m)"
  by (simp add: mark_run_def)

lemma mark_run_Suc_first: "mark_run b k (Suc n) v m = mark_run b (Suc k) n v (mark b k v m)"
  by (simp add: mark_run_def upt_conv_Cons del: upt_Suc)

lemma used_mark_run:
  assumes "ok b" and "k + n \<le> cap b" and "j < cap b"
  shows "used b (mark_run b k n v m) j \<longleftrightarrow> (if k \<le> j \<and> j < k + n then v else used b m j)"
  using assms(2)
proof (induction n)
  case (Suc n)
  then show ?case
    using used_mark [OF assms(1), of "k + n" j v "mark_run b k n v m"] assms(3)
    by (auto simp: mark_run_Suc)
qed auto

lemma in_use_mark_run:
  assumes "ok b" and "k + n \<le> cap b"
  shows "in_use b (mark_run b k n True m) = in_use b m \<union> {k..<k + n}"
    and "in_use b (mark_run b k n False m) = in_use b m - {k..<k + n}"
  using assms used_mark_run [OF assms] by (auto simp: in_use_def split: if_splits)

lemma fit_fresh: "fit b n m = Some k \<Longrightarrow> {k..<k + n} \<subseteq> {..<cap b} - in_use b m"
  using fit_Some [of b n m k] by (auto simp: in_use_def)

lemma claim_release:
  assumes "ok b" and "fit b n m = Some k"
  shows "in_use b (mark_run b k n False (mark_run b k n True m)) = in_use b m"
  using fit_fresh [OF assms(2)] fit_Some [OF assms(2)] in_use_mark_run [OF assms(1), of k n] by auto

lemma card_claim:
  assumes "ok b" and "fit b n m = Some k"
  shows "card (in_use b (mark_run b k n True m)) = card (in_use b m) + n"
proof -
  have "finite (in_use b m)" by (simp add: in_use_def)
  moreover have "in_use b m \<inter> {k..<k + n} = {}" using fit_fresh [OF assms(2)] by auto
  ultimately show ?thesis
    using fit_Some [OF assms(2)] in_use_mark_run(1) [OF assms(1), of k n] by (simp add: card_Un_disjoint)
qed

lemma fit_one_None: "fit b 1 m = None \<Longrightarrow> in_use b m = {..<cap b}"
proof -
  assume none: "fit b 1 m = None"
  have "used b m j" if "j < cap b" for j
    using fit_None [OF none, of j] that by (auto simp: less_Suc_eq)
  then show ?thesis by (auto simp: in_use_def)
qed

end

interpretation bm: bit_pool bm_bit nbits mark_bit first_fit wf_bitmap
proof
  fix b :: bitmap and i j :: nat and v and m :: bytes
  assume "wf_bitmap b" "i < nbits b" "j < nbits b"
  then show "bm_bit b (mark_bit b i v m) j \<longleftrightarrow> (if j = i then v else bm_bit b m j)"
    by (rule mark_bit_same)
next
  fix b :: bitmap and n k :: nat and m :: bytes
  show "first_fit b n m = Some k \<Longrightarrow>
      k + n \<le> nbits b \<and> (\<forall>j. k \<le> j \<and> j < k + n \<longrightarrow> \<not> bm_bit b m j)"
    using first_fit_Some(1) [of b n m k] by (simp add: free_run_def)
  show "first_fit b n m = None \<Longrightarrow> k + n \<le> nbits b \<Longrightarrow> \<exists>j. k \<le> j \<and> j < k + n \<and> bm_bit b m j"
    by (auto simp: first_fit_None free_run_def)
qed

lemma mark_run_frame:
  "k + n \<le> nbits b \<Longrightarrow> a \<notin> bm_bytes b \<Longrightarrow> bm.mark_run b k n v m a = m a"
  by (induction n) (auto simp: bm.mark_run_Suc mark_bit_frame)

lemma in_use_cong:
  "(\<And>a. a \<in> bm_bytes b \<Longrightarrow> m a = m' a) \<Longrightarrow> bm.in_use b m = bm.in_use b m'"
  using bm_bit_cong [of _ b m m'] by (auto simp: bm.in_use_def)

lemma in_use_other:
  assumes "k + n \<le> nbits b" and "bm_bytes b \<inter> bm_bytes c = {}"
  shows "bm.in_use c (bm.mark_run b k n v m) = bm.in_use c m"
  using assms by (intro in_use_cong mark_run_frame) auto

section \<open>Properties\<close>

definition demo_bitmap :: bitmap where
  "demo_bitmap = \<lparr>btmp_bytes_len = 2, bits = 0x1000\<rparr>"

lemma demo_bitmap_wf: "wf_bitmap demo_bitmap"
  by (simp add: demo_bitmap_def wf_bitmap_def)

lemma demo_bitmap_not_full: "\<not> full demo_bitmap (mem demo)"
  unfolding full_def by (simp add: demo_bitmap_def demo_def) (rule exI [of _ 0], simp)

text \<open>C25: \<open>bitmap_scan\<close>, on any bitmap that has a byte other than \<open>0xff\<close>, returns the first index
  at which \<open>cnt\<close> clear bits in a row start inside the bitmap, and \<open>-1\<close> exactly when there is no
  such index; it changes nothing. The byte-wise loops and the 32-bit index arithmetic compute the
  reference search \<open>first_fit\<close>.\<close>

theorem bitmap_scan_first_fit:
  assumes "wf_bitmap btmp" and "\<not> full btmp (mem s)" and "cnt \<noteq> 0"
  shows "bitmap_scan btmp cnt s =
           Ok (case first_fit btmp (unat cnt) (mem s) of None \<Rightarrow> - 1 | Some k \<Rightarrow> of_nat k) s"
  using bitmap_scan_eq [OF assms] by (simp add: scan_result_def)

theorem bitmap_scan_first_fit_witness:
  "bitmap_scan demo_bitmap 3 demo =
     Ok (case first_fit demo_bitmap (unat (3 :: u32)) (mem demo) of None \<Rightarrow> - 1 | Some k \<Rightarrow> of_nat k) demo"
  by (rule bitmap_scan_first_fit [OF demo_bitmap_wf demo_bitmap_not_full]) simp

text \<open>C39: when every byte of the bitmap is \<open>0xff\<close>, \<open>bitmap_scan\<close> does not return \<open>-1\<close>: its
  assertion stops the machine with interrupts off.\<close>

theorem bitmap_scan_full_panics:
  assumes "full btmp (mem s)"
  shows "\<exists>t. bitmap_scan btmp cnt s = Halt t \<and> get_intr_status t = INTR_OFF"
  using bitmap_scan_full [OF assms, of cnt] PANIC_halts(1) PANIC_intr_off by (metis halts_iff)

theorem bitmap_scan_full_panics_witness:
  "\<exists>t. bitmap_scan \<lparr>btmp_bytes_len = 2, bits = 0x1000\<rparr> 1 (demo\<lparr>mem := \<lambda>_. 0xff\<rparr>) = Halt t \<and>
     get_intr_status t = INTR_OFF"
  by (rule bitmap_scan_full_panics) (simp add: full_def)

text \<open>\<open>bitmap_set\<close> gives the addressed bit the value asked for, leaves every other bit of the
  bitmap as it was and writes no byte outside the bitmap.\<close>

theorem bitmap_set_one_bit:
  assumes "wf_bitmap btmp" and "unat i < nbits btmp" and "value = 0 \<or> value = 1"
  shows "\<exists>m. bitmap_set btmp i value s = Ok () (s\<lparr>mem := m\<rparr>) \<and>
           (\<forall>j<nbits btmp. bm_bit btmp m j = (if j = unat i then value = 1 else bm_bit btmp (mem s) j)) \<and>
           (\<forall>a. a \<notin> bm_bytes btmp \<longrightarrow> m a = mem s a)"
proof -
  let ?m = "mark_bit btmp (unat i) (value = 1) (mem s)"
  have "bitmap_set btmp i value s = Ok () (s\<lparr>mem := ?m\<rparr>)"
    using assms(3) by (auto simp: bitmap_set_eq)
  then show ?thesis
    using mark_bit_same [OF assms(1,2)] mark_bit_frame [OF assms(2)] by blast
qed

theorem bitmap_set_one_bit_witness:
  "\<exists>m. bitmap_set demo_bitmap 9 1 demo = Ok () (demo\<lparr>mem := m\<rparr>) \<and>
     bm_bit demo_bitmap m 9 \<and> bm_bit demo_bitmap m 0 = bm_bit demo_bitmap (mem demo) 0 \<and>
     m 0x2000 = 0x61"
proof -
  have "unat (9 :: u32) < nbits demo_bitmap" by (simp add: nbits_def demo_bitmap_def)
  then obtain m where "bitmap_set demo_bitmap 9 1 demo = Ok () (demo\<lparr>mem := m\<rparr>)"
    and "\<forall>j<nbits demo_bitmap.
      bm_bit demo_bitmap m j = (if j = unat (9 :: u32) then (1 :: u8) = 1 else bm_bit demo_bitmap (mem demo) j)"
    and "\<forall>a. a \<notin> bm_bytes demo_bitmap \<longrightarrow> m a = mem demo a"
    using bitmap_set_one_bit [OF demo_bitmap_wf, of 9 1 demo] by auto
  then show ?thesis
    by (intro exI [of _ m])
      (simp add: nbits_def demo_bitmap_def bm_bytes_def in_range_def, simp add: demo_def)
qed

end
