(* ===== verification/Klist.thy ===== *)
theory Klist
  imports Machine
begin

text \<open>
  \<open>lib/kernel/list.c\<close>: intrusive doubly linked lists. A \<open>struct list\<close> at address \<open>l\<close> holds its
  two sentinels, the head node at \<open>l\<close> and the tail node at \<open>l + 8\<close>; a node is its address. The
  pointer fields live in \<open>node_prev\<close> and \<open>node_next\<close>, so aliasing between lists and nodes is
  visible. The loops over a list are partial: a cyclic list never reaches the tail.

  \<open>dll s l xs\<close> says that the list at \<open>l\<close> holds exactly the nodes \<open>xs\<close> in order. The lemmas give
  the effect of each routine on that sequence, that a routine on one list leaves a disjoint list
  alone, and that the interrupt bracket around the pointer updates gives the flags back. The
  locale \<open>node_deque\<close> collects these laws as the interface of the scheduler, the semaphores and
  the block allocator.
\<close>

section \<open>Routines\<close>

abbreviation (input) head_of :: "u32 \<Rightarrow> u32" where "head_of plist \<equiv> plist"
abbreviation (input) tail_of :: "u32 \<Rightarrow> u32" where "tail_of plist \<equiv> plist + 8"

definition set_prev :: "u32 \<Rightarrow> u32 \<Rightarrow> 'e machine_scheme \<Rightarrow> 'e machine_scheme" where
  "set_prev node p s = s\<lparr>node_prev := (node_prev s)(node := p)\<rparr>"

definition set_next :: "u32 \<Rightarrow> u32 \<Rightarrow> 'e machine_scheme \<Rightarrow> 'e machine_scheme" where
  "set_next node p s = s\<lparr>node_next := (node_next s)(node := p)\<rparr>"

definition list_init :: "u32 \<Rightarrow> 'e machine_scheme \<Rightarrow> 'e machine_scheme" where
  "list_init plist s =
     (let s = set_prev (head_of plist) NULL s;
          s = set_next (head_of plist) (tail_of plist) s;
          s = set_prev (tail_of plist) (head_of plist) s
      in set_next (tail_of plist) NULL s)"

definition list_insert_before :: "u32 \<Rightarrow> u32 \<Rightarrow> 'e machine_scheme \<Rightarrow> 'e machine_scheme" where
  "list_insert_before before node s =
     (let (old_status, s) = intr_disable s;
          s = set_next (node_prev s before) node s;
          s = set_prev node (node_prev s before) s;
          s = set_next node before s;
          s = set_prev before node s
      in snd (set_intr_status old_status s))"

definition list_push :: "u32 \<Rightarrow> u32 \<Rightarrow> 'e machine_scheme \<Rightarrow> 'e machine_scheme" where
  "list_push plist node s = list_insert_before (node_next s (head_of plist)) node s"

definition list_append :: "u32 \<Rightarrow> u32 \<Rightarrow> 'e machine_scheme \<Rightarrow> 'e machine_scheme" where
  "list_append plist node s = list_insert_before (tail_of plist) node s"

definition list_remove :: "u32 \<Rightarrow> 'e machine_scheme \<Rightarrow> 'e machine_scheme" where
  "list_remove node s =
     (let (old_status, s) = intr_disable s;
          s = set_next (node_prev s node) (node_next s node) s;
          s = set_prev (node_next s node) (node_prev s node) s
      in snd (set_intr_status old_status s))"

definition list_pop :: "u32 \<Rightarrow> 'e machine_scheme \<Rightarrow> u32 \<times> 'e machine_scheme" where
  "list_pop plist s = (let top = node_next s (head_of plist) in (top, list_remove top s))"

partial_function (option) node_find_loop ::
    "(u32 \<Rightarrow> u32) \<Rightarrow> u32 \<Rightarrow> u32 \<Rightarrow> u32 \<Rightarrow> bool option" where
  "node_find_loop nxt tail node cur =
     (if cur \<noteq> tail
      then if cur = node then Some True else node_find_loop nxt tail node (nxt cur)
      else Some False)"

definition node_find :: "u32 \<Rightarrow> u32 \<Rightarrow> 'e machine_scheme \<Rightarrow> (bool, 'e machine_scheme) res" where
  "node_find plist node s =
     of_loop (node_find_loop (node_next s) (tail_of plist) node (node_next s (head_of plist))) s"

partial_function (option) list_traversal_loop ::
    "(u32 \<Rightarrow> u32) \<Rightarrow> u32 \<Rightarrow> (u32 \<Rightarrow> u32 \<Rightarrow> u32) \<Rightarrow> u32 \<Rightarrow> u32 \<Rightarrow> u32 option" where
  "list_traversal_loop nxt tail func args cur =
     (if cur \<noteq> tail
      then if func cur args \<noteq> 0 then Some cur
           else list_traversal_loop nxt tail func args (nxt cur)
      else Some NULL)"

definition list_traversal ::
    "u32 \<Rightarrow> (u32 \<Rightarrow> u32 \<Rightarrow> u32) \<Rightarrow> u32 \<Rightarrow> 'e machine_scheme \<Rightarrow> (u32, 'e machine_scheme) res" where
  "list_traversal plist func args s =
     of_loop (list_traversal_loop (node_next s) (tail_of plist) func args
       (node_next s (head_of plist))) s"

partial_function (option) list_len_loop :: "(u32 \<Rightarrow> u32) \<Rightarrow> u32 \<Rightarrow> u32 \<Rightarrow> u32 \<Rightarrow> u32 option" where
  "list_len_loop nxt tail len cur =
     (if cur \<noteq> tail then list_len_loop nxt tail (len + 1) (nxt cur) else Some len)"

definition list_len :: "u32 \<Rightarrow> 'e machine_scheme \<Rightarrow> (u32, 'e machine_scheme) res" where
  "list_len plist s =
     of_loop (list_len_loop (node_next s) (tail_of plist) 0 (node_next s (head_of plist))) s"

definition list_empty :: "u32 \<Rightarrow> 'e machine_scheme \<Rightarrow> bool" where
  "list_empty plist s \<longleftrightarrow> node_next s (head_of plist) = tail_of plist"

section \<open>Sequences of linked nodes\<close>

fun links :: "(u32 \<Rightarrow> u32) \<Rightarrow> (u32 \<Rightarrow> u32) \<Rightarrow> u32 list \<Rightarrow> bool" where
  "links nxt prv (a # b # r) \<longleftrightarrow> nxt a = b \<and> prv b = a \<and> links nxt prv (b # r)"
| "links nxt prv _ \<longleftrightarrow> True"

definition span :: "u32 \<Rightarrow> u32 list \<Rightarrow> u32 list" where
  "span plist xs = head_of plist # xs @ [tail_of plist]"

definition dll :: "'e machine_scheme \<Rightarrow> u32 \<Rightarrow> u32 list \<Rightarrow> bool" where
  "dll s plist xs \<longleftrightarrow> distinct (span plist xs) \<and> links (node_next s) (node_prev s) (span plist xs)"

abbreviation foot :: "u32 \<Rightarrow> u32 list \<Rightarrow> u32 set" where
  "foot plist xs \<equiv> set (span plist xs)"

lemma span_split: "span l (xs @ ys) = (head_of l # xs) @ (ys @ [tail_of l])"
  by (simp add: span_def)

lemma links_append:
  "links nxt prv (xs @ a # ys) \<longleftrightarrow> links nxt prv (xs @ [a]) \<and> links nxt prv (a # ys)"
proof (induction xs)
  case (Cons x xs)
  then show ?case by (cases xs) auto
qed simp

lemma links_cong:
  assumes "\<And>u. u \<in> set xs \<Longrightarrow> nxt u = nxt' u" and "\<And>u. u \<in> set xs \<Longrightarrow> prv u = prv' u"
  shows "links nxt prv xs = links nxt' prv' xs"
  using assms by (induction nxt prv xs rule: links.induct) auto

lemma links_upd_next: "u \<notin> set xs \<Longrightarrow> links (nxt(u := v)) prv xs = links nxt prv xs"
  by (rule links_cong) auto

lemma links_upd_prev: "u \<notin> set xs \<Longrightarrow> links nxt (prv(u := v)) xs = links nxt prv xs"
  by (rule links_cong) auto

lemma links_upd_next_last: "distinct (xs @ [a]) \<Longrightarrow> links (nxt(a := v)) prv (xs @ [a]) = links nxt prv (xs @ [a])"
proof (induction xs)
  case (Cons x xs)
  then show ?case by (cases xs) auto
qed simp

lemma links_upd_prev_first: "distinct (a # ys) \<Longrightarrow> links nxt (prv(a := v)) (a # ys) = links nxt prv (a # ys)"
  by (cases ys) (auto simp: links_upd_prev)

lemmas links_upd = links_upd_next links_upd_prev links_upd_next_last links_upd_prev_first

lemma links_mid:
  "links nxt prv (xs @ a # b # ys) \<longleftrightarrow>
     links nxt prv (xs @ [a]) \<and> nxt a = b \<and> prv b = a \<and> links nxt prv (b # ys)"
  by (subst links_append) simp

text \<open>Linking a node in between two neighbours, and linking one out.\<close>

lemma links_insert:
  assumes "links nxt prv (xs @ a # b # ys)" and "distinct (xs @ a # b # ys)"
    and "node \<notin> set (xs @ a # b # ys)"
  shows "links (nxt(a := node, node := b)) (prv(node := a, b := node)) (xs @ a # node # b # ys)"
proof -
  have "links nxt prv (xs @ [a])" and "links nxt prv (b # ys)"
    using assms(1) by (simp_all add: links_mid)
  then have "links (nxt(a := node, node := b)) (prv(node := a, b := node)) (xs @ [a])"
    and "links (nxt(a := node, node := b)) (prv(node := a, b := node)) (b # ys)"
    using assms(2,3) by (auto simp: links_upd)
  then show ?thesis
    using assms(2,3) by (auto simp: links_mid)
qed

lemma links_unlink:
  assumes "links nxt prv (xs @ a # node # b # ys)" and "distinct (xs @ a # node # b # ys)"
  shows "links (nxt(a := b)) (prv(b := a)) (xs @ a # b # ys)"
proof -
  have "links nxt prv (xs @ [a])" and "links nxt prv (b # ys)"
    using assms(1) by (simp_all add: links_mid)
  then have "links (nxt(a := b)) (prv(b := a)) (xs @ [a])"
    and "links (nxt(a := b)) (prv(b := a)) (b # ys)"
    using assms(2) by (auto simp: links_upd)
  then show ?thesis
    by (simp add: links_mid)
qed

section \<open>The pointer updates of each routine\<close>

lemma restore_flags:
  "snd (set_intr_status (get_intr_status s) ((cli s)\<lparr>node_next := n, node_prev := p\<rparr>)) =
     s\<lparr>node_next := n, node_prev := p\<rparr>"
proof (cases "get_intr_status s")
  case INTR_ON
  then have "(eflags s AND NOT EFLAGS_IF) OR EFLAGS_IF = eflags s"
    by (simp add: get_intr_status_def flag_set_clear_id split: if_splits)
  then show ?thesis
    using INTR_ON by (simp add: set_intr_status_eq sti_def cli_def)
next
  case INTR_OFF
  then show ?thesis
    by (simp add: set_intr_status_eq cli_id) (simp add: cli_def get_intr_status_def flag_clear_id split: if_splits)
qed

lemma list_insert_before_eq:
  "list_insert_before before node s =
     s\<lparr>node_next := (node_next s)(node_prev s before := node, node := before),
       node_prev := (node_prev s)(node := ((node_prev s) before), before := node)\<rparr>"
proof -
  let ?p = "(node_prev s)(node := node_prev s before, before := node)"
  let ?n = "(node_next s)(node_prev s before := node, node := before)"
  have "list_insert_before before node s =
      snd (set_intr_status (get_intr_status s) ((cli s)\<lparr>node_next := ?n, node_prev := ?p\<rparr>))"
    by (simp add: list_insert_before_def intr_disable_eq set_prev_def set_next_def cli_def Let_def)
  then show ?thesis by (simp only: restore_flags)
qed

lemma list_remove_upd:
  "list_remove node s =
     (let n = (node_next s)(node_prev s node := node_next s node)
      in s\<lparr>node_next := n, node_prev := (node_prev s)(n node := node_prev s node)\<rparr>)"
proof -
  let ?n = "(node_next s)(node_prev s node := node_next s node)"
  let ?p = "(node_prev s)(?n node := node_prev s node)"
  have "list_remove node s =
      snd (set_intr_status (get_intr_status s) ((cli s)\<lparr>node_next := ?n, node_prev := ?p\<rparr>))"
    by (simp add: list_remove_def intr_disable_eq set_prev_def set_next_def cli_def Let_def)
  then show ?thesis by (simp only: restore_flags Let_def)
qed

lemma list_remove_eq:
  assumes "node_prev s node \<noteq> node"
  shows "list_remove node s =
     s\<lparr>node_next := (node_next s)(node_prev s node := node_next s node),
       node_prev := (node_prev s)(node_next s node := node_prev s node)\<rparr>"
  using assms by (simp add: list_remove_upd Let_def)

text \<open>Only the two pointer maps change; in particular the flags come back as they were.\<close>

lemmas list_ops_upd =
  list_insert_before_eq list_remove_upd list_push_def list_append_def list_pop_def Let_def

lemma list_ops_frame [simp]:
  "eflags (list_push l x s) = eflags s" "eflags (list_append l x s) = eflags s"
  "eflags (list_remove x s) = eflags s" "eflags (snd (list_pop l s)) = eflags s"
  "mem (list_push l x s) = mem s" "mem (list_append l x s) = mem s"
  "mem (list_remove x s) = mem s" "mem (snd (list_pop l s)) = mem s"
  "phys (list_push l x s) = phys s" "phys (list_append l x s) = phys s"
  "phys (list_remove x s) = phys s" "phys (snd (list_pop l s)) = phys s"
  "cr3 (list_push l x s) = cr3 s" "cr3 (list_append l x s) = cr3 s"
  "cr3 (list_remove x s) = cr3 s" "cr3 (snd (list_pop l s)) = cr3 s"
  "screen (list_push l x s) = screen s" "screen (list_append l x s) = screen s"
  "screen (list_remove x s) = screen s" "screen (snd (list_pop l s)) = screen s"
  "ports (list_push l x s) = ports s" "ports (list_append l x s) = ports s"
  "ports (list_remove x s) = ports s" "ports (snd (list_pop l s)) = ports s"
  by (simp_all add: list_ops_upd)

lemma list_ops_status [simp]:
  "get_intr_status (list_push l x s) = get_intr_status s"
  "get_intr_status (list_append l x s) = get_intr_status s"
  "get_intr_status (list_remove x s) = get_intr_status s"
  "get_intr_status (snd (list_pop l s)) = get_intr_status s"
  by (simp_all add: get_intr_status_def)

section \<open>Effect on the sequence\<close>

lemma list_init_dll: "dll (list_init l s) l []"
  by (simp add: dll_def span_def list_init_def set_prev_def set_next_def Let_def)

lemma dll_insert_before:
  assumes "dll s l (xs @ ys)" and "node \<notin> foot l (xs @ ys)"
  shows "dll (list_insert_before (hd (ys @ [tail_of l])) node s) l (xs @ node # ys)"
proof -
  obtain b r where br: "ys @ [tail_of l] = b # r" by (cases "ys @ [tail_of l]") auto
  obtain p a where pa: "head_of l # xs = p @ [a]" by (metis append_butlast_last_id list.distinct(1))
  have span: "span l (xs @ ys) = p @ a # b # r" "span l (xs @ node # ys) = p @ a # node # b # r"
    using span_split [of l xs ys] span_split [of l xs "node # ys"] pa br by simp_all
  then have lk: "links (node_next s) (node_prev s) (p @ a # b # r)" and d: "distinct (p @ a # b # r)"
    using assms(1) by (simp_all add: dll_def)
  have "node_prev s b = a" using lk by (simp add: links_mid)
  then have "links (node_next (list_insert_before b node s)) (node_prev (list_insert_before b node s))
      (p @ a # node # b # r)"
    using links_insert [OF lk d] assms(2) span(1) by (simp add: list_insert_before_eq)
  moreover have "distinct (p @ a # node # b # r)"
    using d assms(2) span(1) by auto
  ultimately show ?thesis
    using span(2) br by (simp add: dll_def)
qed

lemma dll_remove:
  assumes "dll s l (xs @ node # ys)"
  shows "dll (list_remove node s) l (xs @ ys)"
    and "u \<notin> foot l (xs @ ys) \<Longrightarrow> node_next (list_remove node s) u = node_next s u"
    and "u \<notin> foot l (xs @ ys) \<Longrightarrow> node_prev (list_remove node s) u = node_prev s u"
proof -
  obtain b r where br: "ys @ [tail_of l] = b # r" by (cases "ys @ [tail_of l]") auto
  obtain p a where pa: "head_of l # xs = p @ [a]" by (metis append_butlast_last_id list.distinct(1))
  have span: "span l (xs @ ys) = p @ a # b # r" "span l (xs @ node # ys) = p @ a # node # b # r"
    using span_split [of l xs ys] span_split [of l xs "node # ys"] pa br by simp_all
  then have lk: "links (node_next s) (node_prev s) (p @ a # node # b # r)"
    and d: "distinct (p @ a # node # b # r)"
    using assms by (simp_all add: dll_def)
  have "node_prev s node = a" and "node_next s node = b"
    using lk by (simp_all add: links_mid)
  moreover have "a \<noteq> node" using d by auto
  ultimately have eq: "list_remove node s =
      s\<lparr>node_next := (node_next s)(a := b), node_prev := (node_prev s)(b := a)\<rparr>"
    by (simp add: list_remove_eq)
  show "dll (list_remove node s) l (xs @ ys)"
    using links_unlink [OF lk d] d span by (simp add: dll_def eq)
  show "u \<notin> foot l (xs @ ys) \<Longrightarrow> node_next (list_remove node s) u = node_next s u"
    and "u \<notin> foot l (xs @ ys) \<Longrightarrow> node_prev (list_remove node s) u = node_prev s u"
    by (auto simp: eq span)
qed

lemma insert_before_outside:
  assumes "dll s l (xs @ ys)" and "u \<notin> foot l (xs @ node # ys)"
  shows "node_next (list_insert_before (hd (ys @ [tail_of l])) node s) u = node_next s u"
    and "node_prev (list_insert_before (hd (ys @ [tail_of l])) node s) u = node_prev s u"
proof -
  obtain b r where br: "ys @ [tail_of l] = b # r" by (cases "ys @ [tail_of l]") auto
  obtain p a where pa: "head_of l # xs = p @ [a]" by (metis append_butlast_last_id list.distinct(1))
  have span: "span l (xs @ ys) = p @ a # b # r" "span l (xs @ node # ys) = p @ a # node # b # r"
    using span_split [of l xs ys] span_split [of l xs "node # ys"] pa br by simp_all
  then have "node_prev s b = a"
    using assms(1) by (simp add: dll_def links_mid)
  then show "node_next (list_insert_before (hd (ys @ [tail_of l])) node s) u = node_next s u"
    and "node_prev (list_insert_before (hd (ys @ [tail_of l])) node s) u = node_prev s u"
    using assms(2) br by (auto simp: list_insert_before_eq span)
qed

lemma dll_cong:
  assumes "\<And>u. u \<in> foot l xs \<Longrightarrow> node_next s u = node_next t u"
    and "\<And>u. u \<in> foot l xs \<Longrightarrow> node_prev s u = node_prev t u"
  shows "dll s l xs = dll t l xs"
  using links_cong [of "span l xs", OF assms] by (simp add: dll_def)

lemma dll_first: "dll s l xs \<Longrightarrow> node_next s l = hd (xs @ [tail_of l])"
  by (cases xs) (simp_all add: dll_def span_def)

lemma dll_no_sentinels: "dll s l xs \<Longrightarrow> l \<notin> set xs \<and> tail_of l \<notin> set xs"
  by (simp add: dll_def span_def)

lemma dll_distinct: "dll s l xs \<Longrightarrow> distinct xs"
  by (simp add: dll_def span_def)

lemma list_push_as_insert:
  "dll s l xs \<Longrightarrow> list_push l node s = list_insert_before (hd (xs @ [tail_of l])) node s"
  by (simp add: list_push_def dll_first)

lemma list_append_as_insert: "list_append l node s = list_insert_before (hd ([] @ [tail_of l])) node s"
  by (simp add: list_append_def)

lemma foot_simps:
  "foot l (x # xs) = insert x (foot l xs)" "foot l (xs @ ys) = foot l xs \<union> set ys" "foot l [] = {l, tail_of l}"
  by (auto simp: span_def)

lemma list_push_dll: "dll s l xs \<Longrightarrow> node \<notin> foot l xs \<Longrightarrow> dll (list_push l node s) l (node # xs)"
  using dll_insert_before [of s l "[]" xs node] by (simp add: list_push_as_insert)

lemma list_append_dll: "dll s l xs \<Longrightarrow> node \<notin> foot l xs \<Longrightarrow> dll (list_append l node s) l (xs @ [node])"
  using dll_insert_before [of s l xs "[]" node] by (simp add: list_append_as_insert)

lemma list_pop_dll:
  assumes "dll s l (x # xs)"
  shows "fst (list_pop l s) = x" and "dll (snd (list_pop l s)) l xs"
  using dll_remove(1) [of s l "[]" x xs] dll_first [OF assms] assms by (simp_all add: list_pop_def)

text \<open>A list that shares no node with the one operated on is not affected.\<close>

lemma list_push_frame:
  assumes "dll s l xs" and "dll s k zs" and "foot l (node # xs) \<inter> foot k zs = {}"
  shows "dll (list_push l node s) k zs"
proof -
  have "u \<notin> foot l ([] @ node # xs)" if "u \<in> foot k zs" for u
    using that assms(3) by auto
  then have "dll s k zs = dll (list_push l node s) k zs"
    using insert_before_outside [of s l "[]" xs _ node] assms(1)
    by (intro dll_cong) (simp_all add: list_push_as_insert)
  then show ?thesis using assms(2) by blast
qed

lemma list_append_frame:
  assumes "dll s l xs" and "dll s k zs" and "foot l (node # xs) \<inter> foot k zs = {}"
  shows "dll (list_append l node s) k zs"
proof -
  have "u \<notin> foot l (xs @ node # [])" if "u \<in> foot k zs" for u
    using that assms(3) by (auto simp: foot_simps)
  then have "dll s k zs = dll (list_append l node s) k zs"
    using insert_before_outside [of s l xs "[]" _ node] assms(1)
    by (intro dll_cong) (simp_all add: list_append_as_insert)
  then show ?thesis using assms(2) by blast
qed

lemma list_remove_frame:
  assumes "dll s l (xs @ node # ys)" and "dll s k zs" and "foot l (xs @ ys) \<inter> foot k zs = {}"
  shows "dll (list_remove node s) k zs"
proof -
  have "u \<notin> foot l (xs @ ys)" if "u \<in> foot k zs" for u
    using that assms(3) by auto
  then have "dll s k zs = dll (list_remove node s) k zs"
    using dll_remove(2,3) [OF assms(1)] by (intro dll_cong) simp_all
  then show ?thesis using assms(2) by blast
qed

lemma list_pop_frame:
  assumes "dll s l (x # xs)" and "dll s k zs" and "foot l xs \<inter> foot k zs = {}"
  shows "dll (snd (list_pop l s)) k zs"
  using list_remove_frame [of s l "[]" x xs k zs] assms dll_first [OF assms(1)] by (simp add: list_pop_def)

lemma list_init_frame:
  assumes "dll s k zs" and "{l, tail_of l} \<inter> foot k zs = {}"
  shows "dll (list_init l s) k zs"
proof -
  have "dll s k zs = dll (list_init l s) k zs"
    using assms(2) by (intro dll_cong) (auto simp: list_init_def set_prev_def set_next_def Let_def)
  then show ?thesis using assms(1) by blast
qed

section \<open>Loops over a list\<close>

lemma node_find_loop_links:
  assumes "links nxt prv (xs @ [t])" and "t \<notin> set xs"
  shows "node_find_loop nxt t node (hd (xs @ [t])) = Some (node \<in> set xs)"
  using assms
proof (induction xs)
  case Nil
  show ?case by (simp add: node_find_loop.simps)
next
  case (Cons x xs)
  have "nxt x = hd (xs @ [t])" and "links nxt prv (xs @ [t])"
    using Cons.prems(1) by (cases xs; simp)+
  then show ?case
    using Cons by (subst node_find_loop.simps) auto
qed

lemma list_len_loop_links:
  assumes "links nxt prv (xs @ [t])" and "t \<notin> set xs"
  shows "list_len_loop nxt t n (hd (xs @ [t])) = Some (n + of_nat (length xs))"
  using assms
proof (induction xs arbitrary: n)
  case Nil
  show ?case by (simp add: list_len_loop.simps)
next
  case (Cons x xs)
  have "nxt x = hd (xs @ [t])" and "links nxt prv (xs @ [t])"
    using Cons.prems(1) by (cases xs; simp)+
  then show ?case
    using Cons by (subst list_len_loop.simps) (auto simp: algebra_simps)
qed

lemma list_traversal_loop_links:
  assumes "links nxt prv (xs @ [t])" and "t \<notin> set xs"
  shows "list_traversal_loop nxt t func args (hd (xs @ [t])) =
    Some (case find (\<lambda>x. func x args \<noteq> 0) xs of None \<Rightarrow> NULL | Some x \<Rightarrow> x)"
  using assms
proof (induction xs)
  case Nil
  show ?case by (simp add: list_traversal_loop.simps)
next
  case (Cons x xs)
  have "nxt x = hd (xs @ [t])" and "links nxt prv (xs @ [t])"
    using Cons.prems(1) by (cases xs; simp)+
  then show ?case
    using Cons by (subst list_traversal_loop.simps) auto
qed

lemma dll_links_tail: "dll s l xs \<Longrightarrow> links (node_next s) (node_prev s) (xs @ [tail_of l])"
  by (cases xs) (simp_all add: dll_def span_def)

lemma node_find_dll: "dll s l xs \<Longrightarrow> node_find l x s = Ok (x \<in> set xs) s"
  using node_find_loop_links [OF dll_links_tail, of s l xs x]
  by (simp add: node_find_def dll_first dll_no_sentinels)

lemma list_len_dll: "dll s l xs \<Longrightarrow> list_len l s = Ok (of_nat (length xs)) s"
  using list_len_loop_links [OF dll_links_tail, of s l xs 0]
  by (simp add: list_len_def dll_first dll_no_sentinels)

lemma list_traversal_dll:
  "dll s l xs \<Longrightarrow> list_traversal l func args s =
     Ok (case find (\<lambda>x. func x args \<noteq> 0) xs of None \<Rightarrow> NULL | Some x \<Rightarrow> x) s"
  using list_traversal_loop_links [OF dll_links_tail, of s l xs func args]
  by (simp add: list_traversal_def dll_first dll_no_sentinels)

lemma list_empty_dll: "dll s l xs \<Longrightarrow> list_empty l s \<longleftrightarrow> xs = []"
  by (cases xs) (auto simp: list_empty_def dll_def span_def)

section \<open>The interface of the lists\<close>

text \<open>
  What the scheduler, the semaphores and the block allocator use of the lists: the effect on the
  sequence and the frame. The lemmas combine operations the way those clients do.
\<close>

locale node_deque =
  fixes rep :: "'s \<Rightarrow> u32 \<Rightarrow> u32 list \<Rightarrow> bool"
    and push :: "u32 \<Rightarrow> u32 \<Rightarrow> 's \<Rightarrow> 's"
    and append :: "u32 \<Rightarrow> u32 \<Rightarrow> 's \<Rightarrow> 's"
    and pop :: "u32 \<Rightarrow> 's \<Rightarrow> u32 \<times> 's"
    and remove :: "u32 \<Rightarrow> 's \<Rightarrow> 's"
  assumes rep_apart: "rep s l xs \<Longrightarrow> distinct (span l xs)"
    and push_rep: "rep s l xs \<Longrightarrow> x \<notin> foot l xs \<Longrightarrow> rep (push l x s) l (x # xs)"
    and append_rep: "rep s l xs \<Longrightarrow> x \<notin> foot l xs \<Longrightarrow> rep (append l x s) l (xs @ [x])"
    and pop_fst: "rep s l (x # xs) \<Longrightarrow> fst (pop l s) = x"
    and pop_rep: "rep s l (x # xs) \<Longrightarrow> rep (snd (pop l s)) l xs"
    and remove_rep: "rep s l (xs @ x # ys) \<Longrightarrow> rep (remove x s) l (xs @ ys)"
    and push_frame: "rep s l xs \<Longrightarrow> rep s k zs \<Longrightarrow> foot l (x # xs) \<inter> foot k zs = {} \<Longrightarrow>
      rep (push l x s) k zs"
    and append_frame: "rep s l xs \<Longrightarrow> rep s k zs \<Longrightarrow> foot l (x # xs) \<inter> foot k zs = {} \<Longrightarrow>
      rep (append l x s) k zs"
    and pop_frame: "rep s l (x # xs) \<Longrightarrow> rep s k zs \<Longrightarrow> foot l xs \<inter> foot k zs = {} \<Longrightarrow>
      rep (snd (pop l s)) k zs"
begin

text \<open>Round robin: put the running one at the end, take the one in front.\<close>

lemma rotate:
  assumes "rep s l xs" and "x \<notin> foot l xs"
  shows "fst (pop l (append l x s)) = hd (xs @ [x])"
    and "rep (snd (pop l (append l x s))) l (tl (xs @ [x]))"
proof -
  obtain y ys where ys: "xs @ [x] = y # ys" by (cases "xs @ [x]") auto
  have "rep (append l x s) l (y # ys)"
    using append_rep [OF assms] ys by simp
  then show "fst (pop l (append l x s)) = hd (xs @ [x])"
    and "rep (snd (pop l (append l x s))) l (tl (xs @ [x]))"
    using pop_fst pop_rep ys by simp_all
qed

text \<open>Waking: the first of one list goes to the front of another.\<close>

lemma move_front:
  assumes "rep s l (x # xs)" and "rep s k zs" and "foot l (x # xs) \<inter> foot k zs = {}"
  shows "fst (pop l s) = x"
    and "rep (push k x (snd (pop l s))) l xs"
    and "rep (push k x (snd (pop l s))) k (x # zs)"
proof -
  have k: "rep (snd (pop l s)) k zs"
    using assms by (intro pop_frame [OF assms(1)]) (auto simp: foot_simps)
  have l: "rep (snd (pop l s)) l xs"
    using assms(1) by (rule pop_rep)
  have "x \<notin> foot l xs"
    using rep_apart [OF assms(1)] by (auto simp: span_def)
  then have "foot k (x # zs) \<inter> foot l xs = {}"
    using assms(3) by (auto simp: foot_simps)
  then show "rep (push k x (snd (pop l s))) l xs"
    by (rule push_frame [OF k l])
  have "x \<notin> foot k zs"
    using assms(3) by (auto simp: foot_simps)
  then show "rep (push k x (snd (pop l s))) k (x # zs)"
    by (rule push_rep [OF k])
  show "fst (pop l s) = x"
    using assms(1) by (rule pop_fst)
qed

text \<open>Building a list: a fresh sequence of nodes appended one by one.\<close>

lemma append_all:
  assumes "rep s l xs" and "distinct ys" and "set ys \<inter> foot l xs = {}"
  shows "rep (fold (append l) ys s) l (xs @ ys)"
  using assms
proof (induction ys arbitrary: s xs)
  case (Cons y ys)
  have "rep (append l y s) l (xs @ [y])"
    using Cons.prems by (intro append_rep) auto
  moreover have "set ys \<inter> foot l (xs @ [y]) = {}"
    using Cons.prems by (auto simp: foot_simps)
  ultimately have "rep (fold (append l) ys (append l y s)) l ((xs @ [y]) @ ys)"
    using Cons.prems(2) by (intro Cons.IH) auto
  then show ?case by simp
qed simp

lemma append_all_frame:
  assumes "rep s l xs" and "distinct ys" and "set ys \<inter> foot l xs = {}"
    and "rep s k zs" and "foot l (xs @ ys) \<inter> foot k zs = {}"
  shows "rep (fold (append l) ys s) k zs"
  using assms
proof (induction ys arbitrary: s xs)
  case (Cons y ys)
  have "rep (append l y s) l (xs @ [y])"
    using Cons.prems(1-3) by (intro append_rep) auto
  moreover have "rep (append l y s) k zs"
    using Cons.prems(1,4,5) by (intro append_frame) (auto simp: foot_simps)
  ultimately have "rep (fold (append l) ys (append l y s)) k zs"
    using Cons.prems by (intro Cons.IH [of "append l y s" "xs @ [y]"]) (auto simp: foot_simps)
  then show ?case by simp
qed simp

text \<open>Dismantling: removing the nodes of a sublist one by one, wherever they are.\<close>

lemma remove_all:
  assumes "rep s l xs" and "distinct ys" and "set ys \<subseteq> set xs"
  shows "rep (fold remove ys s) l (filter (\<lambda>x. x \<notin> set ys) xs)"
  using assms
proof (induction ys arbitrary: s xs)
  case (Cons y ys)
  obtain as bs where split: "xs = as @ y # bs"
    using Cons.prems(3) by (metis insert_subset list.simps(15) split_list)
  have "y \<notin> set as" and "y \<notin> set bs"
    using rep_apart [OF Cons.prems(1)] by (auto simp: split span_def)
  moreover have "filter (\<lambda>x. x \<noteq> y \<and> x \<notin> set ys) zs = filter (\<lambda>x. x \<notin> set ys) zs"
    if "y \<notin> set zs" for zs
    using that by (intro filter_cong) auto
  ultimately have "filter (\<lambda>x. x \<notin> set (y # ys)) xs = filter (\<lambda>x. x \<notin> set ys) (as @ bs)"
    by (simp add: split)
  moreover have "rep (remove y s) l (as @ bs)"
    using Cons.prems(1) by (intro remove_rep) (simp add: split)
  moreover have "set ys \<subseteq> set (as @ bs)"
    using Cons.prems(2,3) by (auto simp: split)
  ultimately show ?case
    using Cons.IH [of "remove y s" "as @ bs"] Cons.prems(2) by simp
qed simp

end

interpretation kl: node_deque dll list_push list_append list_pop list_remove
proof
  fix s :: "'e machine_scheme" and l k x :: u32 and xs ys zs :: "u32 list"
  show "dll s l xs \<Longrightarrow> distinct (span l xs)" by (simp add: dll_def)
  show "dll s l xs \<Longrightarrow> x \<notin> foot l xs \<Longrightarrow> dll (list_push l x s) l (x # xs)" by (rule list_push_dll)
  show "dll s l xs \<Longrightarrow> x \<notin> foot l xs \<Longrightarrow> dll (list_append l x s) l (xs @ [x])" by (rule list_append_dll)
  show "dll s l (x # xs) \<Longrightarrow> fst (list_pop l s) = x" by (rule list_pop_dll)
  show "dll s l (x # xs) \<Longrightarrow> dll (snd (list_pop l s)) l xs" by (rule list_pop_dll)
  show "dll s l (xs @ x # ys) \<Longrightarrow> dll (list_remove x s) l (xs @ ys)" by (rule dll_remove)
  show "dll s l xs \<Longrightarrow> dll s k zs \<Longrightarrow> foot l (x # xs) \<inter> foot k zs = {} \<Longrightarrow> dll (list_push l x s) k zs"
    by (rule list_push_frame)
  show "dll s l xs \<Longrightarrow> dll s k zs \<Longrightarrow> foot l (x # xs) \<inter> foot k zs = {} \<Longrightarrow> dll (list_append l x s) k zs"
    by (rule list_append_frame)
  show "dll s l (x # xs) \<Longrightarrow> dll s k zs \<Longrightarrow> foot l xs \<inter> foot k zs = {} \<Longrightarrow> dll (snd (list_pop l s)) k zs"
    by (rule list_pop_frame)
qed

section \<open>Properties\<close>

definition demo_list :: machine where
  "demo_list = list_append 0x500 0x700 (list_append 0x500 0x600 (list_init 0x500 (list_init 0x900 demo)))"

lemma demo_list_dll: "dll demo_list 0x500 [0x600, 0x700]"
  and demo_list_other: "dll demo_list 0x900 []"
proof -
  let ?i = "list_init 0x500 (list_init 0x900 demo)"
  have i: "dll ?i 0x500 []" "dll ?i 0x900 []"
    by (rule list_init_dll) (rule list_init_frame [OF list_init_dll], simp add: span_def)
  let ?a = "list_append 0x500 0x600 ?i"
  have a: "dll ?a 0x500 ([] @ [0x600])" "dll ?a 0x900 []"
    by (rule list_append_dll [OF i(1)], simp add: span_def)
      (rule list_append_frame [OF i], simp add: span_def)
  have "dll demo_list 0x500 (([] @ [0x600]) @ [0x700])"
    unfolding demo_list_def by (rule list_append_dll [OF a(1)]) (simp add: span_def)
  then show "dll demo_list 0x500 [0x600, 0x700]" by simp
  show "dll demo_list 0x900 []"
    unfolding demo_list_def by (rule list_append_frame [OF a]) (simp add: span_def)
qed

text \<open>\<open>list_append\<close> puts a node that is not yet linked at the end of the list, keeps any
  disjoint list as it is, and changes nothing of the machine but node pointers: the interrupt flag
  it masks while it works comes back.\<close>

theorem list_append_at_end:
  assumes "dll s l xs" and "node \<notin> foot l xs"
    and "dll s k zs" and "foot l (node # xs) \<inter> foot k zs = {}"
  shows "dll (list_append l node s) l (xs @ [node]) \<and> dll (list_append l node s) k zs \<and>
         (\<exists>n p. list_append l node s = s\<lparr>node_next := n, node_prev := p\<rparr>)"
  using kl.append_rep [OF assms(1,2)] kl.append_frame [OF assms(1,3,4)]
  by (auto simp: list_append_def list_insert_before_eq)

theorem list_append_at_end_witness:
  "dll (list_append 0x500 0x800 demo_list) 0x500 ([0x600, 0x700] @ [0x800]) \<and>
   dll (list_append 0x500 0x800 demo_list) 0x900 [] \<and>
   (\<exists>n p. list_append 0x500 0x800 demo_list = demo_list\<lparr>node_next := n, node_prev := p\<rparr>)"
  by (rule list_append_at_end [OF demo_list_dll _ demo_list_other]) (simp_all add: span_def)

text \<open>C26: \<open>list_remove\<close> takes a node out of the list from any position, keeping the order of the
  others and every disjoint list; \<open>list_pop\<close> does so with the first node and returns it.\<close>

theorem list_remove_anywhere:
  assumes "dll s l (xs @ node # ys)" and "dll s k zs" and "foot l (xs @ ys) \<inter> foot k zs = {}"
  shows "dll (list_remove node s) l (xs @ ys) \<and> dll (list_remove node s) k zs \<and>
         list_pop l s = (hd (xs @ [node]), list_remove (hd (xs @ [node])) s)"
proof (intro conjI)
  show "dll (list_remove node s) l (xs @ ys)"
    using assms(1) by (rule kl.remove_rep)
  show "dll (list_remove node s) k zs"
    using assms by (rule list_remove_frame)
  show "list_pop l s = (hd (xs @ [node]), list_remove (hd (xs @ [node])) s)"
    using dll_first [OF assms(1)] by (cases xs) (simp_all add: list_pop_def)
qed

theorem list_remove_anywhere_witness:
  "dll (list_remove 0x700 demo_list) 0x500 ([0x600] @ []) \<and> dll (list_remove 0x700 demo_list) 0x900 [] \<and>
   list_pop 0x500 demo_list = (hd ([0x600] @ [0x700]), list_remove (hd ([0x600] @ [0x700])) demo_list)"
  by (rule list_remove_anywhere [OF _ demo_list_other]) (use demo_list_dll in \<open>simp_all add: span_def\<close>)

text \<open>C27: on a well-formed list the loops of \<open>node_find\<close>, \<open>list_len\<close> and \<open>list_empty\<close> end:
  \<open>node_find\<close> decides membership, \<open>list_len\<close> counts the nodes and \<open>list_empty\<close> tells whether
  there are none.\<close>

theorem list_queries:
  assumes "dll s l xs"
  shows "node_find l x s = Ok (x \<in> set xs) s \<and> list_len l s = Ok (of_nat (length xs)) s \<and>
         (list_empty l s \<longleftrightarrow> xs = [])"
  using assms by (simp add: node_find_dll list_len_dll list_empty_dll)

theorem list_queries_witness:
  "node_find 0x500 0x700 demo_list = Ok (0x700 \<in> set [0x600, 0x700 :: u32]) demo_list \<and>
   list_len 0x500 demo_list = Ok (of_nat (length [0x600, 0x700 :: u32])) demo_list \<and>
   (list_empty 0x500 demo_list \<longleftrightarrow> [0x600, 0x700 :: u32] = [])"
  by (rule list_queries [OF demo_list_dll])

end
