(* ===== verification/Interrupt.thy ===== *)
theory Interrupt
  imports Machine
begin

text \<open>
  The tables of \<open>kernel/interrupt.c\<close>: the interrupt descriptor table, the handler table and the
  exception names, their initialisation, the programming of the two 8259A controllers, and the
  default handler. A function pointer is its 32-bit address; the addresses the linker and
  \<open>kernel/kernel.S\<close> give (the entry stubs, the system-call entry, the table itself) are
  arguments. The arrays are functions from the index to the cell.

  The lemmas show that a gate descriptor holds the whole handler address, which gate ends up with
  which handler and privilege, and which vectors the default handler survives.
\<close>

section \<open>Descriptors and tables\<close>

record gate_desc =
  func_offset_low_word :: u16
  selector :: u16
  dcount :: u8
  attribute :: u8
  func_offset_high_word :: u16

record icu = machine +
  idt :: "nat \<Rightarrow> gate_desc"
  idtr :: u64
  intr_name :: "nat \<Rightarrow> string"
  handlers :: "nat \<Rightarrow> u32"

definition IDT_DESC_CNT :: nat where "IDT_DESC_CNT = 0x81"

definition SELECTOR_K_CODE :: u16 where "SELECTOR_K_CODE = push_bit 3 1 + push_bit 2 0 + 0"
definition IDT_DESC_ATTR_DPL0 :: u8 where "IDT_DESC_ATTR_DPL0 = push_bit 7 1 + push_bit 5 0 + 0xE"
definition IDT_DESC_ATTR_DPL3 :: u8 where "IDT_DESC_ATTR_DPL3 = push_bit 7 1 + push_bit 5 3 + 0xE"

definition PIC_M_CTRL :: u16 where "PIC_M_CTRL = 0x20"
definition PIC_M_DATA :: u16 where "PIC_M_DATA = 0x21"
definition PIC_S_CTRL :: u16 where "PIC_S_CTRL = 0xa0"
definition PIC_S_DATA :: u16 where "PIC_S_DATA = 0xa1"

section \<open>Routines\<close>

definition init_idt_desc :: "u8 \<Rightarrow> u32 \<Rightarrow> gate_desc" where
  "init_idt_desc attr function_ptr =
     \<lparr>func_offset_low_word = ucast (function_ptr AND 0x0000FFFF),
      selector = SELECTOR_K_CODE,
      dcount = 0,
      attribute = attr,
      func_offset_high_word = ucast (drop_bit 16 (function_ptr AND 0xFFFF0000))\<rparr>"

definition init_idt :: "(nat \<Rightarrow> u32) \<Rightarrow> u32 \<Rightarrow> 'e icu_scheme \<Rightarrow> 'e icu_scheme" where
  "init_idt intr_entry_table syscall_handler s =
     (let lastindex = IDT_DESC_CNT - 1;
          t = fold (\<lambda>i t. t(i := init_idt_desc IDT_DESC_ATTR_DPL0 (intr_entry_table i)))
                [0..<IDT_DESC_CNT] (idt s);
          t = t(lastindex := init_idt_desc IDT_DESC_ATTR_DPL3 syscall_handler)
      in put_str (ln ''idt _desc_init done'') (s\<lparr>idt := t\<rparr>))"

definition init_pic :: "'e machine_scheme \<Rightarrow> 'e machine_scheme" where
  "init_pic s =
     (let s = outb PIC_M_CTRL 0x11 s;
          s = outb PIC_M_DATA 0x20 s;
          s = outb PIC_M_DATA 0x04 s;
          s = outb PIC_M_DATA 0x01 s;
          s = outb PIC_S_CTRL 0x11 s;
          s = outb PIC_S_DATA 0x28 s;
          s = outb PIC_S_DATA 0x02 s;
          s = outb PIC_S_DATA 0x01 s;
          s = outb PIC_M_DATA 0xfc s;
          s = outb PIC_S_DATA 0xFF s
      in put_str (ln ''init pic done'') s)"

text \<open>The value of the register \<open>cr2\<close> is an argument; the processor sets it on a page fault.\<close>

definition general_intr_handler ::
    "u32 \<Rightarrow> u8 \<Rightarrow> 'e icu_scheme \<Rightarrow> (unit, 'e icu_scheme) res" where
  "general_intr_handler cr2 vec_index s =
     (if vec_index = 0x27 \<or> vec_index = 0x2f then Ok () s
      else
        let s = set_cursor 0 s;
            s = ((put_char 0x20) ^^ 320) s;
            s = set_cursor 0 s;
            s = put_str (ln ''!!! exception message begin !!!'') s;
            s = set_cursor 88 s;
            s = put_str (intr_name s (unat vec_index)) s;
            s = (if vec_index = 14
                 then put_int cr2 (put_str ([CHR 0x0A] @ ''page fault addr is 0x'') s) else s);
            s = put_str ([CHR 0x0A] @ ln ''!!! exception message end !!!'') s
        in Halt s)"

definition exception_names :: "(nat \<times> string) list" where
  "exception_names =
     [(0, ''#DE Divide Error''), (1, ''#DB Debug Exception''), (2, ''NMI Interrupt''),
      (3, ''#BP Breakpoint Exception''), (4, ''#OF Overflow Exception''),
      (5, ''#BR BOUND Range Exceeded Exception''), (6, ''#UD Invalid Opcode Exception''),
      (7, ''#NM Device Not Available Exception''), (8, ''#DF Double Fault Exception''),
      (9, ''Coprocessor Segment Overrun''), (10, ''#TS Invalid TSS Exception''),
      (11, ''#NP Segment Not Present''), (12, ''#SS Stack Fault Exception''),
      (13, ''#GP General Protection Exception''), (14, ''#PF Page-Fault Exception''),
      (16, ''#MF x87 FPU Floating-Point Error''), (17, ''#AC Alignment Check Exception''),
      (18, ''#MC Machine-Check Exception''), (19, ''#XF SIMD Floating-Point Exception''),
      (32, ''timer interrupt'')]"

definition init_exception :: "u32 \<Rightarrow> 'e icu_scheme \<Rightarrow> 'e icu_scheme" where
  "init_exception general s =
     (let s = fold (\<lambda>i s. s\<lparr>handlers := (handlers s)(i := general),
                           intr_name := (intr_name s)(i := ''unknown'')\<rparr>) [0..<IDT_DESC_CNT] s
      in fold (\<lambda>(i, nm) s. s\<lparr>intr_name := (intr_name s)(i := nm)\<rparr>) exception_names s)"

definition register_handler :: "u8 \<Rightarrow> u32 \<Rightarrow> 'e icu_scheme \<Rightarrow> 'e icu_scheme" where
  "register_handler intr_num function_ptr s = s\<lparr>handlers := (handlers s)(unat intr_num := function_ptr)\<rparr>"

definition init_intr ::
    "(nat \<Rightarrow> u32) \<Rightarrow> u32 \<Rightarrow> u32 \<Rightarrow> u32 \<Rightarrow> 'e icu_scheme \<Rightarrow> 'e icu_scheme" where
  "init_intr intr_entry_table syscall_handler general idt_addr s =
     (let s = put_str (ln ''interrupt start'') s;
          s = init_idt intr_entry_table syscall_handler s;
          s = init_exception general s;
          s = init_pic s;
          idt_ptr = push_bit 16 (ucast idt_addr) OR (of_nat (IDT_DESC_CNT * 8) - 1);
          s = s\<lparr>idtr := idt_ptr\<rparr>
      in put_str (ln ''interrupt init done'') s)"

section \<open>Lemmas\<close>

text \<open>The address the processor jumps to through a gate.\<close>

definition gate_target :: "gate_desc \<Rightarrow> u32" where
  "gate_target g = ucast (func_offset_low_word g) OR push_bit 16 (ucast (func_offset_high_word g))"

lemma bit_halves: "bit (0xFFFF :: u32) n \<longleftrightarrow> n < 16" "bit (0xFFFF0000 :: u32) n \<longleftrightarrow> 16 \<le> n \<and> n < 32"
proof -
  have "(0xFFFF :: u32) = mask 16" by (simp add: mask_eq_exp_minus_1)
  then show "bit (0xFFFF :: u32) n \<longleftrightarrow> n < 16" by (simp only: bit_mask_iff) auto
  have "(0xFFFF0000 :: u32) = NOT (mask 16)" by (simp add: mask_eq_exp_minus_1)
  then show "bit (0xFFFF0000 :: u32) n \<longleftrightarrow> 16 \<le> n \<and> n < 32"
    by (simp only: bit_not_iff bit_mask_iff) auto
qed

lemma gate_target_init: "gate_target (init_idt_desc attr f) = f"
proof (rule bit_word_eqI)
  fix n assume "n < LENGTH(32)"
  then have "n < 32" by simp
  then show "bit (gate_target (init_idt_desc attr f)) n = bit f n"
    unfolding gate_target_def init_idt_desc_def gate_desc.simps
    by (simp only: bit_or_iff bit_ucast_iff bit_and_iff bit_push_bit_iff bit_drop_bit_eq comp_apply bit_halves
        possible_bit_word) auto
qed

lemma fold_fun_upd:
  "fold (\<lambda>i t. t(i := g i)) [0..<n] f = (\<lambda>i. if i < n then g i else f i)"
  by (induction n) (auto simp: fun_eq_iff)

lemma idt_init_idt:
  "idt (init_idt entries sys s) =
     (\<lambda>i. if i = 0x80 then init_idt_desc IDT_DESC_ATTR_DPL3 sys
          else if i < 0x80 then init_idt_desc IDT_DESC_ATTR_DPL0 (entries i) else idt s i)"
  by (auto simp: init_idt_def fold_fun_upd IDT_DESC_CNT_def put_str_def Let_def fun_eq_iff)

lemma exceptions_loop:
  "fold (\<lambda>i s. s\<lparr>handlers := (handlers s)(i := g), intr_name := (intr_name s)(i := u)\<rparr>) [0..<n] s =
     s\<lparr>handlers := \<lambda>i. if i < n then g else handlers s i,
       intr_name := \<lambda>i. if i < n then u else intr_name s i\<rparr>"
  by (induction n) (auto simp: fun_eq_iff intro!: arg_cong2 [where f = "\<lambda>h n. s\<lparr>handlers := h, intr_name := n\<rparr>"])

lemma handlers_names_loop: "handlers (fold (\<lambda>(i, nm) s. s\<lparr>intr_name := (intr_name s)(i := nm)\<rparr>) xs s) = handlers s"
  by (induction xs arbitrary: s) auto

lemma handlers_init_exception:
  "handlers (init_exception g s) = (\<lambda>i. if i < IDT_DESC_CNT then g else handlers s i)"
  by (simp add: init_exception_def handlers_names_loop exceptions_loop Let_def)

text \<open>The names of the processor's exceptions in the order of their vectors.\<close>

definition vector_names :: "string list" where
  "vector_names =
     [''#DE Divide Error'', ''#DB Debug Exception'', ''NMI Interrupt'', ''#BP Breakpoint Exception'',
      ''#OF Overflow Exception'', ''#BR BOUND Range Exceeded Exception'', ''#UD Invalid Opcode Exception'',
      ''#NM Device Not Available Exception'', ''#DF Double Fault Exception'', ''Coprocessor Segment Overrun'',
      ''#TS Invalid TSS Exception'', ''#NP Segment Not Present'', ''#SS Stack Fault Exception'',
      ''#GP General Protection Exception'', ''#PF Page-Fault Exception'', ''unknown'',
      ''#MF x87 FPU Floating-Point Error'', ''#AC Alignment Check Exception'', ''#MC Machine-Check Exception'',
      ''#XF SIMD Floating-Point Exception'']"

lemma names_loop:
  "intr_name (fold (\<lambda>(i, nm) s. s\<lparr>intr_name := (intr_name s)(i := nm)\<rparr>) xs s) =
     fold (\<lambda>(i, nm) f. f(i := nm)) xs (intr_name s)"
  by (induction xs arbitrary: s) auto

lemma vectors_below_20: "i < 20 \<Longrightarrow> i \<in> {0, 1, 2, 3, 4, 5, 6, 7, 8, 9, 10, 11, 12, 13, 14, 15, 16, 17, 18, 19 :: nat}"
  by (simp add: less_Suc_eq numeral_eq_Suc)

lemma names_init_exception:
  assumes "i < IDT_DESC_CNT"
  shows "intr_name (init_exception g s) i =
    (if i < 20 then vector_names ! i else if i = 32 then ''timer interrupt'' else ''unknown'')"
proof -
  have e: "intr_name (init_exception g s) =
      fold (\<lambda>(i, nm) f. f(i := nm)) exception_names (\<lambda>i. if i < IDT_DESC_CNT then ''unknown'' else intr_name s i)"
    by (simp add: init_exception_def exceptions_loop names_loop Let_def)
  show ?thesis
  proof (cases "i < 20")
    case True
    from vectors_below_20 [OF this] show ?thesis
      unfolding e by (elim insertE emptyE) (simp_all add: exception_names_def vector_names_def IDT_DESC_CNT_def)
  next
    case False
    then have "\<forall>j\<in>set [0..<20]. i \<noteq> j" by auto
    then show ?thesis unfolding e using assms False by (simp add: exception_names_def)
  qed
qed

lemma put_chars_frame: "intr_name (((put_char c) ^^ n) s) = intr_name s"
  by (induction n) (simp_all add: put_char_def)

section \<open>Properties\<close>

text \<open>C36: after \<open>init_intr\<close> every gate below \<open>0x80\<close> leads to its entry stub with privilege 0, gate
  \<open>0x80\<close> leads to the system-call entry and may be used from privilege 3, all with the kernel code
  selector, every handler is the default handler, the first twenty vectors have the names of the
  processor's exceptions, vector 32 that of the timer and the others \<open>unknown\<close>, and the table register
  holds the table's address and its size less one.\<close>

theorem init_intr_tables:
  assumes "i < 0x80" and t_def: "t = init_intr entries sys general base s"
  shows "gate_target (idt t i) = entries i \<and> attribute (idt t i) = 0x8E \<and> selector (idt t i) = 8 \<and>
         gate_target (idt t 0x80) = sys \<and> attribute (idt t 0x80) = 0xEE \<and> selector (idt t 0x80) = 8 \<and>
         handlers t i = general \<and> handlers t 0x80 = general \<and>
         intr_name t i = (if i < 20 then vector_names ! i else if i = 32 then ''timer interrupt'' else ''unknown'') \<and>
         intr_name t 0x80 = ''unknown'' \<and>
         idtr t = push_bit 16 (ucast base) OR 0x407"
proof -
  have idt: "idt t = idt (init_idt entries sys (put_str (ln ''interrupt start'') s))"
  proof -
    have "idt (fold (\<lambda>(i, nm) s. s\<lparr>intr_name := (intr_name s)(i := nm)\<rparr>) xs v) = idt v" for xs and v :: "'a icu_scheme"
      by (induction xs arbitrary: v) auto
    then show ?thesis
      by (simp add: t_def init_intr_def init_exception_def exceptions_loop init_pic_def put_str_def outb_def Let_def)
  qed
  have "handlers t = handlers (init_exception general (init_idt entries sys (put_str (ln ''interrupt start'') s)))"
    by (simp add: t_def init_intr_def init_pic_def put_str_def outb_def Let_def)
  then have "handlers t i = general" "handlers t 0x80 = general"
    using assms(1) by (simp_all add: handlers_init_exception IDT_DESC_CNT_def)
  moreover have "intr_name t = intr_name (init_exception general (init_idt entries sys (put_str (ln ''interrupt start'') s)))"
    by (simp add: t_def init_intr_def init_pic_def put_str_def outb_def Let_def)
  then have "intr_name t i = (if i < 20 then vector_names ! i else if i = 32 then ''timer interrupt'' else ''unknown'')"
      "intr_name t 0x80 = ''unknown''"
    using assms(1) by (simp_all add: names_init_exception IDT_DESC_CNT_def)
  moreover have "idtr t = push_bit 16 (ucast base) OR 0x407"
    by (simp add: t_def init_intr_def IDT_DESC_CNT_def put_str_def Let_def)
  moreover have "attribute (init_idt_desc a f) = a" "selector (init_idt_desc a f) = 8" for a f
    by (simp_all add: init_idt_desc_def SELECTOR_K_CODE_def)
  ultimately show ?thesis
    using assms(1) by (simp add: idt idt_init_idt gate_target_init IDT_DESC_ATTR_DPL0_def IDT_DESC_ATTR_DPL3_def)
qed

definition demo_icu :: icu where
  "demo_icu = machine.extend demo
     \<lparr>idt = \<lambda>_. init_idt_desc 0 0, idtr = 0, intr_name = \<lambda>_. [], handlers = \<lambda>_. 0\<rparr>"

theorem init_intr_tables_witness:
  "gate_target (idt (init_intr (\<lambda>i. of_nat i) 0xc0001234 0xc0005678 0xc0020000 demo_icu) 0x21) = of_nat 0x21 \<and>
   attribute (idt (init_intr (\<lambda>i. of_nat i) 0xc0001234 0xc0005678 0xc0020000 demo_icu) 0x80) = 0xEE \<and>
   intr_name (init_intr (\<lambda>i. of_nat i) 0xc0001234 0xc0005678 0xc0020000 demo_icu) 14 = ''#PF Page-Fault Exception''"
  using init_intr_tables [of "0x21" "init_intr (\<lambda>i. of_nat i) 0xc0001234 0xc0005678 0xc0020000 demo_icu"
      "\<lambda>i. of_nat i" "0xc0001234" "0xc0005678" "0xc0020000" demo_icu]
    init_intr_tables [of 14 "init_intr (\<lambda>i. of_nat i) 0xc0001234 0xc0005678 0xc0020000 demo_icu"
      "\<lambda>i. of_nat i" "0xc0001234" "0xc0005678" "0xc0020000" demo_icu] by (simp add: vector_names_def)

text \<open>The default handler returns for the two spurious vectors \<open>0x27\<close> and \<open>0x2f\<close>, leaving the
  machine as it was, and for every other vector it never returns.\<close>

theorem general_intr_handler_returns:
  "(general_intr_handler cr2 vec s = Ok () s \<longleftrightarrow> vec = 0x27 \<or> vec = 0x2f) \<and>
   (halts (general_intr_handler cr2 vec s) \<longleftrightarrow> vec \<noteq> 0x27 \<and> vec \<noteq> 0x2f)"
  by (simp add: general_intr_handler_def Let_def)

end
