(* ===== verification/Paging.thy ===== *)
theory Paging
  imports Interrupt
begin

text \<open>
  Two-level paging. \<open>translate\<close> is the processor's walk from \<open>cr3\<close> over the page directory and
  the page table in physical memory; an access that it refuses raises exception 14, whose default
  handler never returns. The routines of \<open>kernel/memory.c\<close> find the entries of an address through
  the directory's last entry, which points to the directory itself: \<open>pde_ptr\<close>, \<open>pte_ptr\<close> and
  \<open>addr_v2p\<close>. A change of a table takes effect for \<open>translate\<close> at once; the translations the processor
  may have kept from before are not modelled.

  The lemmas show that, with such a self-mapped directory, dereferencing \<open>pde_ptr v\<close> and
  \<open>pte_ptr v\<close> through the paging unit reaches exactly the two entries the walk for \<open>v\<close> uses.
\<close>

section \<open>The paging unit\<close>

definition PDE_IDX :: "u32 \<Rightarrow> u32" where
  "PDE_IDX addr = drop_bit 22 (addr AND 0xffc00000)"

definition PTE_IDX :: "u32 \<Rightarrow> u32" where
  "PTE_IDX addr = drop_bit 12 (addr AND 0x003ff000)"

abbreviation (input) present :: "u32 \<Rightarrow> bool" where "present e \<equiv> e AND 1 \<noteq> 0"

definition pde_of :: "'e machine_scheme \<Rightarrow> u32 \<Rightarrow> u32" where
  "pde_of s v = phys s (cr3 s + PDE_IDX v * 4)"

definition pte_slot :: "'e machine_scheme \<Rightarrow> u32 \<Rightarrow> u32" where
  "pte_slot s v = page_of (pde_of s v) + PTE_IDX v * 4"

definition translate :: "'e machine_scheme \<Rightarrow> u32 \<Rightarrow> u32 option" where
  "translate s v =
     (if present (pde_of s v) \<and> present (phys s (pte_slot s v))
      then Some (page_of (phys s (pte_slot s v)) + (v AND 0xfff)) else None)"

definition page_fault :: "u32 \<Rightarrow> 'e icu_scheme \<Rightarrow> ('a, 'e icu_scheme) res" where
  "page_fault v s =
     (case general_intr_handler v 14 (cli s) of
        Ok _ s \<Rightarrow> Halt s | Halt s \<Rightarrow> Halt s | Blocked s \<Rightarrow> Blocked s | Diverge \<Rightarrow> Diverge)"

definition load_word :: "u32 \<Rightarrow> 'e icu_scheme \<Rightarrow> (u32, 'e icu_scheme) res" where
  "load_word v s = (case translate s v of None \<Rightarrow> page_fault v s | Some p \<Rightarrow> Ok (phys s p) s)"

definition store_word :: "u32 \<Rightarrow> u32 \<Rightarrow> 'e icu_scheme \<Rightarrow> (unit, 'e icu_scheme) res" where
  "store_word v x s =
     (case translate s v of None \<Rightarrow> page_fault v s
      | Some p \<Rightarrow> Ok () (s\<lparr>phys := (phys s)(p := x)\<rparr>))"

section \<open>Routines\<close>

definition pte_ptr :: "u32 \<Rightarrow> u32" where
  "pte_ptr vaddr = 0xffc00000 + drop_bit 10 (vaddr AND 0xffc00000) + PTE_IDX vaddr * 4"

definition pde_ptr :: "u32 \<Rightarrow> u32" where
  "pde_ptr vaddr = 0xfffff000 + PDE_IDX vaddr * 4"

definition addr_v2p :: "u32 \<Rightarrow> 'e icu_scheme \<Rightarrow> (u32, 'e icu_scheme) res" where
  "addr_v2p vaddr s =
     (let pte = pte_ptr vaddr in
      bind (load_word pte s) (\<lambda>e s. Ok ((e AND 0xfffff000) + (vaddr AND 0x00000fff)) s))"

definition PG_P_1 :: u32 where "PG_P_1 = 1"
definition PG_RW_W :: u32 where "PG_RW_W = 2"
definition PG_US_U :: u32 where "PG_US_U = 4"

section \<open>Indices\<close>

lemma unat_PDE_IDX: "unat (PDE_IDX v) = unat v div 2 ^ 22"
  unfolding PDE_IDX_def field_masks unat_drop_bit unat_and_not_mask by simp

lemma unat_PTE_IDX: "unat (PTE_IDX v) = unat v div 4096 mod 1024"
proof -
  have "PTE_IDX v = drop_bit 12 v AND mask 10"
    unfolding PTE_IDX_def field_masks by (rule bit_word_eqI) (auto simp: bit_simps)
  then show ?thesis by (simp only: unat_and_mask unat_drop_bit) simp
qed

lemma PDE_IDX_bound: "unat (PDE_IDX v) < 1024"
  using u32_bound [of v] by (simp add: unat_PDE_IDX)

lemma PTE_IDX_bound: "unat (PTE_IDX v) < 1024"
  by (simp add: unat_PTE_IDX)

lemma unat_idx4: "unat (PDE_IDX v * 4) = unat (PDE_IDX v) * 4" "unat (PTE_IDX v * 4) = unat (PTE_IDX v) * 4"
  using PDE_IDX_bound [of v] PTE_IDX_bound [of v] by (simp_all add: unat_mult_below)

lemma unat_pde_ptr: "unat (pde_ptr v) = 0xfffff000 + unat v div 2 ^ 22 * 4"
proof -
  have "unat (0xfffff000 :: u32) + unat (PDE_IDX v * 4) < 2 ^ LENGTH(32)"
    using PDE_IDX_bound [of v] by (simp add: unat_idx4)
  from unat_add_below [OF this] show ?thesis
    by (simp add: pde_ptr_def unat_idx4 unat_PDE_IDX)
qed

lemma unat_pte_ptr: "unat (pte_ptr v) = 0xffc00000 + unat v div 2 ^ 22 * 4096 + unat v div 4096 mod 1024 * 4"
proof -
  have d: "unat (drop_bit 10 (v AND 0xffc00000)) = unat v div 2 ^ 22 * 4096"
    unfolding field_masks unat_drop_bit unat_and_not_mask by simp
  have b: "unat v div 2 ^ 22 < 1024" using u32_bound [of v] by simp
  have s: "unat (0xffc00000 :: u32) + unat (drop_bit 10 (v AND 0xffc00000)) < 2 ^ LENGTH(32)"
    unfolding d using b by simp
  from unat_add_below [OF s]
  have e: "unat (0xffc00000 + drop_bit 10 (v AND 0xffc00000)) = 0xffc00000 + unat v div 2 ^ 22 * 4096"
    unfolding d by simp
  have "unat (0xffc00000 + drop_bit 10 (v AND 0xffc00000)) + unat (PTE_IDX v * 4) < 2 ^ LENGTH(32)"
    unfolding e using b PTE_IDX_bound [of v] by (simp add: unat_idx4)
  from unat_add_below [OF this] show ?thesis
    unfolding pte_ptr_def e unat_idx4 unat_PTE_IDX .
qed

lemma pde_ptr_idx: "PDE_IDX (pde_ptr v) = 1023" "PTE_IDX (pde_ptr v) = 1023"
  "pde_ptr v AND 0xfff = PDE_IDX v * 4"
proof -
  let ?i = "unat v div 2 ^ 22"
  have "?i < 1024" using u32_bound [of v] by simp
  then have r: "?i * 4 < 4096" by simp
  have "unat (pde_ptr v) = 4096 * (1024 * 1023 + 1023) + ?i * 4"
    by (simp add: unat_pde_ptr)
  note e = this div_mod_digit [OF r] div_mod_digit [of 1023 1024 1023]
  show "PTE_IDX (pde_ptr v) = 1023" "pde_ptr v AND 0xfff = PDE_IDX v * 4"
    unfolding word_unat_eq_iff unat_PTE_IDX low12 unat_idx4 unat_PDE_IDX e by simp_all
  show "PDE_IDX (pde_ptr v) = 1023"
    using \<open>?i < 1024\<close> by (simp add: word_unat_eq_iff unat_PDE_IDX unat_pde_ptr)
qed

lemma pte_ptr_idx: "PDE_IDX (pte_ptr v) = 1023" "PTE_IDX (pte_ptr v) = PDE_IDX v"
  "pte_ptr v AND 0xfff = PTE_IDX v * 4"
proof -
  let ?i = "unat v div 2 ^ 22" and ?j = "unat v div 4096 mod 1024"
  have i: "?i < 1024" using u32_bound [of v] by simp
  have "?j < 1024" by simp
  then have r: "?j * 4 < 4096" by simp
  have "unat (pte_ptr v) = 4096 * (1024 * 1023 + ?i) + ?j * 4"
    by (simp add: unat_pte_ptr)
  note e = this div_mod_digit [OF r] div_mod_digit [OF i]
  show "PTE_IDX (pte_ptr v) = PDE_IDX v" "pte_ptr v AND 0xfff = PTE_IDX v * 4"
    unfolding word_unat_eq_iff unat_PTE_IDX low12 unat_idx4 unat_PDE_IDX e by simp_all
  show "PDE_IDX (pte_ptr v) = 1023"
    using i r by (simp add: word_unat_eq_iff unat_PDE_IDX unat_pte_ptr)
qed

section \<open>The self-mapped directory\<close>

definition self_mapped :: "'e machine_scheme \<Rightarrow> bool" where
  "self_mapped s \<longleftrightarrow> page_aligned (cr3 s) \<and>
     present (phys s (cr3 s + 4092)) \<and> page_of (phys s (cr3 s + 4092)) = cr3 s"

lemma walk_last: "PDE_IDX a = 1023 \<Longrightarrow> self_mapped s \<Longrightarrow>
    present (pde_of s a) \<and> pte_slot s a = cr3 s + PTE_IDX a * 4"
  by (simp add: self_mapped_def pde_of_def pte_slot_def)

lemma translate_pde_ptr: "self_mapped s \<Longrightarrow> translate s (pde_ptr v) = Some (cr3 s + PDE_IDX v * 4)"
  using walk_last [OF pde_ptr_idx(1), of s v]
  by (simp add: translate_def pde_ptr_idx self_mapped_def)

lemma translate_pte_ptr:
  assumes "self_mapped s"
  shows "translate s (pte_ptr v) = (if present (pde_of s v) then Some (pte_slot s v) else None)"
proof -
  have "phys s (pte_slot s (pte_ptr v)) = pde_of s v"
    using walk_last [OF pte_ptr_idx(1) assms, of v] by (simp add: pte_ptr_idx pde_of_def)
  then show ?thesis
    using walk_last [OF pte_ptr_idx(1) assms, of v]
    by (auto simp: translate_def pte_ptr_idx pte_slot_def [of s v])
qed

lemma load_pde: "self_mapped s \<Longrightarrow> load_word (pde_ptr v) s = Ok (pde_of s v) s"
  by (simp add: load_word_def translate_pde_ptr pde_of_def)

lemma load_pte: "self_mapped s \<Longrightarrow> present (pde_of s v) \<Longrightarrow> load_word (pte_ptr v) s = Ok (phys s (pte_slot s v)) s"
  by (simp add: load_word_def translate_pte_ptr)

lemma page_fault_halts [simp]: "halts (page_fault v s)"
  by (simp add: page_fault_def general_intr_handler_def Let_def)

lemma addr_v2p_maps:
  assumes "self_mapped s" and "translate s v = Some p"
  shows "addr_v2p v s = Ok p s"
proof -
  have "present (pde_of s v)" and p: "p = page_of (phys s (pte_slot s v)) + (v AND 0xfff)"
    using assms(2) by (simp_all add: translate_def split: if_splits)
  then show ?thesis
    using load_pte [OF assms(1)] by (simp add: addr_v2p_def page_of_def Let_def)
qed

section \<open>Properties\<close>

text \<open>C37: with a directory whose last entry points to itself, the virtual addresses \<open>pde_ptr v\<close> and
  \<open>pte_ptr v\<close> are translated by the paging unit to the physical addresses of exactly the directory
  entry and the table entry that the walk for \<open>v\<close> reads; \<open>pte_ptr v\<close> is mapped just when \<open>v\<close> has
  a page table.\<close>

theorem recursive_mapping:
  assumes "self_mapped s"
  shows "translate s (pde_ptr v) = Some (cr3 s + PDE_IDX v * 4) \<and>
         translate s (pte_ptr v) =
           (if pde_of s v AND 1 \<noteq> 0 then Some (page_of (pde_of s v) + PTE_IDX v * 4) else None)"
  using translate_pde_ptr [OF assms] translate_pte_ptr [OF assms] by (simp add: pte_slot_def)

definition demo_paged :: icu where
  "demo_paged = demo_icu\<lparr>phys := (\<lambda>_. 0)(0x100ffc := 0x100007, 0x100c00 := 0x101007, 0x101004 := 0x5007)\<rparr>"

lemma demo_paged_self_mapped: "self_mapped demo_paged"
  by (simp add: self_mapped_def demo_paged_def demo_icu_def demo_def machine.defs page_aligned_def page_of_def)

theorem recursive_mapping_witness:
  "translate demo_paged (pde_ptr 0xc0001234) = Some (cr3 demo_paged + PDE_IDX 0xc0001234 * 4) \<and>
   translate demo_paged (pte_ptr 0xc0001234) =
     (if pde_of demo_paged 0xc0001234 AND 1 \<noteq> 0
      then Some (page_of (pde_of demo_paged 0xc0001234) + PTE_IDX 0xc0001234 * 4) else None)"
  by (rule recursive_mapping [OF demo_paged_self_mapped])

text \<open>\<open>addr_v2p\<close> returns the physical address the paging unit gives for every mapped address, and
  leaves the machine as it was.\<close>

theorem addr_v2p_translates:
  assumes "self_mapped s" and "translate s v = Some p"
  shows "addr_v2p v s = Ok p s"
  using assms by (rule addr_v2p_maps)

theorem addr_v2p_translates_witness: "addr_v2p 0xc0001234 demo_paged = Ok 0x5234 demo_paged"
  by (rule addr_v2p_translates [OF demo_paged_self_mapped])
    (simp add: translate_def pde_of_def pte_slot_def demo_paged_def demo_icu_def demo_def machine.defs
      page_of_def PDE_IDX_def PTE_IDX_def)

end
