(* ===== verification/Kernel.thy ===== *)
theory Kernel
  imports Bitmap Klist Paging
begin

text \<open>
  The kernel's data: the structures of \<open>thread/thread.h\<close>, \<open>thread/sync.h\<close>, \<open>kernel/memory.h\<close> and
  \<open>userprog/tss.h\<close>, and the record \<open>kernel\<close> that holds every global object the routines share.

  An object reached through a pointer is found by its address: the task structures (\<open>tasks\<close>), the
  semaphore counters, the lock fields, the block descriptors and the arena headers are maps from
  addresses, and so are the two stack frames the code lays out by hand. A sub-object has the address of its field: a task's \<open>general_tag\<close> is at offset 36 and
  its \<open>all_list_tag\<close> at 44 (the layout of \<open>struct task_struct\<close> for a 32-bit target), a lock's
  semaphore at 4, a semaphore's waiter list at 4, a descriptor's free list at 8. The addresses the
  linker gives to the global objects are the field \<open>addr_of\<close>.
\<close>

section \<open>Structures\<close>

datatype task_status =
  TASK_RUNNING | TASK_READY | TASK_BLOCKED | TASK_WAITING | TASK_HANGING | TASK_DIED

datatype pool_flags = PF_KERNEL | PF_USER

record virtual_addr_pool =
  vaddr_bitmap :: bitmap
  vaddr_start :: u32

record mem_pool =
  mem_pool_bitmap :: bitmap
  phy_addr_start :: u32
  pool_size :: u32

record task_struct =
  self_kstack :: u32
  pid :: u16
  status :: task_status
  priority :: u8
  ticks :: u8
  elapsed_ticks :: u32
  pgdir :: u32
  userprog_vaddr_pool :: virtual_addr_pool
  stack_magic :: u32

record arena =
  arena_desc :: u32
  arena_cnt :: u32
  arena_large :: u8

record thread_stack =
  ts_ebp :: u32
  ts_ebx :: u32
  ts_edi :: u32
  ts_esi :: u32
  ts_eip :: u32
  ts_unused_rtnaddr :: u32
  ts_function :: u32
  ts_func_args :: u32

record intr_stack =
  is_vec_no :: u32
  is_edi :: u32
  is_esi :: u32
  is_ebp :: u32
  is_esp_dummy :: u32
  is_ebx :: u32
  is_edx :: u32
  is_ecx :: u32
  is_eax :: u32
  is_gs :: u32
  is_fs :: u32
  is_es :: u32
  is_ds :: u32
  is_err_code :: u32
  is_eip :: u32
  is_cs :: u32
  is_eflags :: u32
  is_esp :: u32
  is_ss :: u32

record tss =
  tss_backlink :: u32
  tss_esp0 :: u32
  tss_ss0 :: u32
  tss_esp1 :: u32
  tss_ss1 :: u32
  tss_esp2 :: u32
  tss_ss2 :: u32
  tss_cr3 :: u32
  tss_eip :: u32
  tss_eflags :: u32
  tss_eax :: u32
  tss_ecx :: u32
  tss_edx :: u32
  tss_ebx :: u32
  tss_esp :: u32
  tss_ebp :: u32
  tss_esi :: u32
  tss_edi :: u32
  tss_es :: u32
  tss_cs :: u32
  tss_ss :: u32
  tss_ds :: u32
  tss_fs :: u32
  tss_gs :: u32
  tss_ldt :: u32
  tss_trace :: u32
  tss_io_base :: u32

record gdt_desc =
  limit_low_word :: u16
  base_low_word :: u16
  base_mid_byte :: u8
  attr_low_byte :: u8
  limit_high_attr_high :: u8
  base_high_byte :: u8

text \<open>The callee-saved registers, which \<open>switch_to\<close> saves and restores.\<close>

record regs =
  r_ebp :: u32
  r_ebx :: u32
  r_edi :: u32
  r_esi :: u32

text \<open>The global objects and code labels whose addresses the linker assigns. \<open>After_switch\<close> is the
  instruction after the call of \<open>switch_to\<close> in \<open>schedule\<close>, and \<open>Literal str\<close> the
  string literal with the text \<open>str\<close>.\<close>

datatype global_obj =
    Thread_ready_list | Thread_all_list | Pid_lock | Kernel_pool_lock | User_pool_lock
  | Console_lock | K_block_descs | Keyboard_buf | Tss_obj
  | Kernel_thread | Start_process | Intr_exit | After_switch
  | Literal string | Idt_obj | General_intr_handler | Syscall_handler | Intr_timer_handler | Intr_keyboard_handler
  | Sys_getpid | Sys_write | Sys_malloc | Sys_free
  | K_thread_a | K_thread_b | U_prog_a | U_prog_b

text \<open>The enumeration \<open>task_status\<close> in the order of its values.\<close>

instantiation task_status :: enum
begin

definition "enum_task_status =
  [TASK_RUNNING, TASK_READY, TASK_BLOCKED, TASK_WAITING, TASK_HANGING, TASK_DIED]"

definition "enum_all_task_status P \<longleftrightarrow> list_all P
  [TASK_RUNNING, TASK_READY, TASK_BLOCKED, TASK_WAITING, TASK_HANGING, TASK_DIED]"

definition "enum_ex_task_status P \<longleftrightarrow> list_ex P
  [TASK_RUNNING, TASK_READY, TASK_BLOCKED, TASK_WAITING, TASK_HANGING, TASK_DIED]"

instance
proof
  have univ: "(UNIV :: task_status set) =
      {TASK_RUNNING, TASK_READY, TASK_BLOCKED, TASK_WAITING, TASK_HANGING, TASK_DIED}"
    by (auto intro: task_status.exhaust)
  show "(UNIV :: task_status set) = set Enum.enum"
    by (simp add: enum_task_status_def univ)
  show "distinct (Enum.enum :: task_status list)"
    by (simp add: enum_task_status_def)
  show "Enum.enum_all P \<longleftrightarrow> Ball (UNIV :: task_status set) P" for P
    by (simp add: enum_all_task_status_def univ)
  show "Enum.enum_ex P \<longleftrightarrow> Bex (UNIV :: task_status set) P" for P
    by (simp add: enum_ex_task_status_def univ)
qed

end

section \<open>The kernel state\<close>

record kernel = icu +
  addr_of :: "global_obj \<Rightarrow> u32"
  esp :: u32
  eip :: u32
  regs :: regs
  thread_stacks :: "u32 \<Rightarrow> thread_stack"
  intr_stacks :: "u32 \<Rightarrow> intr_stack"
  tss :: tss
  gdt :: "u32 \<Rightarrow> gdt_desc"
  gdtr :: u64
  tr :: u16
  tasks :: "u32 \<Rightarrow> task_struct"
  main_thread :: u32
  thread_tag :: u32
  next_pid :: u16
  sema_value :: "u32 \<Rightarrow> u8"
  lock_holder :: "u32 \<Rightarrow> u32"
  lock_repeat :: "u32 \<Rightarrow> u32"
  kernel_mem_pool :: mem_pool
  user_mem_pool :: mem_pool
  kernel_vaddr_pool :: virtual_addr_pool
  desc_block_size :: "u32 \<Rightarrow> u32"
  desc_blocks_per_arena :: "u32 \<Rightarrow> u32"
  arenas :: "u32 \<Rightarrow> arena"

abbreviation (input) thread_ready_list :: "'e kernel_scheme \<Rightarrow> u32" where
  "thread_ready_list s \<equiv> addr_of s Thread_ready_list"

abbreviation (input) thread_all_list :: "'e kernel_scheme \<Rightarrow> u32" where
  "thread_all_list s \<equiv> addr_of s Thread_all_list"

definition general_tag :: "u32 \<Rightarrow> u32" where "general_tag t = t + 36"
definition all_list_tag :: "u32 \<Rightarrow> u32" where "all_list_tag t = t + 44"

text \<open>\<open>elem2entry(struct task_struct, general_tag, tag)\<close>\<close>

definition task_of_tag :: "u32 \<Rightarrow> u32" where "task_of_tag tag = tag - 36"

definition upd_task ::
    "u32 \<Rightarrow> (task_struct \<Rightarrow> task_struct) \<Rightarrow> 'e kernel_scheme \<Rightarrow> 'e kernel_scheme" where
  "upd_task t f s = s\<lparr>tasks := (tasks s)(t := f (tasks s t))\<rparr>"

lemma task_of_general_tag [simp]: "task_of_tag (general_tag t) = t"
  by (simp add: task_of_tag_def general_tag_def)

lemma general_tag_inj [simp]: "general_tag a = general_tag b \<longleftrightarrow> a = b"
  by (simp add: general_tag_def)

lemma inj_general_tag: "inj_on general_tag A"
  by (simp add: inj_on_def)

section \<open>What the list routines and task updates leave alone\<close>

lemma list_ops_kernel [simp]:
  "addr_of (list_push l x s) = addr_of s" "addr_of (list_append l x s) = addr_of s"
  "addr_of (list_remove x s) = addr_of s" "addr_of (snd (list_pop l s)) = addr_of s"
  "esp (list_push l x s) = esp s" "esp (list_append l x s) = esp s"
  "esp (list_remove x s) = esp s" "esp (snd (list_pop l s)) = esp s"
  "tasks (list_push l x s) = tasks s" "tasks (list_append l x s) = tasks s"
  "tasks (list_remove x s) = tasks s" "tasks (snd (list_pop l s)) = tasks s"
  "sema_value (list_push l x s) = sema_value s" "sema_value (list_append l x s) = sema_value s"
  "sema_value (list_remove x s) = sema_value s" "sema_value (snd (list_pop l s)) = sema_value s"
  "lock_holder (list_push l x s) = lock_holder s" "lock_holder (list_append l x s) = lock_holder s"
  "lock_holder (list_remove x s) = lock_holder s" "lock_holder (snd (list_pop l s)) = lock_holder s"
  "lock_repeat (list_push l x s) = lock_repeat s" "lock_repeat (list_append l x s) = lock_repeat s"
  "lock_repeat (list_remove x s) = lock_repeat s" "lock_repeat (snd (list_pop l s)) = lock_repeat s"
  "screen (list_push l x s) = screen s" "screen (list_append l x s) = screen s"
  "screen (list_remove x s) = screen s" "screen (snd (list_pop l s)) = screen s"
  "kernel.more (list_push l x s) = kernel.more s" "kernel.more (list_append l x s) = kernel.more s"
  "kernel.more (list_remove x s) = kernel.more s" "kernel.more (snd (list_pop l s)) = kernel.more s"
  by (simp_all add: list_ops_upd)

lemma dll_fields [simp]:
  "dll (s\<lparr>tasks := x1\<rparr>) l xs = dll s l xs" "dll (s\<lparr>esp := x2\<rparr>) l xs = dll s l xs"
  "dll (s\<lparr>thread_tag := x3\<rparr>) l xs = dll s l xs" "dll (s\<lparr>cr3 := x4\<rparr>) l xs = dll s l xs"
  "dll (s\<lparr>tss := x5\<rparr>) l xs = dll s l xs" "dll (s\<lparr>sema_value := x6\<rparr>) l xs = dll s l xs"
  "dll (s\<lparr>lock_holder := x7\<rparr>) l xs = dll s l xs" "dll (s\<lparr>lock_repeat := x8\<rparr>) l xs = dll s l xs"
  "dll (s\<lparr>eflags := x9\<rparr>) l xs = dll s l xs" "dll (s\<lparr>next_pid := x10\<rparr>) l xs = dll s l xs"
  "dll (s\<lparr>screen := x11\<rparr>) l xs = dll s l xs"
  by (simp_all add: dll_def)

lemma dll_cli [simp]: "dll (cli s) l xs = dll s l xs"
  and dll_sti [simp]: "dll (sti s) l xs = dll s l xs"
  by (simp_all add: cli_def sti_def dll_def)

lemma cli_sti_fields [simp]:
  "tasks (cli s) = tasks s" "tasks (sti s) = tasks s" "esp (cli s) = esp s" "esp (sti s) = esp s"
  "addr_of (cli s) = addr_of s" "addr_of (sti s) = addr_of s" "sema_value (cli s) = sema_value s"
  "sema_value (sti s) = sema_value s" "lock_holder (cli s) = lock_holder s" "lock_holder (sti s) = lock_holder s"
  "lock_repeat (cli s) = lock_repeat s" "lock_repeat (sti s) = lock_repeat s"
  "mem (cli s) = mem s" "mem (sti s) = mem s" "phys (cli s) = phys s" "phys (sti s) = phys s"
  "cr3 (cli s) = cr3 s" "cr3 (sti s) = cr3 s" "screen (cli s) = screen s" "screen (sti s) = screen s"
  "kernel.more (cli s) = kernel.more s" "kernel.more (sti s) = kernel.more s"
  by (simp_all add: cli_def sti_def)

lemma upd_task_fields [simp]:
  "tasks (upd_task t f s) = (tasks s)(t := f (tasks s t))" "esp (upd_task t f s) = esp s"
  "addr_of (upd_task t f s) = addr_of s" "sema_value (upd_task t f s) = sema_value s"
  "lock_holder (upd_task t f s) = lock_holder s" "lock_repeat (upd_task t f s) = lock_repeat s"
  "dll (upd_task t f s) l xs = dll s l xs" "get_intr_status (upd_task t f s) = get_intr_status s"
  "list_empty l (upd_task t f s) = list_empty l s" "phys (upd_task t f s) = phys s"
  "cr3 (upd_task t f s) = cr3 s" "mem (upd_task t f s) = mem s" "eflags (upd_task t f s) = eflags s"
  "screen (upd_task t f s) = screen s" "kernel.more (upd_task t f s) = kernel.more s"
  by (simp_all add: upd_task_def get_intr_status_def list_empty_def)

lemma list_init_kernel [simp]:
  "addr_of (list_init l s) = addr_of s" "esp (list_init l s) = esp s" "tasks (list_init l s) = tasks s"
  "phys (list_init l s) = phys s" "cr3 (list_init l s) = cr3 s" "mem (list_init l s) = mem s"
  "sema_value (list_init l s) = sema_value s" "lock_holder (list_init l s) = lock_holder s"
  "lock_repeat (list_init l s) = lock_repeat s" "get_intr_status (list_init l s) = get_intr_status s"
  by (simp_all add: list_init_def set_prev_def set_next_def Let_def get_intr_status_def)

section \<open>A concrete kernel state\<close>

text \<open>
  A kernel with three tasks for examples: the main thread at \<open>0xc009e000\<close>, which runs, a kernel
  thread at \<open>0xc0100000\<close> and a user process at \<open>0xc0101000\<close> with its page directory at virtual
  address \<open>0xc0102000\<close>, physical \<open>0x202000\<close>. Both directories share the kernel's page table.
\<close>

definition zero_bitmap :: bitmap where "zero_bitmap = \<lparr>btmp_bytes_len = 0, bits = 0\<rparr>"

definition zero_vpool :: virtual_addr_pool where
  "zero_vpool = \<lparr>vaddr_bitmap = zero_bitmap, vaddr_start = 0\<rparr>"

definition zero_task :: task_struct where
  "zero_task = \<lparr>self_kstack = 0, pid = 0, status = TASK_RUNNING, priority = 0, ticks = 0,
     elapsed_ticks = 0, pgdir = 0, userprog_vaddr_pool = zero_vpool, stack_magic = 0\<rparr>"

definition zero_thread_stack :: thread_stack where
  "zero_thread_stack = \<lparr>ts_ebp = 0, ts_ebx = 0, ts_edi = 0, ts_esi = 0, ts_eip = 0,
     ts_unused_rtnaddr = 0, ts_function = 0, ts_func_args = 0\<rparr>"

definition zero_intr_stack :: intr_stack where
  "zero_intr_stack = \<lparr>is_vec_no = 0, is_edi = 0, is_esi = 0, is_ebp = 0, is_esp_dummy = 0, is_ebx = 0,
     is_edx = 0, is_ecx = 0, is_eax = 0, is_gs = 0, is_fs = 0, is_es = 0, is_ds = 0, is_err_code = 0,
     is_eip = 0, is_cs = 0, is_eflags = 0, is_esp = 0, is_ss = 0\<rparr>"

definition zero_tss :: tss where
  "zero_tss = \<lparr>tss_backlink = 0, tss_esp0 = 0, tss_ss0 = 0, tss_esp1 = 0, tss_ss1 = 0, tss_esp2 = 0,
     tss_ss2 = 0, tss_cr3 = 0, tss_eip = 0, tss_eflags = 0, tss_eax = 0, tss_ecx = 0, tss_edx = 0,
     tss_ebx = 0, tss_esp = 0, tss_ebp = 0, tss_esi = 0, tss_edi = 0, tss_es = 0, tss_cs = 0,
     tss_ss = 0, tss_ds = 0, tss_fs = 0, tss_gs = 0, tss_ldt = 0, tss_trace = 0, tss_io_base = 0\<rparr>"

fun demo_addr :: "global_obj \<Rightarrow> u32" where
  "demo_addr Thread_ready_list = 0xc0003000"
| "demo_addr Thread_all_list = 0xc0003010"
| "demo_addr Pid_lock = 0xc0003020"
| "demo_addr Kernel_pool_lock = 0xc0003040"
| "demo_addr User_pool_lock = 0xc0003060"
| "demo_addr Console_lock = 0xc0003080"
| "demo_addr K_block_descs = 0xc0003100"
| "demo_addr Keyboard_buf = 0xc0003200"
| "demo_addr Tss_obj = 0xc0003300"
| "demo_addr Kernel_thread = 0xc0001600"
| "demo_addr Start_process = 0xc0001700"
| "demo_addr Intr_exit = 0xc0001800"
| "demo_addr After_switch = 0xc0001900"
| "demo_addr (Literal str) = 0xc0004000"
| "demo_addr Idt_obj = 0xc0005000"
| "demo_addr General_intr_handler = 0xc0001a00"
| "demo_addr Syscall_handler = 0xc0001b00"
| "demo_addr Intr_timer_handler = 0xc0001c00"
| "demo_addr Intr_keyboard_handler = 0xc0001d00"
| "demo_addr Sys_getpid = 0xc0001e00"
| "demo_addr Sys_write = 0xc0001e40"
| "demo_addr Sys_malloc = 0xc0001e80"
| "demo_addr Sys_free = 0xc0001ec0"
| "demo_addr K_thread_a = 0xc0001f00"
| "demo_addr K_thread_b = 0xc0001f40"
| "demo_addr U_prog_a = 0xc0001f80"
| "demo_addr U_prog_b = 0xc0001fc0"

definition demo_tasks :: "u32 \<Rightarrow> task_struct" where
  "demo_tasks = (\<lambda>_. zero_task)
     (0xc009e000 := zero_task\<lparr>priority := 31, ticks := 31, stack_magic := 0x20030621\<rparr>,
      0xc0100000 := zero_task\<lparr>self_kstack := 0xc0100e50, status := TASK_READY, priority := 8, ticks := 8,
                              stack_magic := 0x20030621\<rparr>,
      0xc0101000 := zero_task\<lparr>self_kstack := 0xc0101e50, status := TASK_READY, priority := 31, ticks := 31,
                              pgdir := 0xc0102000, stack_magic := 0x20030621\<rparr>)"

definition demo_phys :: "u32 \<Rightarrow> u32" where
  "demo_phys = (\<lambda>_. 0)(0x100c00 := 0x101007, 0x100ffc := 0x100007, 0x101408 := 0x202007,
     0x202c00 := 0x101007, 0x202ffc := 0x202007)"

definition demo_pool :: "u32 \<Rightarrow> mem_pool" where
  "demo_pool a = \<lparr>mem_pool_bitmap = zero_bitmap, phy_addr_start = a, pool_size = 0\<rparr>"

definition demo_base :: kernel where
  "demo_base = icu.extend (demo_icu\<lparr>phys := demo_phys\<rparr>)
     \<lparr>addr_of = demo_addr, esp = 0xc009eff0, eip = 0xc0001500,
      regs = \<lparr>r_ebp = 1, r_ebx = 2, r_edi = 3, r_esi = 4\<rparr>,
      thread_stacks = \<lambda>_. zero_thread_stack, intr_stacks = \<lambda>_. zero_intr_stack, tss = zero_tss,
      gdt = \<lambda>_. \<lparr>limit_low_word = 0, base_low_word = 0, base_mid_byte = 0, attr_low_byte = 0,
                 limit_high_attr_high = 0, base_high_byte = 0\<rparr>,
      gdtr = 0, tr = 0, tasks = demo_tasks, main_thread = 0xc009e000, thread_tag = 0, next_pid = 3,
      sema_value = \<lambda>_. 0, lock_holder = \<lambda>_. 0, lock_repeat = \<lambda>_. 0,
      kernel_mem_pool = demo_pool 0x200000, user_mem_pool = demo_pool 0x1100000,
      kernel_vaddr_pool = zero_vpool, desc_block_size = \<lambda>_. 0, desc_blocks_per_arena = \<lambda>_. 0,
      arenas = \<lambda>_. \<lparr>arena_desc = 0, arena_cnt = 0, arena_large = 0\<rparr>\<rparr>"

lemma demo_base_fields [simp]:
  "addr_of demo_base = demo_addr" "esp demo_base = 0xc009eff0" "tasks demo_base = demo_tasks"
  "phys demo_base = demo_phys" "cr3 demo_base = 0x100000" "eflags demo_base = 0x202"
  "sema_value demo_base = (\<lambda>_. 0)" "lock_holder demo_base = (\<lambda>_. 0)" "lock_repeat demo_base = (\<lambda>_. 0)"
  by (simp_all add: demo_base_def demo_icu_def demo_def machine.defs icu.defs)

end
