(* ===== verification/Sched.thy ===== *)
theory Sched
  imports Kernel
begin

text \<open>
  The scheduler: \<open>running_thread\<close>, \<open>schedule\<close>, \<open>thread_block\<close> and \<open>thread_unblock\<close> of
  \<open>thread/thread.c\<close>, the context switch of \<open>thread/switch.S\<close> and the activation of the next
  task's address space (\<open>process_activate\<close>, \<open>page_dir_activate\<close> of \<open>userprog/process.c\<close>,
  \<open>update_tss_esp\<close> of \<open>userprog/tss.c\<close>).

  The running thread is found from the stack pointer, as in the code: its task structure starts the
  page the kernel stack lies in. The frames the compiler builds for C calls are not tracked;
  \<open>esp\<close> is a position in the running thread's stack page, and \<open>switch_to\<close> pushes the return
  address and the four callee-saved registers below it and leaves the processor with the frame of
  the next thread. \<open>schedule\<close> returning \<open>Ok\<close> therefore means: the thread \<open>running_thread\<close> of
  the new state runs at \<open>eip\<close>.

  \<open>sched_inv s T sp rs\<close> is the invariant: the ready list holds the threads \<open>rs\<close> in order, those are
  exactly the threads of \<open>T\<close> in state \<open>TASK_READY\<close>, and every thread that does not run has its
  saved stack in its own page. The lemmas show that \<open>schedule\<close> is a round robin on \<open>rs\<close>.
\<close>

section \<open>Routines\<close>

definition running_thread :: "'e kernel_scheme \<Rightarrow> u32" where
  "running_thread s = esp s AND 0xfffff000"

definition update_tss_esp :: "u32 \<Rightarrow> 'e kernel_scheme \<Rightarrow> 'e kernel_scheme" where
  "update_tss_esp pthread s = s\<lparr>tss := (tss s)\<lparr>tss_esp0 := pthread + PG_SIZE\<rparr>\<rparr>"

definition page_dir_activate :: "u32 \<Rightarrow> 'e kernel_scheme \<Rightarrow> (unit, 'e kernel_scheme) res" where
  "page_dir_activate pthread s =
     bind (if pgdir (tasks s pthread) \<noteq> NULL then addr_v2p (pgdir (tasks s pthread)) s
           else Ok 0x100000 s)
       (\<lambda>pagedir_phy_addr s. Ok () (s\<lparr>cr3 := pagedir_phy_addr\<rparr>))"

definition process_activate :: "u32 \<Rightarrow> 'e kernel_scheme \<Rightarrow> (unit, 'e kernel_scheme) res" where
  "process_activate pthread s =
     bind (ASSERT (pthread \<noteq> NULL)
             (''userprog/process.c'', 61, ''process_activate'', ''pthread != NULL'') s) (\<lambda>_ s.
     bind (page_dir_activate pthread s) (\<lambda>_ s.
     if pgdir (tasks s pthread) \<noteq> NULL then Ok () (update_tss_esp pthread s) else Ok () s))"

definition switch_to :: "u32 \<Rightarrow> u32 \<Rightarrow> 'e kernel_scheme \<Rightarrow> 'e kernel_scheme" where
  "switch_to cur nxt s =
     (let top = esp s - 20;
          s = s\<lparr>thread_stacks := (thread_stacks s)(top := (thread_stacks s top)
                  \<lparr>ts_ebp := r_ebp (regs s), ts_ebx := r_ebx (regs s), ts_edi := r_edi (regs s),
                   ts_esi := r_esi (regs s), ts_eip := addr_of s After_switch\<rparr>)\<rparr>;
          s = upd_task cur (\<lambda>t. t\<lparr>self_kstack := top\<rparr>) s;
          top = self_kstack (tasks s nxt);
          f = thread_stacks s top
      in s\<lparr>esp := top + 20,
           regs := \<lparr>r_ebp = ts_ebp f, r_ebx = ts_ebx f, r_edi = ts_edi f, r_esi = ts_esi f\<rparr>,
           eip := ts_eip f\<rparr>)"

text \<open>The second half of \<open>schedule\<close>: take the first ready thread and switch to it. The expression
  statement \<open>thread_tag == NULL\<close> of the code has no effect.\<close>

definition schedule_next :: "u32 \<Rightarrow> 'e kernel_scheme \<Rightarrow> (unit, 'e kernel_scheme) res" where
  "schedule_next cur s =
     bind (ASSERT (\<not> list_empty (thread_ready_list s) s)
             (''thread/thread.c'', 123, ''schedule'', ''!list_empty(&thread_ready_list)'') s) (\<lambda>_ s.
     let (tag, s) = list_pop (thread_ready_list s) s;
         s = s\<lparr>thread_tag := tag\<rparr>;
         nxt = task_of_tag (thread_tag s);
         s = upd_task nxt (\<lambda>t. t\<lparr>status := TASK_RUNNING\<rparr>) s
     in bind (process_activate nxt s) (\<lambda>_ s. Ok () (switch_to cur nxt s)))"

definition schedule :: "'e kernel_scheme \<Rightarrow> (unit, 'e kernel_scheme) res" where
  "schedule s =
     bind (ASSERT (get_intr_status s = INTR_OFF)
             (''thread/thread.c'', 109, ''schedule'', ''get_intr_status() == INTR_OFF'') s) (\<lambda>_ s.
     let cur = running_thread s in
     bind (if status (tasks s cur) = TASK_RUNNING
           then bind (node_find (thread_ready_list s) (general_tag cur) s) (\<lambda>found s.
                bind (ASSERT (\<not> found) (''thread/thread.c'', 114, ''schedule'',
                        ''!node_find(&thread_ready_list, &cur->general_tag)'') s) (\<lambda>_ s.
                let s = list_append (thread_ready_list s) (general_tag cur) s;
                    s = upd_task cur (\<lambda>t. t\<lparr>ticks := priority t\<rparr>) s;
                    s = upd_task cur (\<lambda>t. t\<lparr>status := TASK_READY\<rparr>) s
                in Ok () s))
           else Ok () s) (\<lambda>_ s.
     schedule_next cur s))"

definition may_block :: "task_status \<Rightarrow> bool" where
  "may_block stat \<longleftrightarrow> stat = TASK_BLOCKED \<or> stat = TASK_WAITING \<or> stat = TASK_HANGING"

definition thread_block :: "task_status \<Rightarrow> 'e kernel_scheme \<Rightarrow> (unit, 'e kernel_scheme) res" where
  "thread_block stat s =
     bind (ASSERT (may_block stat) (''thread/thread.c'', 148, ''thread_block'',
        ''(stat == TASK_BLOCKED) || (stat == TASK_WAITING) || (stat == TASK_HANGING)'') s) (\<lambda>_ s.
     let (old_status, s) = intr_disable s;
         cur_thread = running_thread s;
         s = upd_task cur_thread (\<lambda>t. t\<lparr>status := stat\<rparr>) s
     in bind (schedule s) (\<lambda>_ s. Blocked s))"

text \<open>What \<open>thread_block\<close> still does when the thread is scheduled again.\<close>

definition thread_block_resume :: "intr_status \<Rightarrow> 'e kernel_scheme \<Rightarrow> 'e kernel_scheme" where
  "thread_block_resume old_status s = snd (set_intr_status old_status s)"

definition thread_unblock :: "u32 \<Rightarrow> 'e kernel_scheme \<Rightarrow> (unit, 'e kernel_scheme) res" where
  "thread_unblock pthread s =
     (let (old_status, s) = intr_disable s in
      bind (ASSERT (may_block (status (tasks s pthread))) (''thread/thread.c'', 165, ''thread_unblock'',
        ''(pthread->status == TASK_BLOCKED) || (pthread->status == TASK_WAITING) || (pthread->status == TASK_HANGING)'')
        s) (\<lambda>_ s.
      bind (if status (tasks s pthread) \<noteq> TASK_READY
            then bind (node_find (thread_ready_list s) (general_tag pthread) s) (\<lambda>found s.
                 bind (ASSERT (\<not> found) (''thread/thread.c'', 168, ''thread_unblock'',
                         ''!node_find(&thread_ready_list, &pthread->general_tag)'') s) (\<lambda>_ s.
                 bind (node_find (thread_ready_list s) (general_tag pthread) s) (\<lambda>found s.
                 bind (if found
                       then PANIC (''thread/thread.c'', 171, ''thread_unblock'', ln ''thread is in ready_list'') s
                       else Ok () s) (\<lambda>_ s.
                 let s = list_push (thread_ready_list s) (general_tag pthread) s
                 in Ok () (upd_task pthread (\<lambda>t. t\<lparr>status := TASK_READY\<rparr>) s)))))
            else Ok () s) (\<lambda>_ s.
      Ok () (snd (set_intr_status old_status s)))))"

section \<open>Effects of the steps\<close>

lemma switch_to_tasks: "tasks (switch_to cur nxt s) = (tasks s)(cur := (tasks s cur)\<lparr>self_kstack := esp s - 20\<rparr>)"
  by (simp add: switch_to_def upd_task_def Let_def)

lemma switch_to_esp:
  "esp (switch_to cur nxt s) = (if nxt = cur then esp s else self_kstack (tasks s nxt) + 20)"
  by (simp add: switch_to_def upd_task_def Let_def)

lemma switch_to_fields [simp]:
  "eflags (switch_to c n s) = eflags s" "cr3 (switch_to c n s) = cr3 s" "phys (switch_to c n s) = phys s"
  "mem (switch_to c n s) = mem s" "addr_of (switch_to c n s) = addr_of s"
  "sema_value (switch_to c n s) = sema_value s" "lock_holder (switch_to c n s) = lock_holder s"
  "lock_repeat (switch_to c n s) = lock_repeat s" "dll (switch_to c n s) l xs = dll s l xs"
  "tss (switch_to c n s) = tss s" "thread_tag (switch_to c n s) = thread_tag s"
  "get_intr_status (switch_to c n s) = get_intr_status s" "screen (switch_to c n s) = screen s"
  "kernel.more (switch_to c n s) = kernel.more s"
  by (simp_all add: switch_to_def upd_task_def Let_def dll_def get_intr_status_def)

lemma running_thread_page: "running_thread s = page_of (esp s)"
  by (simp add: running_thread_def page_of_def)

lemma running_thread_cong: "esp s = esp t \<Longrightarrow> running_thread s = running_thread t"
  by (simp add: running_thread_def)

section \<open>The invariant\<close>

definition spaces :: "'e kernel_scheme \<Rightarrow> u32 set \<Rightarrow> (u32 \<Rightarrow> u32) \<Rightarrow> bool" where
  "spaces s T sp \<longleftrightarrow>
     (\<forall>t\<in>T. if pgdir (tasks s t) = NULL then sp t = 0x100000
            else \<forall>u\<in>T. self_mapped (s\<lparr>cr3 := sp u\<rparr>) \<and>
                        translate (s\<lparr>cr3 := sp u\<rparr>) (pgdir (tasks s t)) = Some (sp t))"

definition sched_inv :: "'e kernel_scheme \<Rightarrow> u32 set \<Rightarrow> (u32 \<Rightarrow> u32) \<Rightarrow> u32 list \<Rightarrow> bool" where
  "sched_inv s T sp rs \<longleftrightarrow>
     dll s (thread_ready_list s) (map general_tag rs) \<and>
     running_thread s \<in> T \<and> set rs \<subseteq> T - {running_thread s} \<and>
     (\<forall>t\<in>T. t \<noteq> NULL \<and> general_tag t \<notin> foot (thread_ready_list s) [] \<and>
             (status (tasks s t) = TASK_READY \<longleftrightarrow> t \<in> set rs)) \<and>
     (\<forall>t\<in>T - {running_thread s}. page_of (self_kstack (tasks s t) + 20) = t) \<and>
     cr3 s = sp (running_thread s) \<and> spaces s T sp"

lemma sched_invD:
  assumes "sched_inv s T sp rs"
  shows "dll s (thread_ready_list s) (map general_tag rs)"
    and "running_thread s \<in> T" and "set rs \<subseteq> T - {running_thread s}" and "cr3 s = sp (running_thread s)"
    and "spaces s T sp" and "distinct rs"
    and "\<And>t. t \<in> T \<Longrightarrow> t \<noteq> NULL" and "\<And>t. t \<in> T \<Longrightarrow> status (tasks s t) = TASK_READY \<longleftrightarrow> t \<in> set rs"
    and "\<And>t. t \<in> T \<Longrightarrow> t \<noteq> running_thread s \<Longrightarrow> page_of (self_kstack (tasks s t) + 20) = t"
    and "\<And>t. t \<in> T \<Longrightarrow> general_tag t \<notin> foot (thread_ready_list s) []"
  using assms dll_distinct [of s "thread_ready_list s" "map general_tag rs"]
  by (auto simp: sched_inv_def distinct_map)

lemma tag_outside:
  "general_tag t \<notin> foot l [] \<Longrightarrow> t \<notin> set rs \<Longrightarrow> general_tag t \<notin> foot l (map general_tag rs)"
  by (auto simp: span_def)

lemma spaces_cong:
  assumes "phys t = phys s" and "\<And>x. x \<in> T \<Longrightarrow> pgdir (tasks t x) = pgdir (tasks s x)"
  shows "spaces t T sp = spaces s T sp"
proof -
  have "translate (t\<lparr>cr3 := a\<rparr>) v = translate (s\<lparr>cr3 := a\<rparr>) v" for a v
    using assms(1) by (simp add: translate_def pde_of_def pte_slot_def)
  moreover have "self_mapped (t\<lparr>cr3 := a\<rparr>) = self_mapped (s\<lparr>cr3 := a\<rparr>)" for a
    using assms(1) by (simp add: self_mapped_def)
  ultimately show ?thesis using assms(2) by (simp add: spaces_def)
qed

lemma process_activate_ok:
  assumes "spaces s T sp" and "n \<in> T" and "n \<noteq> NULL" and "u \<in> T" and "cr3 s = sp u"
  shows "\<exists>ts. process_activate n s = Ok () (s\<lparr>cr3 := sp n, tss := ts\<rparr>) \<and>
    ts = (if pgdir (tasks s n) \<noteq> NULL then (tss s)\<lparr>tss_esp0 := n + PG_SIZE\<rparr> else tss s)"
proof (cases "pgdir (tasks s n) = NULL")
  case True
  then show ?thesis
    using assms by (auto simp: process_activate_def page_dir_activate_def spaces_def)
next
  case False
  have s: "s\<lparr>cr3 := sp u\<rparr> = s" using assms(5) by simp
  have "self_mapped s \<and> translate s (pgdir (tasks s n)) = Some (sp n)"
    using assms(1,2,4) False unfolding spaces_def by (metis s)
  then have "addr_v2p (pgdir (tasks s n)) s = Ok (sp n) s"
    by (intro addr_v2p_maps) auto
  then show ?thesis
    using assms(3) False by (simp add: process_activate_def page_dir_activate_def update_tss_esp_def)
qed

section \<open>Dispatching the first ready thread\<close>

text \<open>The state in which \<open>schedule\<close> calls \<open>switch_to\<close>.\<close>

definition dispatched :: "u32 \<Rightarrow> u32 \<Rightarrow> tss \<Rightarrow> 'e kernel_scheme \<Rightarrow> 'e kernel_scheme" where
  "dispatched n dir ts s =
     (upd_task n (\<lambda>t. t\<lparr>status := TASK_RUNNING\<rparr>)
       ((snd (list_pop (thread_ready_list s) s))\<lparr>thread_tag := general_tag n\<rparr>))\<lparr>cr3 := dir, tss := ts\<rparr>"

lemma dispatched_fields [simp]:
  "tasks (dispatched n d ts s) = (tasks s)(n := (tasks s n)\<lparr>status := TASK_RUNNING\<rparr>)"
  "esp (dispatched n d ts s) = esp s" "cr3 (dispatched n d ts s) = d" "phys (dispatched n d ts s) = phys s"
  "addr_of (dispatched n d ts s) = addr_of s" "sema_value (dispatched n d ts s) = sema_value s"
  "lock_holder (dispatched n d ts s) = lock_holder s" "lock_repeat (dispatched n d ts s) = lock_repeat s"
  "dll (dispatched n d ts s) l xs = dll (snd (list_pop (thread_ready_list s) s)) l xs"
  "get_intr_status (dispatched n d ts s) = get_intr_status s" "mem (dispatched n d ts s) = mem s"
  "screen (dispatched n d ts s) = screen s" "kernel.more (dispatched n d ts s) = kernel.more s"
  by (simp_all add: dispatched_def upd_task_def get_intr_status_def)

lemma schedule_next_ok:
  assumes l: "dll s (thread_ready_list s) (map general_tag (n # rs))"
    and sp: "spaces s T sp" "n \<in> T" "n \<noteq> NULL" "u \<in> T" "cr3 s = sp u"
  shows "\<exists>ts. schedule_next cur s = Ok () (switch_to cur n (dispatched n (sp n) ts s)) \<and>
    (pgdir (tasks s n) \<noteq> NULL \<longrightarrow> tss_esp0 ts = n + PG_SIZE)"
proof -
  let ?p = "list_pop (thread_ready_list s) s"
  let ?u = "upd_task n (\<lambda>t. t\<lparr>status := TASK_RUNNING\<rparr>) ((snd ?p)\<lparr>thread_tag := general_tag n\<rparr>)"
  have top: "fst ?p = general_tag n"
    using l by (simp add: kl.pop_fst)
  have "spaces ?u T sp = spaces s T sp"
    by (rule spaces_cong) (simp_all add: upd_task_def)
  moreover have "cr3 ?u = sp u"
    using sp(5) by (simp add: upd_task_def)
  ultimately obtain ts where ts: "process_activate n ?u = Ok () (?u\<lparr>cr3 := sp n, tss := ts\<rparr>)"
      "ts = (if pgdir (tasks ?u n) \<noteq> NULL then (tss ?u)\<lparr>tss_esp0 := n + PG_SIZE\<rparr> else tss ?u)"
    using process_activate_ok [of ?u T sp n u] sp by blast
  have "pgdir (tasks s n) \<noteq> NULL \<longrightarrow> tss_esp0 ts = n + PG_SIZE"
    by (simp add: ts(2))
  moreover note ts(1)
  ultimately show ?thesis
    using list_empty_dll [OF l] top
    by (intro exI [of _ ts]) (simp add: schedule_next_def split_beta dispatched_def)
qed

text \<open>After the switch the invariant holds for the rest of the ready list, whatever the thread that
  left the processor became.\<close>

lemma sched_inv_switched:
  assumes l: "dll s (thread_ready_list s) (map general_tag (n # rs))"
    and rs: "set (n # rs) \<subseteq> T" and cur: "cur \<in> T" "cur = running_thread s"
    and st: "\<And>x. x \<in> T \<Longrightarrow> x \<noteq> NULL \<and> general_tag x \<notin> foot (thread_ready_list s) [] \<and>
             (status (tasks s x) = TASK_READY \<longleftrightarrow> x \<in> set (n # rs))"
    and ks: "\<And>x. x \<in> T \<Longrightarrow> x \<noteq> cur \<Longrightarrow> page_of (self_kstack (tasks s x) + 20) = x"
    and sp: "spaces s T sp" and t: "t = switch_to cur n (dispatched n (sp n) ts s)"
  shows "sched_inv t T sp rs \<and> running_thread t = n"
proof -
  have d: "distinct (n # rs)"
    using dll_distinct [OF l] by (auto simp: distinct_map)
  have run: "running_thread t = n"
    using cur ks [of n] rs by (auto simp: t running_thread_page switch_to_esp)
  have "dll t (thread_ready_list s) (map general_tag rs)"
    using kl.pop_rep [of s _ "general_tag n" "map general_tag rs"] l by (simp add: t)
  moreover have "spaces t T sp"
    using spaces_cong [of t s T sp] sp by (simp add: t switch_to_tasks)
  moreover have "addr_of t = addr_of s" "cr3 t = sp n" by (simp_all add: t)
  moreover have "page_of (self_kstack (tasks t x) + 20) = x" if "x \<in> T" "x \<noteq> n" for x
    using that ks [of x] cur(2) by (auto simp: t switch_to_tasks running_thread_page)
  moreover have "status (tasks t x) = TASK_READY \<longleftrightarrow> x \<in> set rs" if "x \<in> T" for x
    using that st [of x] d by (auto simp: t switch_to_tasks)
  ultimately show ?thesis
    using run rs d st by (auto simp: sched_inv_def)
qed

lemma switched_frame:
  assumes "dll s (thread_ready_list s) (map general_tag (n # rs))" and "dll s k zs"
    and "foot (thread_ready_list s) (map general_tag rs) \<inter> foot k zs = {}"
  shows "dll (switch_to cur n (dispatched n d ts s)) k zs"
  using kl.pop_frame [of s "thread_ready_list s" "general_tag n"] assms by simp

text \<open>A preempted thread goes to the end of the ready list and the first of the list runs.\<close>

definition requeued :: "'e kernel_scheme \<Rightarrow> 'e kernel_scheme" where
  "requeued s =
     upd_task (running_thread s) (\<lambda>t. t\<lparr>status := TASK_READY\<rparr>)
       (upd_task (running_thread s) (\<lambda>t. t\<lparr>ticks := priority t\<rparr>)
         (list_append (thread_ready_list s) (general_tag (running_thread s)) s))"

lemma requeued_fields [simp]:
  "tasks (requeued s) = (tasks s)(running_thread s := (tasks s (running_thread s))
     \<lparr>ticks := priority (tasks s (running_thread s)), status := TASK_READY\<rparr>)"
  "esp (requeued s) = esp s" "cr3 (requeued s) = cr3 s" "phys (requeued s) = phys s"
  "addr_of (requeued s) = addr_of s" "sema_value (requeued s) = sema_value s"
  "lock_holder (requeued s) = lock_holder s" "lock_repeat (requeued s) = lock_repeat s"
  "running_thread (requeued s) = running_thread s" "get_intr_status (requeued s) = get_intr_status s"
  "screen (requeued s) = screen s" "mem (requeued s) = mem s" "kernel.more (requeued s) = kernel.more s"
  "dll (requeued s) l xs = dll (list_append (thread_ready_list s) (general_tag (running_thread s)) s) l xs"
  by (simp_all add: requeued_def running_thread_def)

lemma schedule_running_eq:
  assumes inv: "sched_inv s T sp rs" and off: "get_intr_status s = INTR_OFF"
    and cur: "cur = running_thread s" "status (tasks s cur) = TASK_RUNNING" and ys: "rs @ [cur] = n # ys"
  shows "dll (requeued s) (thread_ready_list s) (map general_tag (n # ys))"
    and "\<exists>ts. schedule s = Ok () (switch_to cur n (dispatched n (sp n) ts (requeued s))) \<and>
      sched_inv (switch_to cur n (dispatched n (sp n) ts (requeued s))) T sp ys \<and>
      running_thread (switch_to cur n (dispatched n (sp n) ts (requeued s))) = n"
proof -
  note I = sched_invD [OF inv]
  let ?l = "thread_ready_list s" and ?e = "requeued s"
  have out: "cur \<in> T" "cur \<notin> set rs" "general_tag cur \<notin> foot ?l (map general_tag rs)"
    using I(2,3) I(10) [OF I(2)] tag_outside cur(1) by auto
  show l: "dll ?e ?l (map general_tag (n # ys))"
    unfolding ys [symmetric] using kl.append_rep [OF I(1) out(3)] cur(1) by simp
  have sub: "set (n # ys) \<subseteq> T" unfolding ys [symmetric] using I(3) out(1) by auto
  have sp: "spaces ?e T sp" using spaces_cong [of ?e s T sp] I(5) by simp
  obtain ts where ts: "schedule_next cur ?e = Ok () (switch_to cur n (dispatched n (sp n) ts ?e))"
    using schedule_next_ok [of ?e n ys T sp cur cur] l sub sp I(4) cur(1) out(1) I(7) by auto
  have "schedule s = Ok () (switch_to cur n (dispatched n (sp n) ts ?e))"
    using off cur out ts node_find_dll [OF I(1), of "general_tag cur"]
    by (simp add: schedule_def Let_def inj_image_mem_iff inj_general_tag requeued_def)
  moreover have "x \<noteq> NULL \<and> general_tag x \<notin> foot (thread_ready_list ?e) [] \<and>
       (status (tasks ?e x) = TASK_READY \<longleftrightarrow> x \<in> set (n # ys))" if "x \<in> T" for x
    unfolding ys [symmetric] using that I(7,8,10) [OF that] cur(1) by auto
  moreover have "page_of (self_kstack (tasks ?e x) + 20) = x" if "x \<in> T" "x \<noteq> cur" for x
    using that I(9) [OF that(1)] cur(1) by auto
  ultimately show "\<exists>ts. schedule s = Ok () (switch_to cur n (dispatched n (sp n) ts ?e)) \<and>
      sched_inv (switch_to cur n (dispatched n (sp n) ts ?e)) T sp ys \<and>
      running_thread (switch_to cur n (dispatched n (sp n) ts ?e)) = n"
    using sched_inv_switched [OF _ sub out(1) _ _ _ sp refl, of ts] l cur(1) by (intro exI [of _ ts]) simp
qed

lemma schedule_running:
  assumes "sched_inv s T sp rs" and "get_intr_status s = INTR_OFF"
    and "cur = running_thread s" "status (tasks s cur) = TASK_RUNNING"
  shows "\<exists>t. schedule s = Ok () t \<and> sched_inv t T sp (tl (rs @ [cur])) \<and>
    running_thread t = hd (rs @ [cur]) \<and> status (tasks t (hd (rs @ [cur]))) = TASK_RUNNING \<and>
    get_intr_status t = INTR_OFF \<and> ticks (tasks t cur) = priority (tasks s cur)"
proof -
  obtain n ys where ys: "rs @ [cur] = n # ys" by (cases "rs @ [cur]") auto
  from schedule_running_eq(2) [OF assms ys] show ?thesis
    unfolding ys using assms(2,3) by (auto simp: switch_to_tasks)
qed

section \<open>Blocking and waking\<close>

lemma sched_inv_status_upd:
  assumes "sched_inv s T sp rs" and "st \<noteq> TASK_READY"
  shows "sched_inv (upd_task (running_thread s) (\<lambda>t. t\<lparr>status := st\<rparr>) s) T sp rs"
proof -
  let ?u = "upd_task (running_thread s) (\<lambda>t. t\<lparr>status := st\<rparr>) s"
  have "running_thread ?u = running_thread s" by (simp add: running_thread_def)
  moreover have "spaces ?u T sp = spaces s T sp" by (rule spaces_cong) simp_all
  ultimately show ?thesis using assms by (auto simp: sched_inv_def)
qed

lemma sched_inv_flags:
  "sched_inv (cli s) T sp rs = sched_inv s T sp rs" "sched_inv (sti s) T sp rs = sched_inv s T sp rs"
proof -
  have r: "running_thread (cli s) = running_thread s" "running_thread (sti s) = running_thread s"
    by (simp_all add: running_thread_def)
  have "spaces (cli s) T sp = spaces s T sp" "spaces (sti s) T sp = spaces s T sp"
    by (rule spaces_cong; simp)+
  then show "sched_inv (cli s) T sp rs = sched_inv s T sp rs" "sched_inv (sti s) T sp rs = sched_inv s T sp rs"
    by (simp_all add: sched_inv_def r)
qed

lemma sched_inv_set_status [simp]: "sched_inv (snd (set_intr_status st s)) T sp rs = sched_inv s T sp rs"
  by (simp add: set_intr_status_eq sched_inv_flags)

lemma schedule_leaving:
  assumes inv: "sched_inv s T sp (n # rs)" and off: "get_intr_status s = INTR_OFF"
    and cur: "cur = running_thread s" "status (tasks s cur) \<noteq> TASK_RUNNING"
  shows "\<exists>ts. schedule s = Ok () (switch_to cur n (dispatched n (sp n) ts s)) \<and>
    sched_inv (switch_to cur n (dispatched n (sp n) ts s)) T sp rs \<and>
    running_thread (switch_to cur n (dispatched n (sp n) ts s)) = n"
proof -
  note I = sched_invD [OF inv]
  have n: "n \<in> T" and c: "cur \<in> T" using I(2,3) cur(1) by auto
  obtain ts where "schedule_next cur s = Ok () (switch_to cur n (dispatched n (sp n) ts s))"
    using schedule_next_ok [OF I(1,5) n I(7) [OF n] c] I(4) cur(1) by auto
  then have "schedule s = Ok () (switch_to cur n (dispatched n (sp n) ts s))"
    using off cur by (simp add: schedule_def Let_def)
  moreover have "sched_inv (switch_to cur n (dispatched n (sp n) ts s)) T sp rs \<and>
    running_thread (switch_to cur n (dispatched n (sp n) ts s)) = n"
    using I c cur(1) by (intro sched_inv_switched [OF I(1) _ c cur(1) _ _ I(5) refl]) auto
  ultimately show ?thesis by blast
qed

lemma schedule_no_ready:
  assumes "sched_inv s T sp []" and "get_intr_status s = INTR_OFF"
    and "status (tasks s (running_thread s)) \<noteq> TASK_RUNNING"
  shows "schedule s = PANIC (''thread/thread.c'', 123, ''schedule'', ''!list_empty(&thread_ready_list)'') s"
  using assms(2,3) list_empty_dll [OF sched_invD(1) [OF assms(1)]]
  by (simp add: schedule_def schedule_next_def)

text \<open>The state a blocking thread leaves to the next one.\<close>

definition yielded :: "task_status \<Rightarrow> u32 \<Rightarrow> u32 \<Rightarrow> tss \<Rightarrow> 'e kernel_scheme \<Rightarrow> 'e kernel_scheme" where
  "yielded st n dir ts s =
     switch_to (running_thread s) n (dispatched n dir ts
       (upd_task (running_thread s) (\<lambda>t. t\<lparr>status := st\<rparr>) (cli s)))"

lemma may_block_not [simp]: "\<not> may_block TASK_READY" "\<not> may_block TASK_RUNNING" "may_block TASK_BLOCKED"
  by (simp_all add: may_block_def)

lemma thread_block_yields:
  assumes inv: "sched_inv s T sp (n # rs)" and st: "may_block st"
  shows "\<exists>ts. thread_block st s = Blocked (yielded st n (sp n) ts s) \<and>
    sched_inv (yielded st n (sp n) ts s) T sp rs \<and> running_thread (yielded st n (sp n) ts s) = n"
proof -
  let ?u = "upd_task (running_thread s) (\<lambda>t. t\<lparr>status := st\<rparr>) (cli s)"
  have run: "running_thread (cli s) = running_thread s" "running_thread ?u = running_thread s"
    by (simp_all add: running_thread_def)
  have "st \<noteq> TASK_READY" "st \<noteq> TASK_RUNNING" using st by auto
  then have "sched_inv ?u T sp (n # rs)"
    using sched_inv_status_upd [of "cli s" T sp "n # rs" st] inv run by (simp add: sched_inv_flags)
  then obtain ts where ts: "schedule ?u = Ok () (yielded st n (sp n) ts s)"
      "sched_inv (yielded st n (sp n) ts s) T sp rs" "running_thread (yielded st n (sp n) ts s) = n"
    using schedule_leaving [of ?u T sp n rs "running_thread s"] run \<open>st \<noteq> TASK_RUNNING\<close>
    by (auto simp: yielded_def)
  then show ?thesis
    using st run by (auto simp: thread_block_def intr_disable_eq Let_def)
qed

lemma thread_block_last:
  assumes inv: "sched_inv s T sp []" and st: "may_block st"
  shows "halts (thread_block st s)"
proof -
  let ?u = "upd_task (running_thread s) (\<lambda>t. t\<lparr>status := st\<rparr>) (cli s)"
  have run: "running_thread (cli s) = running_thread s" "running_thread ?u = running_thread s"
    by (simp_all add: running_thread_def)
  have "st \<noteq> TASK_READY" "st \<noteq> TASK_RUNNING" using st by auto
  then have "sched_inv ?u T sp []"
    using sched_inv_status_upd [of "cli s" T sp "[]" st] inv run by (simp add: sched_inv_flags)
  then show ?thesis
    using schedule_no_ready [of ?u T sp] run \<open>st \<noteq> TASK_RUNNING\<close> st
    by (simp add: thread_block_def intr_disable_eq Let_def)
qed

lemma yielded_fields [simp]:
  "sema_value (yielded st n d ts s) = sema_value s" "lock_holder (yielded st n d ts s) = lock_holder s"
  "lock_repeat (yielded st n d ts s) = lock_repeat s" "addr_of (yielded st n d ts s) = addr_of s"
  "get_intr_status (yielded st n d ts s) = INTR_OFF" "mem (yielded st n d ts s) = mem s"
  "screen (yielded st n d ts s) = screen s" "kernel.more (yielded st n d ts s) = kernel.more s"
  by (simp_all add: yielded_def)

lemma yielded_frame:
  assumes "sched_inv s T sp (n # rs)" and "dll s k zs"
    and "foot (thread_ready_list s) (map general_tag rs) \<inter> foot k zs = {}"
  shows "dll (yielded st n d ts s) k zs"
  unfolding yielded_def using sched_invD(1) [OF assms(1)] assms(2,3) by (intro switched_frame) simp_all

lemma yielded_status:
  "x \<noteq> n \<Longrightarrow> status (tasks (yielded st n d ts s) x) = (if x = running_thread s then st else status (tasks s x))"
  by (simp add: yielded_def switch_to_tasks)

text \<open>The state after \<open>thread_unblock\<close>.\<close>

definition woken :: "u32 \<Rightarrow> 'e kernel_scheme \<Rightarrow> 'e kernel_scheme" where
  "woken p s = upd_task p (\<lambda>t. t\<lparr>status := TASK_READY\<rparr>) (list_push (thread_ready_list s) (general_tag p) s)"

lemma woken_fields [simp]:
  "sema_value (woken p s) = sema_value s" "lock_holder (woken p s) = lock_holder s"
  "lock_repeat (woken p s) = lock_repeat s" "addr_of (woken p s) = addr_of s" "esp (woken p s) = esp s"
  "get_intr_status (woken p s) = get_intr_status s" "mem (woken p s) = mem s"
  "tasks (woken p s) = (tasks s)(p := (tasks s p)\<lparr>status := TASK_READY\<rparr>)" "phys (woken p s) = phys s"
  "cr3 (woken p s) = cr3 s" "screen (woken p s) = screen s" "kernel.more (woken p s) = kernel.more s"
  by (simp_all add: woken_def)

lemma list_push_flags:
  "list_push l x (s\<lparr>eflags := f\<rparr>) = (list_push l x s)\<lparr>eflags := f\<rparr>"
  by (simp add: list_ops_upd)

lemma woken_restore: "snd (set_intr_status (get_intr_status s) (woken p (cli s))) = woken p s"
proof -
  have "woken p (cli s) = (woken p s)\<lparr>eflags := eflags (cli s)\<rparr>"
    by (simp add: woken_def list_push_flags upd_task_def cli_def)
  then have "snd (set_intr_status (get_intr_status s) (woken p (cli s))) =
      (woken p s)\<lparr>eflags := eflags (snd (set_intr_status (get_intr_status s) (cli s)))\<rparr>"
    by (simp add: set_intr_status_eq cli_def sti_def)
  also have "snd (set_intr_status (get_intr_status s) (cli s)) = s"
    using intr.set_status_restores [of s] by (simp add: intr_disable_eq)
  finally show ?thesis by (simp add: woken_def upd_task_def list_ops_upd)
qed

lemma thread_unblock_wakes:
  assumes inv: "sched_inv s T sp rs" and p: "p \<in> T" "p \<noteq> running_thread s" "may_block (status (tasks s p))"
  shows "thread_unblock p s = Ok () (woken p s)" and "sched_inv (woken p s) T sp (p # rs)"
proof -
  note I = sched_invD [OF inv]
  have notin: "p \<notin> set rs" using I(8) [OF p(1)] p(3) by auto
  have d: "dll (cli s) (thread_ready_list s) (map general_tag rs)" using I(1) by simp
  have "status (tasks s p) \<noteq> TASK_READY" using p(3) by auto
  then have "thread_unblock p s = Ok () (snd (set_intr_status (get_intr_status s) (woken p (cli s))))"
    using p(3) notin node_find_dll [OF d, of "general_tag p"]
    by (simp add: thread_unblock_def intr_disable_eq Let_def inj_image_mem_iff inj_general_tag woken_def)
  then show "thread_unblock p s = Ok () (woken p s)" by (simp add: woken_restore)
  have "dll (woken p s) (thread_ready_list s) (map general_tag (p # rs))"
    unfolding woken_def using kl.push_rep [OF I(1) tag_outside [OF I(10) [OF p(1)] notin]] by simp
  moreover have "spaces (woken p s) T sp = spaces s T sp" by (rule spaces_cong) simp_all
  moreover have "running_thread (woken p s) = running_thread s" by (simp add: running_thread_def)
  ultimately show "sched_inv (woken p s) T sp (p # rs)"
    using I p by (auto simp: sched_inv_def)
qed

lemma woken_frame:
  assumes "sched_inv s T sp rs" and "dll s k zs"
    and "foot (thread_ready_list s) (map general_tag (p # rs)) \<inter> foot k zs = {}"
  shows "dll (woken p s) k zs"
  unfolding woken_def using kl.push_frame [OF sched_invD(1) [OF assms(1)] assms(2)] assms(3) by simp

section \<open>Repeated preemption\<close>

fun preempt :: "nat \<Rightarrow> 'e kernel_scheme \<Rightarrow> (unit, 'e kernel_scheme) res" where
  "preempt 0 s = Ok () s"
| "preempt (Suc k) s = bind (schedule s) (\<lambda>_ s. preempt k s)"

lemma preempt_rotates:
  assumes "sched_inv s T sp rs" and "get_intr_status s = INTR_OFF"
    and "status (tasks s (running_thread s)) = TASK_RUNNING"
  shows "\<exists>t. preempt k s = Ok () t \<and> sched_inv t T sp (tl (rotate k (running_thread s # rs))) \<and>
    running_thread t = hd (rotate k (running_thread s # rs)) \<and>
    status (tasks t (running_thread t)) = TASK_RUNNING \<and> get_intr_status t = INTR_OFF"
  using assms
proof (induction k arbitrary: s rs)
  case (Suc k)
  let ?q = "rs @ [running_thread s]"
  obtain t where t: "schedule s = Ok () t" "sched_inv t T sp (tl ?q)" "running_thread t = hd ?q"
      "status (tasks t (hd ?q)) = TASK_RUNNING" "get_intr_status t = INTR_OFF"
    using schedule_running [OF Suc.prems(1,2) refl Suc.prems(3)] by blast
  have q: "running_thread t # tl ?q = ?q" by (simp add: t(3))
  have "rotate (Suc k) (running_thread s # rs) = rotate k ?q"
    by (simp add: rotate_Suc rotate1_rotate_swap)
  moreover obtain u where "preempt k t = Ok () u"
      "sched_inv u T sp (tl (rotate k ?q))" "running_thread u = hd (rotate k ?q)"
      "status (tasks u (running_thread u)) = TASK_RUNNING" "get_intr_status u = INTR_OFF"
    using Suc.IH [OF t(2,5)] t(3,4) unfolding q by auto
  ultimately show ?case using t(1) by simp
qed simp

section \<open>Properties\<close>

definition demo_kernel :: kernel where
  "demo_kernel = list_append 0xc0003000 0xc0101024 (list_append 0xc0003000 0xc0100024
     (list_init 0xc0003000 (cli demo_base)))"

definition demo_dirs :: "u32 \<Rightarrow> u32" where
  "demo_dirs = (\<lambda>_. 0x100000)(0xc0101000 := 0x202000)"

abbreviation demo_threads :: "u32 set" where "demo_threads \<equiv> {0xc009e000, 0xc0100000, 0xc0101000}"

lemma demo_kernel_fields [simp]:
  "addr_of demo_kernel = demo_addr" "esp demo_kernel = 0xc009eff0" "tasks demo_kernel = demo_tasks"
  "phys demo_kernel = demo_phys" "cr3 demo_kernel = 0x100000" "get_intr_status demo_kernel = INTR_OFF"
  by (simp_all add: demo_kernel_def)

lemma demo_ready: "dll demo_kernel 0xc0003000 [0xc0100024, 0xc0101024]"
proof -
  let ?i = "list_init 0xc0003000 (cli demo_base)"
  have "dll (list_append 0xc0003000 0xc0100024 ?i) 0xc0003000 ([] @ [0xc0100024])"
    by (rule kl.append_rep [OF list_init_dll]) (simp add: span_def)
  from kl.append_rep [OF this, of "0xc0101024"] show ?thesis
    by (simp add: demo_kernel_def span_def)
qed

lemma demo_spaces: "spaces demo_kernel demo_threads demo_dirs"
  by (simp add: spaces_def demo_dirs_def demo_tasks_def zero_task_def self_mapped_def translate_def
      pde_of_def pte_slot_def demo_phys_def page_aligned_def page_of_def PDE_IDX_def PTE_IDX_def)

lemma demo_running [simp]: "running_thread demo_kernel = 0xc009e000"
  by (simp add: running_thread_def)

lemma demo_sched_inv: "sched_inv demo_kernel demo_threads demo_dirs [0xc0100000, 0xc0101000]"
  using demo_ready demo_spaces
  by (simp add: sched_inv_def general_tag_def demo_tasks_def zero_task_def demo_dirs_def span_def page_of_def)

text \<open>C5: preemption is a round robin. When the running thread is still runnable, \<open>schedule\<close> puts it
  at the end of the ready list with its time slice refilled and the first thread of the list gets
  the processor, in its own address space; the invariant holds again for the rotated list.\<close>

theorem schedule_round_robin:
  assumes "sched_inv s T sp rs" and "get_intr_status s = INTR_OFF"
    and "cur = running_thread s" and "status (tasks s cur) = TASK_RUNNING"
  shows "\<exists>t. schedule s = Ok () t \<and> sched_inv t T sp (tl (rs @ [cur])) \<and>
    running_thread t = hd (rs @ [cur]) \<and> status (tasks t (hd (rs @ [cur]))) = TASK_RUNNING \<and>
    get_intr_status t = INTR_OFF \<and> ticks (tasks t cur) = priority (tasks s cur)"
  using assms by (rule schedule_running)

theorem schedule_round_robin_witness:
  "\<exists>t. schedule demo_kernel = Ok () t \<and>
     sched_inv t demo_threads demo_dirs (tl ([0xc0100000, 0xc0101000] @ [0xc009e000])) \<and>
     running_thread t = hd ([0xc0100000, 0xc0101000] @ [0xc009e000]) \<and>
     status (tasks t (hd ([0xc0100000, 0xc0101000] @ [0xc009e000]))) = TASK_RUNNING \<and>
     get_intr_status t = INTR_OFF \<and> ticks (tasks t 0xc009e000) = priority (tasks demo_kernel 0xc009e000)"
  by (rule schedule_round_robin [OF demo_sched_inv]) (simp_all add: demo_tasks_def zero_task_def)

text \<open>No ready thread starves under preemption alone: the \<open>k\<close>-th call of \<open>schedule\<close> gives the
  processor to the \<open>k\<close>-th thread of the queue formed by the running thread and the ready list, so
  that each thread runs again after one round.\<close>

theorem schedule_fair:
  assumes "sched_inv s T sp rs" and "get_intr_status s = INTR_OFF"
    and "status (tasks s (running_thread s)) = TASK_RUNNING" and "k \<le> length rs"
  shows "\<exists>t. preempt k s = Ok () t \<and> running_thread t = (running_thread s # rs) ! k \<and>
    status (tasks t (running_thread t)) = TASK_RUNNING"
proof -
  have "hd (rotate k (running_thread s # rs)) = (running_thread s # rs) ! k"
    using assms(4) by (simp add: hd_rotate_conv_nth)
  then show ?thesis using preempt_rotates [OF assms(1-3), of k] by auto
qed

theorem schedule_fair_witness:
  "\<exists>t. preempt 2 demo_kernel = Ok () t \<and>
     running_thread t = (running_thread demo_kernel # [0xc0100000, 0xc0101000]) ! 2 \<and>
     status (tasks t (running_thread t)) = TASK_RUNNING"
  by (rule schedule_fair [OF demo_sched_inv]) (simp_all add: demo_tasks_def zero_task_def)

text \<open>C38: there is no idle thread: when the only runnable thread blocks, the assertion in \<open>schedule\<close>
  stops the kernel.\<close>

theorem block_without_ready_panics:
  assumes "sched_inv s T sp []" and "may_block st"
  shows "halts (thread_block st s)"
  using assms by (rule thread_block_last)

theorem block_without_ready_panics_witness:
  "halts (thread_block TASK_BLOCKED (list_init 0xc0003000 demo_base))"
proof -
  let ?s = "list_init 0xc0003000 demo_base"
  have "running_thread ?s = 0xc009e000" by (simp add: running_thread_def)
  moreover have "dll ?s 0xc0003000 []" by (rule list_init_dll)
  ultimately have "sched_inv ?s {0xc009e000} demo_dirs []"
    by (simp add: sched_inv_def spaces_def general_tag_def demo_tasks_def zero_task_def demo_dirs_def span_def)
  then show ?thesis by (rule block_without_ready_panics) simp
qed

text \<open>A woken thread goes to the front of the ready list: \<open>thread_unblock\<close> returns with the
  invariant and the interrupt status as they were, and the next preemption runs that thread.\<close>

theorem unblock_runs_next:
  assumes "sched_inv s T sp rs" and "p \<in> T" and "p \<noteq> running_thread s" and "may_block (status (tasks s p))"
    and "get_intr_status s = INTR_OFF" and "status (tasks s (running_thread s)) = TASK_RUNNING"
  shows "\<exists>t u. thread_unblock p s = Ok () t \<and> sched_inv t T sp (p # rs) \<and> get_intr_status t = INTR_OFF \<and>
    schedule t = Ok () u \<and> running_thread u = p \<and> sched_inv u T sp (rs @ [running_thread s])"
proof -
  note w = thread_unblock_wakes [OF assms(1-4)]
  have r: "running_thread (woken p s) = running_thread s" by (simp add: running_thread_def)
  have "status (tasks (woken p s) (running_thread s)) = TASK_RUNNING" using assms(3,6) by simp
  then show ?thesis
    using schedule_running [OF w(2) _ r [symmetric]] w assms(5) by auto
qed

definition demo_blocked :: kernel where
  "demo_blocked = upd_task 0xc0101000 (\<lambda>t. t\<lparr>status := TASK_BLOCKED\<rparr>)
     (list_append 0xc0003000 0xc0100024 (list_init 0xc0003000 (cli demo_base)))"

lemma demo_blocked_inv: "sched_inv demo_blocked demo_threads demo_dirs [0xc0100000]"
proof -
  have "dll (list_append 0xc0003000 0xc0100024 (list_init 0xc0003000 (cli demo_base))) 0xc0003000
      ([] @ [0xc0100024])"
    by (rule kl.append_rep [OF list_init_dll]) (simp add: span_def)
  moreover have "spaces demo_blocked demo_threads demo_dirs"
    by (rule spaces_cong [THEN iffD2, OF _ _ demo_spaces]) (simp_all add: demo_blocked_def)
  moreover have "running_thread demo_blocked = 0xc009e000" by (simp add: running_thread_def demo_blocked_def)
  ultimately show ?thesis
    by (simp add: demo_blocked_def sched_inv_def general_tag_def demo_tasks_def zero_task_def demo_dirs_def
      span_def page_of_def)
qed

theorem unblock_runs_next_witness:
  "\<exists>t u. thread_unblock 0xc0101000 demo_blocked = Ok () t \<and>
     sched_inv t demo_threads demo_dirs (0xc0101000 # [0xc0100000]) \<and> get_intr_status t = INTR_OFF \<and>
     schedule t = Ok () u \<and> running_thread u = 0xc0101000 \<and>
     sched_inv u demo_threads demo_dirs ([0xc0100000] @ [running_thread demo_blocked])"
  by (rule unblock_runs_next [OF demo_blocked_inv])
    (simp_all add: running_thread_def demo_blocked_def demo_tasks_def zero_task_def)

text \<open>C32: a context switch loses nothing: a thread that left the processor in \<open>switch_to\<close> and whose
  saved frame and stack pointer were left alone gets back its stack pointer and its callee-saved
  registers when another thread switches to it, and continues after the switch.\<close>

theorem switch_to_there_and_back:
  assumes "c \<noteq> n" and "m \<noteq> c" and "esp t \<noteq> esp s"
    and "thread_stacks t (esp s - 20) = thread_stacks (switch_to c n s) (esp s - 20)"
    and "self_kstack (tasks t c) = self_kstack (tasks (switch_to c n s) c)"
  shows "esp (switch_to m c t) = esp s \<and> regs (switch_to m c t) = regs s \<and>
         eip (switch_to m c t) = addr_of s After_switch"
  using assms by (simp add: switch_to_def upd_task_def Let_def)

theorem switch_to_there_and_back_witness:
  "esp (switch_to 0xc0100000 0xc009e000 (switch_to 0xc009e000 0xc0100000 demo_kernel)) = esp demo_kernel \<and>
   regs (switch_to 0xc0100000 0xc009e000 (switch_to 0xc009e000 0xc0100000 demo_kernel)) = regs demo_kernel \<and>
   eip (switch_to 0xc0100000 0xc009e000 (switch_to 0xc009e000 0xc0100000 demo_kernel)) =
     addr_of demo_kernel After_switch"
  by (rule switch_to_there_and_back) (simp_all add: switch_to_esp demo_tasks_def)

end
