(* ===== verification/Sync.thy ===== *)
theory Sync
  imports Sched
begin

text \<open>
  \<open>thread/sync.c\<close>: semaphores and locks. A semaphore at address \<open>p\<close> has its counter in
  \<open>sema_value s p\<close> and its waiter list at \<open>p + 4\<close>; a lock at \<open>l\<close> has its holder and its
  repetition counter in \<open>lock_holder s l\<close> and \<open>lock_repeat s l\<close> and its semaphore at \<open>l + 4\<close>.

  A thread that has to wait leaves the processor in the middle of \<open>sema_down\<close>. The part of a routine
  that runs when the thread is scheduled again is a definition of its own (\<open>sema_down_resume\<close>,
  \<open>lock_acquire_resume\<close>): the loop of \<open>sema_down\<close> tests the counter again, with interrupts still off.

  The second half of the theory runs any number of threads against one lock. \<open>lock_step\<close> is the step
  relation on kernel states: the routines above, cut at every point where the timer may preempt a
  thread, and the preemption itself. \<open>abs_step\<close> is an abstract monitor with the queues as lists; the
  kernel state refines it, and the invariant of the monitor gives mutual exclusion, that no assertion
  of the lock, semaphore and scheduler code fails, and that no wake-up is lost.
\<close>

section \<open>Semaphores\<close>

abbreviation (input) waiters :: "u32 \<Rightarrow> u32" where "waiters psema \<equiv> psema + 4"
abbreviation (input) semaphore :: "u32 \<Rightarrow> u32" where "semaphore plock \<equiv> plock + 4"

definition set_value :: "u32 \<Rightarrow> u8 \<Rightarrow> 'e kernel_scheme \<Rightarrow> 'e kernel_scheme" where
  "set_value psema v s = s\<lparr>sema_value := (sema_value s)(psema := v)\<rparr>"

definition sema_init :: "u32 \<Rightarrow> u8 \<Rightarrow> 'e kernel_scheme \<Rightarrow> 'e kernel_scheme" where
  "sema_init psema v s = (let s = set_value psema v s in list_init (waiters psema) s)"

text \<open>The loop of \<open>sema_down\<close>: it ends when the counter is not zero, else the thread waits.\<close>

definition sema_down_wait :: "u32 \<Rightarrow> 'e kernel_scheme \<Rightarrow> (unit, 'e kernel_scheme) res" where
  "sema_down_wait psema s =
     (if sema_value s psema = 0
      then bind (node_find (waiters psema) (general_tag (running_thread s)) s) (\<lambda>found s.
           bind (ASSERT (\<not> found) (''thread/sync.c'', 27, ''sema_down'',
                   ''!node_find(&psema->waiters, &running_thread()->general_tag)'') s) (\<lambda>_ s.
           bind (node_find (waiters psema) (general_tag (running_thread s)) s) (\<lambda>found s.
           bind (if found
                 then PANIC (''thread/sync.c'', 29, ''sema_down'',
                        ln ''sema_down:thread has been in waiters_list'') s
                 else Ok () s) (\<lambda>_ s.
           let s = list_append (waiters psema) (general_tag (running_thread s)) s
           in thread_block TASK_BLOCKED s))))
      else Ok () s)"

definition sema_down_take :: "intr_status \<Rightarrow> u32 \<Rightarrow> 'e kernel_scheme \<Rightarrow> (unit, 'e kernel_scheme) res" where
  "sema_down_take old_status psema s =
     (let s = set_value psema (sema_value s psema - 1) s in
      bind (ASSERT (sema_value s psema = 0) (''thread/sync.c'', 38, ''sema_down'', ''psema->value == 0'') s) (\<lambda>_ s.
      Ok () (snd (set_intr_status old_status s))))"

definition sema_down :: "u32 \<Rightarrow> 'e kernel_scheme \<Rightarrow> (unit, 'e kernel_scheme) res" where
  "sema_down psema s =
     (let (old_status, s) = intr_disable s in
      bind (sema_down_wait psema s) (\<lambda>_ s. sema_down_take old_status psema s))"

text \<open>\<open>sema_down\<close> from the return of \<open>thread_block\<close> on, which was called with interrupts off.\<close>

definition sema_down_resume :: "intr_status \<Rightarrow> u32 \<Rightarrow> 'e kernel_scheme \<Rightarrow> (unit, 'e kernel_scheme) res" where
  "sema_down_resume old_status psema s =
     (let s = thread_block_resume INTR_OFF s in
      bind (sema_down_wait psema s) (\<lambda>_ s. sema_down_take old_status psema s))"

definition sema_up :: "u32 \<Rightarrow> 'e kernel_scheme \<Rightarrow> (unit, 'e kernel_scheme) res" where
  "sema_up psema s =
     (let (old_status, s) = intr_disable s in
      bind (ASSERT (sema_value s psema = 0) (''thread/sync.c'', 48, ''sema_up'', ''psema->value == 0'') s) (\<lambda>_ s.
      bind (if \<not> list_empty (waiters psema) s
            then let (tag, s) = list_pop (waiters psema) s;
                     thread_blocked = task_of_tag tag
                 in thread_unblock thread_blocked s
            else Ok () s) (\<lambda>_ s.
      let s = set_value psema (sema_value s psema + 1) s in
      bind (ASSERT (sema_value s psema = 1) (''thread/sync.c'', 55, ''sema_up'', ''psema->value == 1'') s) (\<lambda>_ s.
      Ok () (snd (set_intr_status old_status s))))))"

section \<open>Locks\<close>

definition set_holder :: "u32 \<Rightarrow> u32 \<Rightarrow> 'e kernel_scheme \<Rightarrow> 'e kernel_scheme" where
  "set_holder plock t s = s\<lparr>lock_holder := (lock_holder s)(plock := t)\<rparr>"

definition set_repeat :: "u32 \<Rightarrow> u32 \<Rightarrow> 'e kernel_scheme \<Rightarrow> 'e kernel_scheme" where
  "set_repeat plock n s = s\<lparr>lock_repeat := (lock_repeat s)(plock := n)\<rparr>"

definition lock_init :: "u32 \<Rightarrow> 'e kernel_scheme \<Rightarrow> 'e kernel_scheme" where
  "lock_init plock s =
     (let s = set_holder plock NULL s;
          s = set_repeat plock 0 s
      in sema_init (semaphore plock) 1 s)"

text \<open>The end of \<open>lock_acquire\<close>: the statements after \<open>sema_down\<close>.\<close>

definition lock_count :: "u32 \<Rightarrow> 'e kernel_scheme \<Rightarrow> (unit, 'e kernel_scheme) res" where
  "lock_count plock s =
     bind (ASSERT (lock_repeat s plock = 0)
             (''thread/sync.c'', 67, ''lock_acquire'', ''plock->holder_repeat_cnt == 0'') s) (\<lambda>_ s.
     Ok () (set_repeat plock 1 s))"

definition lock_acquired :: "u32 \<Rightarrow> 'e kernel_scheme \<Rightarrow> (unit, 'e kernel_scheme) res" where
  "lock_acquired plock s =
     (let s = set_holder plock (running_thread s) s in lock_count plock s)"

definition lock_acquire :: "u32 \<Rightarrow> 'e kernel_scheme \<Rightarrow> (unit, 'e kernel_scheme) res" where
  "lock_acquire plock s =
     (if lock_holder s plock \<noteq> running_thread s
      then bind (sema_down (semaphore plock) s) (\<lambda>_ s. lock_acquired plock s)
      else Ok () (set_repeat plock (lock_repeat s plock + 1) s))"

definition lock_acquire_resume :: "intr_status \<Rightarrow> u32 \<Rightarrow> 'e kernel_scheme \<Rightarrow> (unit, 'e kernel_scheme) res" where
  "lock_acquire_resume old_status plock s =
     bind (sema_down_resume old_status (semaphore plock) s) (\<lambda>_ s. lock_acquired plock s)"

text \<open>The start of \<open>lock_release\<close>: \<open>True\<close> when this was the last of the nested releases.\<close>

definition lock_leave :: "u32 \<Rightarrow> 'e kernel_scheme \<Rightarrow> (bool, 'e kernel_scheme) res" where
  "lock_leave plock s =
     bind (ASSERT (lock_holder s plock = running_thread s)
             (''thread/sync.c'', 77, ''lock_release'', ''plock->holder == running_thread()'') s) (\<lambda>_ s.
     if lock_repeat s plock > 1 then Ok False (set_repeat plock (lock_repeat s plock - 1) s)
     else bind (ASSERT (lock_repeat s plock = 1)
                  (''thread/sync.c'', 83, ''lock_release'', ''plock->holder_repeat_cnt == 1'') s) (\<lambda>_ s.
          Ok True s))"

definition lock_release :: "u32 \<Rightarrow> 'e kernel_scheme \<Rightarrow> (unit, 'e kernel_scheme) res" where
  "lock_release plock s =
     bind (lock_leave plock s) (\<lambda>last s.
     if \<not> last then Ok () s
     else let s = set_holder plock NULL s;
              s = set_repeat plock 0 s
          in sema_up (semaphore plock) s)"

section \<open>The state of a semaphore\<close>

text \<open>The semaphore at \<open>P\<close> has the counter \<open>v\<close> and the waiters \<open>ws\<close>, the thread \<open>r\<close> runs, the ready
  list is \<open>rs\<close> and interrupts are on if \<open>on\<close>.\<close>

definition sema_rep ::
    "'e kernel_scheme \<Rightarrow> u32 set \<Rightarrow> (u32 \<Rightarrow> u32) \<Rightarrow> u32 \<Rightarrow> u32 \<Rightarrow> u32 list \<Rightarrow> u32 list \<Rightarrow> u8 \<Rightarrow> bool \<Rightarrow> bool" where
  "sema_rep s T sp P r rs ws v on \<longleftrightarrow>
     sched_inv s T sp rs \<and> running_thread s = r \<and> status (tasks s r) = TASK_RUNNING \<and>
     dll s (waiters P) (map general_tag ws) \<and> set ws \<subseteq> T \<and>
     foot (thread_ready_list s) [] \<inter> foot (waiters P) [] = {} \<and>
     (\<forall>t\<in>T. general_tag t \<notin> foot (waiters P) [] \<and> (status (tasks s t) = TASK_BLOCKED \<longleftrightarrow> t \<in> set ws)) \<and>
     sema_value s P = v \<and> get_intr_status s = (if on then INTR_ON else INTR_OFF)"

lemma sema_repD:
  assumes "sema_rep s T sp P r rs ws v on"
  shows "sched_inv s T sp rs" and "running_thread s = r" and "status (tasks s r) = TASK_RUNNING"
    and "dll s (waiters P) (map general_tag ws)" and "set ws \<subseteq> T"
    and "foot (thread_ready_list s) [] \<inter> foot (waiters P) [] = {}"
    and "\<And>t. t \<in> T \<Longrightarrow> general_tag t \<notin> foot (waiters P) []"
    and "\<And>t. t \<in> T \<Longrightarrow> status (tasks s t) = TASK_BLOCKED \<longleftrightarrow> t \<in> set ws"
    and "sema_value s P = v" and "get_intr_status s = (if on then INTR_ON else INTR_OFF)"
  using assms by (simp_all add: sema_rep_def)

lemma sched_inv_frame:
  assumes "sched_inv s T sp rs" and "dll t (thread_ready_list s) (map general_tag rs)"
    and eq: "tasks t = tasks s" "esp t = esp s" "addr_of t = addr_of s" "phys t = phys s" "cr3 t = cr3 s"
  shows "sched_inv t T sp rs"
proof -
  have "spaces t T sp = spaces s T sp" using eq by (intro spaces_cong) simp_all
  moreover have "running_thread t = running_thread s" using eq by (simp add: running_thread_def)
  ultimately show ?thesis using assms by (simp add: sched_inv_def)
qed

lemma foot_tags: "foot l (map general_tag xs) = foot l [] \<union> general_tag ` set xs"
  by (auto simp: span_def)

lemma tag_lists_apart:
  assumes l: "foot l [] \<inter> foot k [] = {}"
    and T: "\<forall>t\<in>T. general_tag t \<notin> foot l []" "\<forall>t\<in>T. general_tag t \<notin> foot k []"
    and xs: "set xs \<subseteq> T" and ys: "set ys \<subseteq> T" and xy: "set xs \<inter> set ys = {}"
  shows "foot l (map general_tag xs) \<inter> foot k (map general_tag ys) = {}"
proof -
  have "general_tag ` set xs \<inter> general_tag ` set ys = {}"
    using xy by auto
  moreover have "foot l [] \<inter> general_tag ` set ys = {}"
    using T(1) ys by blast
  moreover have "general_tag ` set xs \<inter> foot k [] = {}"
    using T(2) xs by blast
  ultimately show ?thesis unfolding foot_tags using l by blast
qed

lemma sema_rep_apart:
  assumes "sema_rep s T sp P r rs ws v on"
  shows "set rs \<inter> set ws = {}" and "r \<notin> set rs" and "r \<notin> set ws" and "r \<in> T" and "set rs \<subseteq> T"
    and "\<lbrakk>set xs \<subseteq> T; set ys \<subseteq> T; set xs \<inter> set ys = {}\<rbrakk> \<Longrightarrow>
      foot (thread_ready_list s) (map general_tag xs) \<inter> foot (waiters P) (map general_tag ys) = {}"
proof -
  note R = sema_repD [OF assms] and I = sched_invD [OF sema_repD(1) [OF assms]]
  show rs: "r \<notin> set rs" "r \<in> T" "set rs \<subseteq> T" using I(2,3) R(2) by auto
  show "r \<notin> set ws" using R(3) R(8) [OF rs(2)] by auto
  show "set rs \<inter> set ws = {}"
  proof (rule ccontr)
    assume "set rs \<inter> set ws \<noteq> {}"
    then obtain x where x: "x \<in> set rs" "x \<in> set ws" by blast
    then have "x \<in> T" using R(5) by blast
    then show False using x I(8) [of x] R(8) [of x] by auto
  qed
  show "\<lbrakk>set xs \<subseteq> T; set ys \<subseteq> T; set xs \<inter> set ys = {}\<rbrakk> \<Longrightarrow>
      foot (thread_ready_list s) (map general_tag xs) \<inter> foot (waiters P) (map general_tag ys) = {}"
    using tag_lists_apart [OF R(6), of T xs ys] R(7) I(10) by simp
qed

lemma sema_rep_flags:
  "sema_rep (cli s) T sp P r rs ws v False = sema_rep s T sp P r rs ws v (get_intr_status s = INTR_ON)"
  "sema_rep (sti s) T sp P r rs ws v True = sema_rep s T sp P r rs ws v (get_intr_status s = INTR_ON)"
  by (auto simp: sema_rep_def sched_inv_flags running_thread_def)

lemma sema_rep_set_status:
  "sema_rep s T sp P r rs ws v on \<Longrightarrow>
   sema_rep (snd (set_intr_status st s)) T sp P r rs ws v (st = INTR_ON)"
  by (auto simp: set_intr_status_eq sema_rep_def sched_inv_flags running_thread_def)

lemma sema_rep_set_value:
  assumes "sema_rep s T sp P r rs ws v on"
  shows "sema_rep (set_value P w s) T sp P r rs ws w on"
proof -
  have "sched_inv (set_value P w s) T sp rs"
    using sched_invD(1) [OF sema_repD(1) [OF assms]]
    by (intro sched_inv_frame [OF sema_repD(1) [OF assms]]) (simp_all add: set_value_def)
  then show ?thesis
    using assms by (auto simp: sema_rep_def set_value_def running_thread_def get_intr_status_def)
qed

section \<open>Effects of the semaphore routines\<close>

abbreviation same_lock :: "'e kernel_scheme \<Rightarrow> 'e kernel_scheme \<Rightarrow> bool" where
  "same_lock s t \<equiv> lock_holder t = lock_holder s \<and> lock_repeat t = lock_repeat s \<and>
     screen t = screen s \<and> mem t = mem s \<and> kernel.more t = kernel.more s"

lemma same_lock_simps [simp]:
  "lock_holder (set_value P v s) = lock_holder s" "lock_repeat (set_value P v s) = lock_repeat s"
  "lock_holder (snd (set_intr_status st s)) = lock_holder s"
  "lock_repeat (snd (set_intr_status st s)) = lock_repeat s"
  "screen (set_value P v s) = screen s" "screen (snd (set_intr_status st t)) = screen t"
  "mem (set_value P v s) = mem s" "mem (snd (set_intr_status st t)) = mem t"
  "kernel.more (set_value P v s) = kernel.more s" "kernel.more (snd (set_intr_status st s)) = kernel.more s"
  by (simp_all add: set_value_def set_intr_status_eq cli_def sti_def)

lemma sema_down_wait_passes: "sema_value s P \<noteq> 0 \<Longrightarrow> sema_down_wait P s = Ok () s"
  by (simp add: sema_down_wait_def)

lemma sema_down_take_ok:
  assumes "sema_rep s T sp P r rs ws 1 on"
  shows "\<exists>t. sema_down_take st P s = Ok () t \<and> sema_rep t T sp P r rs ws 0 (st = INTR_ON) \<and> same_lock s t"
proof -
  have "sema_value s P = 1" using assms by (rule sema_repD(9))
  then have "sema_down_take st P s = Ok () (snd (set_intr_status st (set_value P 0 s)))"
    by (simp add: sema_down_take_def Let_def set_value_def)
  then show ?thesis
    using sema_rep_set_status [OF sema_rep_set_value [OF assms]] by simp
qed

lemma waiter_appended:
  assumes rep: "sema_rep s T sp P r rs ws 0 on"
  defines "u \<equiv> list_append (waiters P) (general_tag r) s"
  shows "sched_inv u T sp rs" and "dll u (waiters P) (map general_tag (ws @ [r]))"
proof -
  note R = sema_repD [OF rep] and I = sched_invD [OF sema_repD(1) [OF rep]] and A = sema_rep_apart [OF rep]
  have out: "general_tag r \<notin> foot (waiters P) (map general_tag ws)"
    using tag_outside [OF R(7) [OF A(4)] A(3)] .
  show "dll u (waiters P) (map general_tag (ws @ [r]))"
    unfolding u_def using kl.append_rep [OF R(4) out] by simp
  have "set (r # ws) \<inter> set rs = {}" using A(1,2) by auto
  then have "foot (thread_ready_list s) (map general_tag rs) \<inter> foot (waiters P) (map general_tag (r # ws)) = {}"
    using A(4,5) R(5) by (intro A(6)) auto
  then have "dll u (thread_ready_list s) (map general_tag rs)"
    unfolding u_def using kl.append_frame [OF R(4) I(1), of "general_tag r"] by (simp add: Int_commute)
  then show "sched_inv u T sp rs"
    by (rule sched_inv_frame [OF R(1)]) (simp_all add: u_def)
qed

lemma sema_down_wait_blocks:
  assumes rep: "sema_rep s T sp P r (n # rs) ws 0 False"
  shows "\<exists>t. sema_down_wait P s = Blocked t \<and> sema_rep t T sp P n rs (ws @ [r]) 0 False \<and> same_lock s t"
proof -
  note R = sema_repD [OF rep] and A = sema_rep_apart [OF rep]
  let ?u = "list_append (waiters P) (general_tag r) s"
  note W = waiter_appended [OF rep]
  have run: "running_thread ?u = r" using R(2) by (simp add: running_thread_def)
  obtain ts where t: "thread_block TASK_BLOCKED ?u = Blocked (yielded TASK_BLOCKED n (sp n) ts ?u)"
      "sched_inv (yielded TASK_BLOCKED n (sp n) ts ?u) T sp rs"
      "running_thread (yielded TASK_BLOCKED n (sp n) ts ?u) = n"
    using thread_block_yields [OF W(1), of TASK_BLOCKED] by auto
  let ?t = "yielded TASK_BLOCKED n (sp n) ts ?u"
  have "set rs \<inter> set (ws @ [r]) = {}" "n \<notin> set ws" "n \<noteq> r" "n \<in> T" "set rs \<subseteq> T"
    using A(1,2,5) by auto
  then have d: "dll ?t (waiters P) (map general_tag (ws @ [r]))"
    using A(4) A(6) [of rs "ws @ [r]"] R(5) by (intro yielded_frame [OF W]) simp
  have st: "status (tasks ?t n) = TASK_RUNNING"
    by (simp add: yielded_def switch_to_tasks)
  have "status (tasks ?t x) = TASK_BLOCKED \<longleftrightarrow> x \<in> set (ws @ [r])" if "x \<in> T" for x
    using that R(8) [OF that] yielded_status [of x n TASK_BLOCKED "sp n" ts ?u] run \<open>n \<notin> set ws\<close> \<open>n \<noteq> r\<close> st
    by (cases "x = n") auto
  then have "sema_rep ?t T sp P n rs (ws @ [r]) 0 False"
    unfolding sema_rep_def using t(2,3) st d R A(4) by auto
  moreover have "sema_down_wait P s = Blocked ?t"
    using node_find_dll [OF R(4), of "general_tag r"] A(3) t(1) R(2,9)
    by (simp add: sema_down_wait_def Let_def inj_image_mem_iff inj_general_tag)
  ultimately show ?thesis by auto
qed

lemma sema_down_effect:
  assumes rep: "sema_rep s T sp P r rs ws v on"
  shows "v = 1 \<Longrightarrow> \<exists>t. sema_down P s = Ok () t \<and> sema_rep t T sp P r rs ws 0 on \<and> same_lock s t"
    and "v = 0 \<Longrightarrow> rs = n # ns \<Longrightarrow>
      \<exists>t. sema_down P s = Blocked t \<and> sema_rep t T sp P n ns (ws @ [r]) 0 False \<and> same_lock s t"
proof -
  have on: "on \<longleftrightarrow> get_intr_status s = INTR_ON" using sema_repD(10) [OF rep] by auto
  have c: "sema_rep (cli s) T sp P r rs ws v False" using rep on by (simp add: sema_rep_flags)
  show "\<exists>t. sema_down P s = Ok () t \<and> sema_rep t T sp P r rs ws 0 on \<and> same_lock s t" if "v = 1"
    using sema_down_take_ok [of "cli s" T sp P r rs ws False "get_intr_status s"] c on that
      sema_repD(9) [OF c] by (simp add: sema_down_def intr_disable_eq sema_down_wait_passes)
  show "\<exists>t. sema_down P s = Blocked t \<and> sema_rep t T sp P n ns (ws @ [r]) 0 False \<and> same_lock s t"
    if "v = 0" "rs = n # ns"
    using sema_down_wait_blocks [of "cli s" T sp P r n ns ws] c that
    by (auto simp: sema_down_def intr_disable_eq)
qed

lemma sema_down_resume_effect:
  assumes rep: "sema_rep s T sp P r rs ws v False"
  shows "v = 1 \<Longrightarrow> \<exists>t. sema_down_resume INTR_ON P s = Ok () t \<and> sema_rep t T sp P r rs ws 0 True \<and> same_lock s t"
    and "v = 0 \<Longrightarrow> rs = n # ns \<Longrightarrow>
      \<exists>t. sema_down_resume INTR_ON P s = Blocked t \<and> sema_rep t T sp P n ns (ws @ [r]) 0 False \<and> same_lock s t"
proof -
  have e: "thread_block_resume INTR_OFF s = s"
    using sema_repD(10) [OF rep] by (simp add: thread_block_resume_def set_intr_status_eq cli_id)
  show "\<exists>t. sema_down_resume INTR_ON P s = Ok () t \<and> sema_rep t T sp P r rs ws 0 True \<and> same_lock s t" if "v = 1"
    using sema_down_take_ok [of s T sp P r rs ws False INTR_ON] rep that sema_repD(9) [OF rep]
    by (simp add: sema_down_resume_def e sema_down_wait_passes)
  show "\<exists>t. sema_down_resume INTR_ON P s = Blocked t \<and> sema_rep t T sp P n ns (ws @ [r]) 0 False \<and> same_lock s t"
    if "v = 0" "rs = n # ns"
    using sema_down_wait_blocks [of s T sp P r n ns ws] rep that by (auto simp: sema_down_resume_def e)
qed

lemma sema_rep_woken:
  assumes rep: "sema_rep s T sp P r rs (w # ws) 0 False"
  defines "u \<equiv> woken w (snd (list_pop (waiters P) s))"
  shows "thread_unblock w (snd (list_pop (waiters P) s)) = Ok () u" and "sema_rep u T sp P r (w # rs) ws 0 False"
    and "same_lock s u"
proof -
  note R = sema_repD [OF rep] and A = sema_rep_apart [OF rep]
  let ?p = "snd (list_pop (waiters P) s)"
  have w: "w \<in> T" "w \<noteq> r" "w \<notin> set rs" "w \<notin> set ws"
    using R(5) A(1,3) dll_distinct [OF R(4)] by (auto simp: distinct_map)
  have wt: "dll s (waiters P) (general_tag w # map general_tag ws)" using R(4) by simp
  have "set rs \<inter> set ws = {}" "set ws \<subseteq> T" using A(1) R(5) by auto
  then have ready: "dll ?p (thread_ready_list s) (map general_tag rs)"
    using A(5) A(6) [of rs ws] sched_invD(1) [OF R(1)]
    by (intro kl.pop_frame [OF wt]) (simp_all add: Int_commute)
  have inv: "sched_inv ?p T sp rs"
    by (rule sched_inv_frame [OF R(1) ready]) simp_all
  have run: "running_thread ?p = r" using R(2) by (simp add: running_thread_def)
  have "status (tasks ?p w) = TASK_BLOCKED" using R(8) [OF w(1)] by simp
  then have "w \<noteq> running_thread ?p" "may_block (status (tasks ?p w))" using w(2) run by simp_all
  note U = thread_unblock_wakes [OF inv w(1) this]
  show "thread_unblock w ?p = Ok () u" "same_lock s u" using U(1) by (simp_all add: u_def)
  have "set (w # rs) \<inter> set ws = {}" using A(1) w by auto
  then have "dll u (waiters P) (map general_tag ws)"
    unfolding u_def using A(5) A(6) [of "w # rs" ws] w(1) \<open>set ws \<subseteq> T\<close>
    by (intro woken_frame [OF inv kl.pop_rep [OF wt]]) simp
  moreover have "status (tasks u x) = TASK_BLOCKED \<longleftrightarrow> x \<in> set ws" if "x \<in> T" for x
    using that R(8) [OF that] w(4) by (auto simp: u_def)
  moreover have "running_thread u = r" using R(2) by (simp add: u_def running_thread_def)
  ultimately show "sema_rep u T sp P r (w # rs) ws 0 False"
    unfolding sema_rep_def using U(2) R w(2) \<open>set ws \<subseteq> T\<close> by (simp add: u_def)
qed

lemma sema_up_effect:
  assumes rep: "sema_rep s T sp P r rs ws 0 on"
  shows "\<exists>t. sema_up P s = Ok () t \<and> same_lock s t \<and>
    (if ws = [] then sema_rep t T sp P r rs [] 1 on else sema_rep t T sp P r (hd ws # rs) (tl ws) 1 on)"
proof -
  have on: "on \<longleftrightarrow> get_intr_status s = INTR_ON" using sema_repD(10) [OF rep] by auto
  have c: "sema_rep (cli s) T sp P r rs ws 0 False" using rep on by (simp add: sema_rep_flags)
  note R = sema_repD [OF c]
  have fin: "\<exists>t. bind (Ok () u) (\<lambda>_ s.
        let s = set_value P (sema_value s P + 1) s in
        bind (ASSERT (sema_value s P = 1) (''thread/sync.c'', 55, ''sema_up'', ''psema->value == 1'') s)
          (\<lambda>_ s'. Ok () (snd (set_intr_status st s')))) = Ok () t \<and>
      same_lock u t \<and> sema_rep t T sp P r rs' ws' 1 (st = INTR_ON)"
    if "sema_rep u T sp P r rs' ws' 0 False" for u :: "'a kernel_scheme" and rs' ws' st
    using sema_rep_set_status [OF sema_rep_set_value [OF that, of 1]] sema_repD(9) [OF that]
    by (simp add: Let_def set_value_def)
  show ?thesis
  proof (cases ws)
    case Nil
    then show ?thesis
      using fin [of "cli s" rs "[]" "get_intr_status s"] c on R(9) list_empty_dll [OF R(4)]
      by (simp add: sema_up_def intr_disable_eq)
  next
    case (Cons w ws')
    let ?p = "list_pop (waiters P) (cli s)"
    have W: "thread_unblock w (snd ?p) = Ok () (woken w (snd ?p))"
        "sema_rep (woken w (snd ?p)) T sp P r (w # rs) ws' 0 False" "same_lock (cli s) (woken w (snd ?p))"
      using sema_rep_woken [of "cli s" T sp P r rs w ws'] c Cons by auto
    have "fst ?p = general_tag w" using kl.pop_fst [of "cli s" "waiters P"] R(4) Cons by simp
    then show ?thesis
      using fin [OF W(2), of "get_intr_status s"] W(1,3) on R(9) list_empty_dll [OF R(4)] Cons
      by (auto simp: sema_up_def intr_disable_eq split_beta)
  qed
qed

section \<open>Preemption of a thread that uses a semaphore\<close>

lemma preempt_effect:
  assumes rep: "sema_rep s T sp P r rs ws v True"
  shows "\<exists>t. schedule (cli s) = Ok () t \<and> same_lock s t \<and>
    sema_rep t T sp P (hd (rs @ [r])) (tl (rs @ [r])) ws v False"
proof -
  obtain n ys where ys: "rs @ [r] = n # ys" by (cases "rs @ [r]") auto
  have "sema_rep (cli s) T sp P r rs ws v False"
    using rep sema_repD(10) [OF rep] by (simp add: sema_rep_flags)
  note R = sema_repD [OF this] and A = sema_rep_apart [OF this]
  note S = schedule_running_eq [OF R(1) _ R(2) [symmetric] R(3) ys]
  obtain ts where ts: "schedule (cli s) = Ok () (switch_to r n (dispatched n (sp n) ts (requeued (cli s))))"
      "sched_inv (switch_to r n (dispatched n (sp n) ts (requeued (cli s)))) T sp ys"
      "running_thread (switch_to r n (dispatched n (sp n) ts (requeued (cli s)))) = n"
    using S(2) by auto
  let ?t = "switch_to r n (dispatched n (sp n) ts (requeued (cli s)))"
  have sets: "set (n # ys) = insert r (set rs)" unfolding ys [symmetric] by simp
  have "n \<in> insert r (set rs)" "set ys \<subseteq> insert r (set rs)" unfolding sets [symmetric] by auto
  then have sub: "n \<notin> set ws" "set ys \<inter> set ws = {}" "set ys \<subseteq> T" using A(1,3,4,5) by auto
  have "dll (requeued (cli s)) (waiters P) (map general_tag ws)"
    using kl.append_frame [OF sched_invD(1) [OF R(1)] R(4), of "general_tag r"] A R(2,5)
      A(6) [of "r # rs" ws] by simp
  then have d: "dll ?t (waiters P) (map general_tag ws)"
    using switched_frame [of "requeued (cli s)" n ys] S(1) A(6) [of ys ws] R(5) sub by simp
  have "status (tasks ?t x) = TASK_BLOCKED \<longleftrightarrow> x \<in> set ws" if "x \<in> T" for x
    using that R(2,3) R(8) [OF that] sub(1) A(3) by (auto simp: switch_to_tasks)
  then have "sema_rep ?t T sp P n ys ws v False"
    unfolding sema_rep_def using ts(2,3) d R by (simp add: switch_to_tasks)
  then show ?thesis unfolding ys using ts(1) by simp
qed

section \<open>The monitor\<close>

text \<open>
  Where a thread stands in its use of the lock: outside; past the test of the holder, about to call
  \<open>sema_down\<close>; put to sleep in \<open>sema_down\<close>; back from \<open>sema_down\<close>; with its name in the
  holder field; inside the critical section; past the tests of the last \<open>lock_release\<close>; past the reset of the holder; past the reset of the
  counter, about to call \<open>sema_up\<close>.
\<close>

datatype pc = Outside | Entering | Asleep | Took | Named | Inside | Last | Cleared | Leaving

fun owns :: "pc \<Rightarrow> bool" where
  "owns Took = True" | "owns Named = True" | "owns Inside = True" | "owns Last = True" | "owns Cleared = True"
| "owns Leaving = True" | "owns _ = False"

record monitor =
  m_run :: u32
  m_ready :: "u32 list"
  m_wait :: "u32 list"
  m_value :: u8
  m_holder :: u32
  m_repeat :: u32
  m_on :: bool
  m_pc :: "u32 \<Rightarrow> pc"

text \<open>After a switch the next thread returns from its interrupt with interrupts on, except that a
  thread that slept in \<open>sema_down\<close> goes on there with interrupts off.\<close>

definition m_switch :: "u32 \<Rightarrow> u32 list \<Rightarrow> monitor \<Rightarrow> monitor" where
  "m_switch n rs m = m\<lparr>m_run := n, m_ready := rs, m_on := (m_pc m n \<noteq> Asleep)\<rparr>"

definition m_goto :: "pc \<Rightarrow> monitor \<Rightarrow> monitor" where
  "m_goto p m = m\<lparr>m_pc := (m_pc m)(m_run m := p)\<rparr>"

inductive abs_step :: "monitor \<Rightarrow> monitor \<Rightarrow> bool" where
  a_test: "m_pc m (m_run m) = Outside \<Longrightarrow> m_holder m \<noteq> m_run m \<Longrightarrow> abs_step m (m_goto Entering m)"
| a_again: "m_pc m (m_run m) = Inside \<Longrightarrow> m_holder m = m_run m \<Longrightarrow> m_repeat m \<noteq> - 1 \<Longrightarrow>
    abs_step m (m\<lparr>m_repeat := m_repeat m + 1\<rparr>)"
| a_take: "m_pc m (m_run m) \<in> {Entering, Asleep} \<Longrightarrow> m_value m = 1 \<Longrightarrow>
    abs_step m ((m_goto Took m)\<lparr>m_value := 0, m_on := True\<rparr>)"
| a_sleep: "m_pc m (m_run m) \<in> {Entering, Asleep} \<Longrightarrow> m_value m = 0 \<Longrightarrow> m_ready m = n # rs \<Longrightarrow>
    abs_step m (m_switch n rs ((m_goto Asleep m)\<lparr>m_wait := m_wait m @ [m_run m]\<rparr>))"
| a_name: "m_pc m (m_run m) = Took \<Longrightarrow> abs_step m ((m_goto Named m)\<lparr>m_holder := m_run m\<rparr>)"
| a_count: "m_pc m (m_run m) = Named \<Longrightarrow> m_repeat m = 0 \<Longrightarrow> abs_step m ((m_goto Inside m)\<lparr>m_repeat := 1\<rparr>)"
| a_nested: "m_pc m (m_run m) = Inside \<Longrightarrow> m_repeat m > 1 \<Longrightarrow> abs_step m (m\<lparr>m_repeat := m_repeat m - 1\<rparr>)"
| a_last: "m_pc m (m_run m) = Inside \<Longrightarrow> m_repeat m = 1 \<Longrightarrow> abs_step m (m_goto Last m)"
| a_clear: "m_pc m (m_run m) = Last \<Longrightarrow> abs_step m ((m_goto Cleared m)\<lparr>m_holder := NULL\<rparr>)"
| a_reset: "m_pc m (m_run m) = Cleared \<Longrightarrow> abs_step m ((m_goto Leaving m)\<lparr>m_repeat := 0\<rparr>)"
| a_up: "m_pc m (m_run m) = Leaving \<Longrightarrow> m_value m = 0 \<Longrightarrow>
    abs_step m ((m_goto Outside m)\<lparr>m_value := 1, m_ready := take 1 (m_wait m) @ m_ready m, m_wait := tl (m_wait m)\<rparr>)"
| a_preempt: "m_on m \<Longrightarrow> abs_step m (m_switch (hd (m_ready m @ [m_run m])) (tl (m_ready m @ [m_run m])) m)"

section \<open>The invariant of the monitor\<close>

definition queues_ok :: "u32 set \<Rightarrow> monitor \<Rightarrow> bool" where
  "queues_ok T m \<longleftrightarrow> distinct (m_run m # m_ready m @ m_wait m) \<and> set (m_run m # m_ready m @ m_wait m) = T \<and>
     (\<forall>t\<in>set (m_wait m). m_pc m t = Asleep) \<and> (m_on m \<longleftrightarrow> m_pc m (m_run m) \<noteq> Asleep)"

fun repeat_ok :: "pc \<Rightarrow> u32 \<Rightarrow> bool" where
  "repeat_ok Inside n \<longleftrightarrow> n \<noteq> 0"
| "repeat_ok Last n \<longleftrightarrow> n = 1"
| "repeat_ok Cleared n \<longleftrightarrow> n = 1"
| "repeat_ok _ n \<longleftrightarrow> n = 0"

fun owner_ok :: "u32 set \<Rightarrow> monitor \<Rightarrow> u32 option \<Rightarrow> bool" where
  "owner_ok T m None \<longleftrightarrow> m_value m = 1 \<and> m_holder m = NULL \<and> m_repeat m = 0 \<and> (\<forall>t\<in>T. \<not> owns (m_pc m t)) \<and>
     (m_wait m \<noteq> [] \<longrightarrow> (\<exists>t\<in>set (m_run m # m_ready m). m_pc m t = Asleep))"
| "owner_ok T m (Some u) \<longleftrightarrow> m_value m = 0 \<and> u \<in> T \<and> owns (m_pc m u) \<and> (\<forall>t\<in>T - {u}. \<not> owns (m_pc m t)) \<and>
     m_holder m = (if m_pc m u \<in> {Named, Inside, Last} then u else NULL) \<and> repeat_ok (m_pc m u) (m_repeat m)"

definition m_inv :: "u32 set \<Rightarrow> monitor \<Rightarrow> bool" where
  "m_inv T m \<longleftrightarrow> NULL \<notin> T \<and> queues_ok T m \<and> (\<exists>ow. owner_ok T m ow)"

lemma queues_run: "queues_ok T m \<Longrightarrow> m_run m \<in> T"
  by (auto simp: queues_ok_def)

lemma owner_unique: "owner_ok T m ow \<Longrightarrow> a \<in> T \<Longrightarrow> owns (m_pc m a) \<Longrightarrow> ow = Some a"
  by (cases ow) auto

lemma owner_runs:
  assumes "owner_ok T m ow" and "m_run m \<in> T" and "owns (m_pc m (m_run m))"
  shows "ow = Some (m_run m)"
  using assms by (cases ow) auto

lemma queues_goto:
  assumes "queues_ok T m" and "m_pc m (m_run m) \<noteq> Asleep" and "p \<noteq> Asleep"
  shows "queues_ok T (m_goto p m)"
  using assms by (auto simp: queues_ok_def m_goto_def)

lemmas monitor_defs = m_goto_def m_switch_def

lemma owner_goto_outside:
  assumes "owner_ok T m ow" and "m_pc m (m_run m) = Outside" and "m_run m \<in> T"
  shows "owner_ok T (m_goto Entering m) ow"
  using assms by (cases ow) (auto simp: m_goto_def, force)

lemma rot_set: "set (hd (xs @ [x]) # tl (xs @ [x])) = set (x # xs)"
  "distinct (hd (xs @ [x]) # tl (xs @ [x]) @ ys) = distinct (x # xs @ ys)"
  by (cases xs; auto)+

lemma m_inv_take:
  assumes "m_inv T m" and "m_pc m (m_run m) \<in> {Entering, Asleep}" and "m_value m = 1"
  shows "m_inv T ((m_goto Took m)\<lparr>m_value := 0, m_on := True\<rparr>)"
proof -
  let ?m = "(m_goto Took m)\<lparr>m_value := 0, m_on := True\<rparr>"
  obtain ow where q: "NULL \<notin> T" "queues_ok T m" "owner_ok T m ow" using assms(1) by (auto simp: m_inv_def)
  have "owner_ok T m None" using q(3) assms(3) by (cases ow) auto
  then have "owner_ok T ?m (Some (m_run m))"
    using queues_run [OF q(2)] by (auto simp: m_goto_def)
  moreover have "queues_ok T ?m" using q(2) by (auto simp: queues_ok_def m_goto_def)
  ultimately show ?thesis using q(1) unfolding m_inv_def by blast
qed

lemma m_inv_sleep:
  assumes "m_inv T m" and "m_pc m (m_run m) \<in> {Entering, Asleep}" and "m_value m = 0" and "m_ready m = n # rs"
  shows "m_inv T (m_switch n rs ((m_goto Asleep m)\<lparr>m_wait := m_wait m @ [m_run m]\<rparr>))"
proof -
  let ?m = "m_switch n rs ((m_goto Asleep m)\<lparr>m_wait := m_wait m @ [m_run m]\<rparr>)"
  obtain u where q: "NULL \<notin> T" "queues_ok T m" "owner_ok T m (Some u)"
    using assms(1,3) unfolding m_inv_def by (metis owner_ok.simps(1) option.exhaust zero_neq_one)
  have "u \<noteq> m_run m" using q(3) assms(2) by auto
  then have "owner_ok T ?m (Some u)"
    using q(3) assms(2) by (auto simp: m_goto_def m_switch_def)
  moreover have "queues_ok T ?m" using q(2) assms(4) by (auto simp: queues_ok_def monitor_defs)
  ultimately show ?thesis using q(1) unfolding m_inv_def by blast
qed

lemma m_inv_up:
  assumes "m_inv T m" and "m_pc m (m_run m) = Leaving" and "m_value m = 0"
  shows "m_inv T ((m_goto Outside m)\<lparr>m_value := 1, m_ready := take 1 (m_wait m) @ m_ready m, m_wait := tl (m_wait m)\<rparr>)"
proof -
  let ?m = "(m_goto Outside m)\<lparr>m_value := 1, m_ready := take 1 (m_wait m) @ m_ready m, m_wait := tl (m_wait m)\<rparr>"
  obtain ow where q: "NULL \<notin> T" "queues_ok T m" "owner_ok T m ow" using assms(1) by (auto simp: m_inv_def)
  have "owner_ok T m (Some (m_run m))"
    using owner_runs [OF q(3) queues_run [OF q(2)]] assms(2) q(3) by simp
  then have "owner_ok T ?m None"
    using q(2) assms(2) by (cases "m_wait m") (auto simp: m_goto_def queues_ok_def)
  moreover have "queues_ok T ?m" using q(2) assms(2) by (cases "m_wait m") (auto simp: queues_ok_def m_goto_def)
  ultimately show ?thesis using q(1) unfolding m_inv_def by blast
qed

text \<open>A step of the owner that stays the owner.\<close>

lemma m_inv_owner_step:
  assumes "m_inv T m" and "owns (m_pc m (m_run m))" and "owns p"
    and "m' = (m_goto p m)\<lparr>m_holder := (if p \<in> {Named, Inside, Last} then m_run m else NULL), m_repeat := k\<rparr>"
    and "repeat_ok p k"
  shows "m_inv T m'"
proof -
  obtain ow where q: "NULL \<notin> T" "queues_ok T m" "owner_ok T m ow" using assms(1) by (auto simp: m_inv_def)
  have "owner_ok T m (Some (m_run m))"
    using owner_runs [OF q(3) queues_run [OF q(2)]] assms(2) q(3) by simp
  then have "owner_ok T m' (Some (m_run m))"
    using assms(3,5) unfolding assms(4) by (simp add: m_goto_def)
  moreover have "queues_ok T m'"
    using q(2) assms(2-4) by (auto simp: queues_ok_def m_goto_def)
  ultimately show ?thesis using q(1) unfolding m_inv_def by blast
qed

lemma m_inv_switch:
  assumes "m_inv T m" and s: "set (n # rs) = set (m_run m # m_ready m)" and d: "distinct (n # rs @ m_wait m)"
  shows "m_inv T (m_switch n rs m)"
proof -
  obtain ow where q: "NULL \<notin> T" "queues_ok T m" "owner_ok T m ow" using assms(1) by (auto simp: m_inv_def)
  have "owner_ok T (m_switch n rs m) ow"
    using q(3) s by (cases ow) (simp_all add: m_switch_def set_eq_iff, metis)
  moreover have "T = set (m_run m # m_ready m) \<union> set (m_wait m)"
    using q(2) by (auto simp: queues_ok_def)
  then have "T = set (n # rs @ m_wait m)" unfolding s [symmetric] by simp
  then have "queues_ok T (m_switch n rs m)"
    using q(2) d by (simp add: queues_ok_def m_switch_def)
  ultimately show ?thesis using q(1) unfolding m_inv_def by blast
qed

lemma owner_fields:
  assumes "m_inv T m" and "owns (m_pc m (m_run m))"
  shows "m_holder m = (if m_pc m (m_run m) \<in> {Named, Inside, Last} then m_run m else NULL)"
    and "repeat_ok (m_pc m (m_run m)) (m_repeat m)" and "m_value m = 0"
proof -
  obtain ow where q: "queues_ok T m" "owner_ok T m ow" using assms(1) by (auto simp: m_inv_def)
  have "ow = Some (m_run m)" using owner_runs [OF q(2) queues_run [OF q(1)] assms(2)] .
  then show "m_holder m = (if m_pc m (m_run m) \<in> {Named, Inside, Last} then m_run m else NULL)"
    "repeat_ok (m_pc m (m_run m)) (m_repeat m)" "m_value m = 0" using q(2) by auto
qed

lemma m_inv_owner_move:
  assumes inv: "m_inv T m" and p: "owns (m_pc m (m_run m))" "owns p"
    and h: "m_holder m' = (if p \<in> {Named, Inside, Last} then m_run m else NULL)" and k: "repeat_ok p (m_repeat m')"
    and m': "m' = (m_goto p m)\<lparr>m_holder := m_holder m', m_repeat := m_repeat m'\<rparr>"
  shows "m_inv T m'"
  using m_inv_owner_step [OF inv p m' [unfolded h] k] .

lemma m_stay_inside:
  assumes "m_pc m (m_run m) = Inside" and "m_holder m = m_run m"
  shows "(m_goto Inside m)\<lparr>m_holder := m_run m, m_repeat := k\<rparr> = m\<lparr>m_repeat := k\<rparr>"
proof -
  have "(m_pc m)(m_run m := Inside) = m_pc m" using assms(1) by (rule fun_upd_idem)
  then show ?thesis using assms(2) by (cases m) (simp add: m_goto_def)
qed

lemma m_inv_step:
  assumes "abs_step m m'" and "m_inv T m"
  shows "m_inv T m'"
  using assms
proof (induction rule: abs_step.induct)
  case (a_test m)
  then obtain ow where q: "NULL \<notin> T" "queues_ok T m" "owner_ok T m ow" by (auto simp: m_inv_def)
  then show ?case
    using queues_goto [OF q(2)] owner_goto_outside [OF q(3) _ queues_run [OF q(2)]] a_test
    by (auto simp: m_inv_def)
next
  case (a_preempt m)
  then have "distinct (m_run m # m_ready m @ m_wait m)" by (simp add: m_inv_def queues_ok_def)
  then show ?case
    by - (rule m_inv_switch [OF a_preempt(2)], simp_all only: rot_set)
next
  case (a_again m)
  moreover have "m_repeat m + 1 \<noteq> 0" using a_again(3) by (simp add: eq_neg_iff_add_eq_0)
  ultimately show ?case
    using m_stay_inside [OF a_again(1,2)] by - (rule m_inv_owner_move [of T m Inside], simp_all)
next
  case (a_nested m)
  moreover have "m_repeat m - 1 \<noteq> 0" using a_nested(2) by auto
  moreover have "m_holder m = m_run m" using owner_fields(1) [OF a_nested(3)] a_nested(1) by simp
  ultimately show ?case
    using m_stay_inside [OF a_nested(1)] by - (rule m_inv_owner_move [of T m Inside], simp_all)
next
  case (a_name m)
  then show ?case
    using owner_fields(2) [OF a_name(2)] by - (rule m_inv_owner_move [of T m Named], auto simp: m_goto_def)
next
  case (a_count m)
  then show ?case
    using owner_fields(1) [OF a_count(3)] by - (rule m_inv_owner_move [of T m Inside], auto simp: m_goto_def)
next
  case (a_last m)
  then show ?case
    using owner_fields(1) [OF a_last(3)] by - (rule m_inv_owner_move [of T m Last], auto simp: m_goto_def)
next
  case (a_clear m)
  then show ?case
    using owner_fields(2) [OF a_clear(2)] by - (rule m_inv_owner_move [of T m Cleared], auto simp: m_goto_def)
next
  case (a_reset m)
  then show ?case
    using owner_fields(1) [OF a_reset(2)] by - (rule m_inv_owner_move [of T m Leaving], auto simp: m_goto_def)
qed (rule m_inv_take m_inv_sleep m_inv_up; simp)+

interpretation mon: invariant_system abs_step "m_inv T" for T
  by unfold_locales (rule m_inv_step)

section \<open>Threads against one lock\<close>

text \<open>
  What the running thread does next at position \<open>p\<close>: the routines of the lock cut where the timer may
  interrupt. \<open>again\<close> tells whether a thread inside the critical section acquires the lock once
  more or releases it.
\<close>

fun lock_stmt :: "u32 \<Rightarrow> bool \<Rightarrow> pc \<Rightarrow> 'e kernel_scheme \<Rightarrow> (pc, 'e kernel_scheme) res" where
  "lock_stmt L again Outside s =
     (if lock_holder s L \<noteq> running_thread s then Ok Entering s
      else Ok Outside (set_repeat L (lock_repeat s L + 1) s))"
| "lock_stmt L again Entering s = bind (sema_down (semaphore L) s) (\<lambda>_ s. Ok Took s)"
| "lock_stmt L again Asleep s = bind (sema_down_resume INTR_ON (semaphore L) s) (\<lambda>_ s. Ok Took s)"
| "lock_stmt L again Took s = Ok Named (set_holder L (running_thread s) s)"
| "lock_stmt L again Named s = bind (lock_count L s) (\<lambda>_ s. Ok Inside s)"
| "lock_stmt L again Inside s =
     (if again
      then if lock_holder s L \<noteq> running_thread s then Ok Entering s
           else Ok Inside (set_repeat L (lock_repeat s L + 1) s)
      else bind (lock_leave L s) (\<lambda>last s. Ok (if last then Last else Inside) s))"
| "lock_stmt L again Last s = Ok Cleared (set_holder L NULL s)"
| "lock_stmt L again Cleared s = Ok Leaving (set_repeat L 0 s)"
| "lock_stmt L again Leaving s = bind (sema_up (semaphore L) s) (\<lambda>_ s. Ok Outside s)"

text \<open>The statements in sequence are the routines.\<close>

lemma lock_acquire_stmts:
  "lock_acquire L s =
     bind (lock_stmt L again Outside s) (\<lambda>p s. if p = Outside then Ok () s else
     bind (lock_stmt L again Entering s) (\<lambda>_ s. bind (lock_stmt L again Took s) (\<lambda>_ s.
     bind (lock_stmt L again Named s) (\<lambda>_ s. Ok () s))))"
  by (simp add: lock_acquire_def lock_acquired_def res_bind_assoc Let_def lock_count_def)

lemma lock_release_stmts:
  "lock_release L s =
     bind (lock_stmt L False Inside s) (\<lambda>p s. if p = Inside then Ok () s else
     bind (lock_stmt L False Last s) (\<lambda>_ s. bind (lock_stmt L False Cleared s) (\<lambda>_ s.
     bind (lock_stmt L False Leaving s) (\<lambda>_ s. Ok () s))))"
  unfolding lock_release_def
  by (rule trans [OF arg_cong2 [where f = bind, OF refl]])
    (auto simp: res_bind_assoc Let_def fun_eq_iff)

definition resumed :: "(u32 \<Rightarrow> pc) \<Rightarrow> 'e kernel_scheme \<Rightarrow> 'e kernel_scheme" where
  "resumed p s = (if p (running_thread s) = Asleep then s else sti s)"

inductive lock_step ::
    "u32 \<Rightarrow> 'e kernel_scheme \<times> (u32 \<Rightarrow> pc) \<Rightarrow> 'e kernel_scheme \<times> (u32 \<Rightarrow> pc) \<Rightarrow> bool" for L where
  l_run: "lock_stmt L again (p (running_thread s)) s = Ok q t \<Longrightarrow> again \<longrightarrow> lock_repeat s L \<noteq> - 1 \<Longrightarrow>
    lock_step L (s, p) (t, p(running_thread s := q))"
| l_block: "lock_stmt L again (p (running_thread s)) s = Blocked t \<Longrightarrow> again \<longrightarrow> lock_repeat s L \<noteq> - 1 \<Longrightarrow>
    p' = p(running_thread s := Asleep) \<Longrightarrow>
    lock_step L (s, p) (resumed p' t, p')"
| l_preempt: "get_intr_status s = INTR_ON \<Longrightarrow> schedule (cli s) = Ok () t \<Longrightarrow>
    lock_step L (s, p) (resumed p t, p)"


section \<open>The kernel refines the monitor\<close>

definition mon_rep ::
    "u32 set \<Rightarrow> (u32 \<Rightarrow> u32) \<Rightarrow> u32 \<Rightarrow> 'e kernel_scheme \<times> (u32 \<Rightarrow> pc) \<Rightarrow> monitor \<Rightarrow> bool" where
  "mon_rep T sp L c m \<longleftrightarrow>
     sema_rep (fst c) T sp (semaphore L) (m_run m) (m_ready m) (m_wait m) (m_value m) (m_on m) \<and>
     lock_holder (fst c) L = m_holder m \<and> lock_repeat (fst c) L = m_repeat m \<and> snd c = m_pc m"

lemma sema_rep_lock_fields [simp]:
  "sema_rep (set_holder L h s) T sp P r rs ws v on = sema_rep s T sp P r rs ws v on"
  "sema_rep (set_repeat L k s) T sp P r rs ws v on = sema_rep s T sp P r rs ws v on"
proof -
  have "sched_inv (set_holder L h s) T sp rs = sched_inv s T sp rs"
    using spaces_cong [of "set_holder L h s" s T sp] by (simp add: sched_inv_def set_holder_def running_thread_def)
  then show "sema_rep (set_holder L h s) T sp P r rs ws v on = sema_rep s T sp P r rs ws v on"
    by (simp add: sema_rep_def set_holder_def running_thread_def get_intr_status_def)
  have "sched_inv (set_repeat L k s) T sp rs = sched_inv s T sp rs"
    using spaces_cong [of "set_repeat L k s" s T sp] by (simp add: sched_inv_def set_repeat_def running_thread_def)
  then show "sema_rep (set_repeat L k s) T sp P r rs ws v on = sema_rep s T sp P r rs ws v on"
    by (simp add: sema_rep_def set_repeat_def running_thread_def get_intr_status_def)
qed

lemma set_lock_fields [simp]:
  "lock_holder (set_holder L h s) = (lock_holder s)(L := h)" "lock_repeat (set_holder L h s) = lock_repeat s"
  "lock_repeat (set_repeat L k s) = (lock_repeat s)(L := k)" "lock_holder (set_repeat L k s) = lock_holder s"
  by (simp_all add: set_holder_def set_repeat_def)

lemma mon_rep_run: "mon_rep T sp L (s, p) m \<Longrightarrow> running_thread s = m_run m"
  by (simp add: mon_rep_def sema_rep_def)

text \<open>A thread that has to wait is never alone: the owner is in the ready list.\<close>

lemma waiting_not_alone:
  assumes "m_inv T m" and "m_value m \<noteq> 1" and "\<not> owns (m_pc m (m_run m))"
  shows "m_value m = 0" and "\<exists>n rs. m_ready m = n # rs"
proof -
  obtain ow where q: "queues_ok T m" "owner_ok T m ow" using assms(1) by (auto simp: m_inv_def)
  then obtain u where u: "ow = Some u" "m_value m = 0" "u \<in> T" "owns (m_pc m u)"
    using assms(2) by (cases ow) auto
  then show "m_value m = 0" by simp
  have "u \<notin> set (m_wait m)" "u \<noteq> m_run m" using q(1) u(4) assms(3) by (auto simp: queues_ok_def)
  then have "u \<in> set (m_ready m)" using q(1) u(3) by (auto simp: queues_ok_def)
  then show "\<exists>n rs. m_ready m = n # rs" by (cases "m_ready m") auto
qed

lemma mon_rep_resumed:
  assumes "sema_rep t T sp (semaphore L) n rs (m_wait m) (m_value m) False"
    and "lock_holder t L = m_holder m" and "lock_repeat t L = m_repeat m" and "p = m_pc m"
  shows "mon_rep T sp L (resumed p t, p) (m_switch n rs m)"
proof -
  have "get_intr_status t = INTR_OFF" "running_thread t = n" using assms(1) by (simp_all add: sema_rep_def)
  then have "sema_rep (sti t) T sp (semaphore L) n rs (m_wait m) (m_value m) True"
    using assms(1) by (simp add: sema_rep_flags)
  then show ?thesis
    using assms \<open>running_thread t = n\<close> by (simp add: mon_rep_def resumed_def m_switch_def)
qed

text \<open>The statement due in a state of the monitor returns or blocks, and is a step of the monitor.\<close>

definition stmt_ok ::
    "u32 set \<Rightarrow> (u32 \<Rightarrow> u32) \<Rightarrow> u32 \<Rightarrow> (u32 \<Rightarrow> pc) \<Rightarrow> monitor \<Rightarrow> (pc, 'e kernel_scheme) res \<Rightarrow> bool" where
  "stmt_ok T sp L p m out \<longleftrightarrow>
     (case out of
        Ok q t \<Rightarrow> \<exists>m'. abs_step m m' \<and> mon_rep T sp L (t, p(m_run m := q)) m'
      | Blocked t \<Rightarrow> \<exists>m'. abs_step m m' \<and>
          mon_rep T sp L (resumed (p(m_run m := Asleep)) t, p(m_run m := Asleep)) m'
      | _ \<Rightarrow> False)"

lemma stmt_okI:
  assumes "abs_step m m'" and "mon_rep T sp L (t, p(m_run m := q)) m'"
  shows "stmt_ok T sp L p m (Ok q t)"
  using assms by (auto simp: stmt_ok_def)

lemma stmt_ok_take:
  assumes rep: "mon_rep T sp L (s, p) m" and pc: "m_pc m (m_run m) \<in> {Entering, Asleep}" and v: "m_value m = 1"
    and t: "sema_rep t T sp (semaphore L) (m_run m) (m_ready m) (m_wait m) 0 True" "same_lock s t"
  shows "stmt_ok T sp L p m (Ok Took t)"
  using a_take [OF pc v] by (rule stmt_okI) (use rep t in \<open>simp add: mon_rep_def m_goto_def\<close>)

lemma stmt_ok_sleep:
  assumes rep: "mon_rep T sp L (s, p) m" and pc: "m_pc m (m_run m) \<in> {Entering, Asleep}" and v: "m_value m = 0"
    and ready: "m_ready m = n # rs"
    and t: "sema_rep t T sp (semaphore L) n rs (m_wait m @ [m_run m]) 0 False" "same_lock s t"
  shows "stmt_ok T sp L p m (Blocked t)"
proof -
  let ?m = "(m_goto Asleep m)\<lparr>m_wait := m_wait m @ [m_run m]\<rparr>"
  have "mon_rep T sp L (resumed (p(m_run m := Asleep)) t, p(m_run m := Asleep)) (m_switch n rs ?m)"
    using rep t v by (intro mon_rep_resumed) (simp_all add: mon_rep_def m_goto_def)
  then show ?thesis using a_sleep [OF pc v ready] by (auto simp: stmt_ok_def)
qed

lemma stmt_ok_down:
  assumes rep: "mon_rep T sp L (s, p) m" and inv: "m_inv T m" and pc: "p (m_run m) \<in> {Entering, Asleep}"
  shows "stmt_ok T sp L p m (lock_stmt L again (p (m_run m)) s)"
proof -
  have R: "sema_rep s T sp (semaphore L) (m_run m) (m_ready m) (m_wait m) (m_value m) (m_on m)"
    and p: "p = m_pc m" using rep by (simp_all add: mon_rep_def)
  have on: "m_on m \<longleftrightarrow> p (m_run m) \<noteq> Asleep" using inv p by (simp add: m_inv_def queues_ok_def)
  have R': "sema_rep s T sp (semaphore L) (m_run m) (m_ready m) (m_wait m) (m_value m) False"
    if "p (m_run m) = Asleep" using R on that by simp
  show ?thesis
  proof (cases "m_value m = 1")
    case True
    from pc consider "p (m_run m) = Entering" | "p (m_run m) = Asleep" by auto
    then show ?thesis
    proof cases
      case 1
      then obtain t where "sema_down (semaphore L) s = Ok () t" "same_lock s t"
          "sema_rep t T sp (semaphore L) (m_run m) (m_ready m) (m_wait m) 0 True"
        using sema_down_effect(1) [OF R True] on by auto
      then show ?thesis using stmt_ok_take [OF rep _ True] 1 p by simp
    next
      case 2
      then obtain t where "sema_down_resume INTR_ON (semaphore L) s = Ok () t" "same_lock s t"
          "sema_rep t T sp (semaphore L) (m_run m) (m_ready m) (m_wait m) 0 True"
        using sema_down_resume_effect(1) [OF R' [OF 2] True] by auto
      then show ?thesis using stmt_ok_take [OF rep _ True] 2 p by simp
    qed
  next
    case False
    obtain n rs where z: "m_value m = 0" "m_ready m = n # rs"
      using waiting_not_alone [OF inv False] pc p by auto
    from pc consider "p (m_run m) = Entering" | "p (m_run m) = Asleep" by auto
    then show ?thesis
    proof cases
      case 1
      then obtain t where "sema_down (semaphore L) s = Blocked t" "same_lock s t"
          "sema_rep t T sp (semaphore L) n rs (m_wait m @ [m_run m]) 0 False"
        using sema_down_effect(2) [OF R z] by auto
      then show ?thesis using stmt_ok_sleep [OF rep _ z] 1 p by simp
    next
      case 2
      then obtain t where "sema_down_resume INTR_ON (semaphore L) s = Blocked t" "same_lock s t"
          "sema_rep t T sp (semaphore L) n rs (m_wait m @ [m_run m]) 0 False"
        using sema_down_resume_effect(2) [OF R' [OF 2] z] by auto
      then show ?thesis using stmt_ok_sleep [OF rep _ z] 2 p by simp
    qed
  qed
qed

lemma stmt_ok_up:
  assumes rep: "mon_rep T sp L (s, p) m" and inv: "m_inv T m" and pc: "p (m_run m) = Leaving"
  shows "stmt_ok T sp L p m (lock_stmt L again (p (m_run m)) s)"
proof -
  have p: "m_pc m (m_run m) = Leaving" using rep pc by (simp add: mon_rep_def)
  have v: "m_value m = 0" using owner_fields(3) [OF inv] p by simp
  have "sema_rep s T sp (semaphore L) (m_run m) (m_ready m) (m_wait m) 0 (m_on m)"
    using rep v by (simp add: mon_rep_def)
  from sema_up_effect [OF this] obtain t where t: "sema_up (semaphore L) s = Ok () t" "same_lock s t"
    "sema_rep t T sp (semaphore L) (m_run m) (take 1 (m_wait m) @ m_ready m) (tl (m_wait m)) 1 (m_on m)"
    by (cases "m_wait m") auto
  show ?thesis
    unfolding pc using a_up [OF p v] rep t by (auto simp: stmt_ok_def mon_rep_def m_goto_def)
qed

lemma stmt_ok_inside:
  assumes rep: "mon_rep T sp L (s, p) m" and inv: "m_inv T m" and pc: "p (m_run m) = Inside"
    and again: "again \<longrightarrow> lock_repeat s L \<noteq> - 1"
  shows "stmt_ok T sp L p m (lock_stmt L again (p (m_run m)) s)"
proof -
  note run = mon_rep_run [OF rep]
  have p: "m_pc m (m_run m) = Inside" "lock_repeat s L = m_repeat m" "lock_holder s L = m_holder m"
    "p(m_run m := Inside) = m_pc m" "p(m_run m := Last) = (m_pc m)(m_run m := Last)"
    using rep pc by (auto simp: mon_rep_def)
  have h: "m_holder m = m_run m" and k: "m_repeat m \<noteq> 0" using owner_fields(1,2) [OF inv] p(1) by simp_all
  show ?thesis
  proof (cases again)
    case True
    then show ?thesis
      unfolding pc using a_again [OF p(1) h] again rep run p h by (auto simp: stmt_ok_def mon_rep_def)
  next
    case False
    show ?thesis
    proof (cases "m_repeat m > 1")
      case True
      then show ?thesis
        unfolding pc using a_nested [OF p(1) True] \<open>\<not> again\<close> rep run p h
        by (auto simp: stmt_ok_def mon_rep_def lock_leave_def)
    next
      case False
      then have one: "m_repeat m = 1" using k by (simp add: word_less_nat_alt word_unat_eq_iff)
      then show ?thesis
        unfolding pc using a_last [OF p(1) one] \<open>\<not> again\<close> rep run p h
        by (auto simp: stmt_ok_def mon_rep_def lock_leave_def m_goto_def)
    qed
  qed
qed

lemma stmt_ok_all:
  assumes rep: "mon_rep T sp L (s, p) m" and inv: "m_inv T m" and again: "again \<longrightarrow> lock_repeat s L \<noteq> - 1"
  shows "stmt_ok T sp L p m (lock_stmt L again (p (m_run m)) s)"
proof -
  note run = mon_rep_run [OF rep]
  have p: "p = m_pc m" using rep by (simp add: mon_rep_def)
  show ?thesis
  proof (cases "p (m_run m)")
    case Outside
    then have "\<not> owns (m_pc m (m_run m))" using p by simp
    then have h: "m_holder m \<noteq> m_run m"
      using inv queues_run [of T m] unfolding m_inv_def by (metis owner_ok.elims(2) owns.simps(2-4) insert_iff empty_iff)
    show ?thesis
      unfolding Outside using a_test [OF _ h] Outside p rep run h by (auto simp: stmt_ok_def mon_rep_def m_goto_def)
  next
    case Took
    show ?thesis
      unfolding Took using a_name [of m] Took p rep run by (auto simp: stmt_ok_def mon_rep_def m_goto_def)
  next
    case Named
    have k: "m_repeat m = 0" using owner_fields(2) [OF inv] Named p by simp
    show ?thesis
      unfolding Named using a_count [OF _ k] Named p rep k
      by (auto simp: stmt_ok_def mon_rep_def m_goto_def lock_count_def)
  next
    case Last
    show ?thesis
      unfolding Last using a_clear [of m] Last p rep by (auto simp: stmt_ok_def mon_rep_def m_goto_def)
  next
    case Cleared
    show ?thesis
      unfolding Cleared using a_reset [of m] Cleared p rep by (auto simp: stmt_ok_def mon_rep_def m_goto_def)
  next
    case Inside
    show ?thesis by (rule stmt_ok_inside [OF rep inv Inside again])
  next
    case Leaving
    show ?thesis by (rule stmt_ok_up [OF rep inv Leaving])
  qed (rule stmt_ok_down [OF rep inv]; simp)+
qed

lemma preempt_sim:
  assumes rep: "mon_rep T sp L (s, p) m" and on: "get_intr_status s = INTR_ON"
  shows "\<exists>t m'. schedule (cli s) = Ok () t \<and> abs_step m m' \<and> mon_rep T sp L (resumed p t, p) m'"
proof -
  have R: "sema_rep s T sp (semaphore L) (m_run m) (m_ready m) (m_wait m) (m_value m) (m_on m)"
    using rep by (simp add: mon_rep_def)
  have m: "m_on m" using sema_repD(10) [OF R] on by (simp split: if_splits)
  then obtain t where t: "schedule (cli s) = Ok () t" "same_lock s t"
      "sema_rep t T sp (semaphore L) (hd (m_ready m @ [m_run m])) (tl (m_ready m @ [m_run m])) (m_wait m) (m_value m) False"
    using preempt_effect [of s T sp "semaphore L" "m_run m" "m_ready m" "m_wait m" "m_value m"] R by auto
  have "mon_rep T sp L (resumed p t, p) (m_switch (hd (m_ready m @ [m_run m])) (tl (m_ready m @ [m_run m])) m)"
    using t rep by (intro mon_rep_resumed) (simp_all add: mon_rep_def)
  then show ?thesis using t(1) a_preempt [OF m] by blast
qed

lemma lock_step_sim:
  assumes "mon_rep T sp L c m" and "m_inv T m" and "lock_step L c c'"
  shows "\<exists>m'. abs_step m m' \<and> mon_rep T sp L c' m'"
  using assms(3)
proof (cases rule: lock_step.cases)
  case (l_run again p s q t)
  note rep = assms(1) [unfolded l_run(1)]
  show ?thesis
    using stmt_ok_all [OF rep assms(2) l_run(4)] l_run mon_rep_run [OF rep] by (auto simp: stmt_ok_def)
next
  case (l_block again p s t p')
  note rep = assms(1) [unfolded l_block(1)]
  show ?thesis
    using stmt_ok_all [OF rep assms(2) l_block(4)] l_block mon_rep_run [OF rep] by (auto simp: stmt_ok_def)
next
  case (l_preempt s t p)
  then show ?thesis using preempt_sim [OF assms(1) [unfolded l_preempt(1)] l_preempt(3)] by auto
qed

interpretation lock: simulation abs_step "m_inv T" "lock_step L" "mon_rep T sp L" for T sp L
  by unfold_locales (rule lock_step_sim)

section \<open>Properties\<close>

text \<open>The lock as \<open>lock_init\<close> leaves it, with no thread inside.\<close>

definition lock_fresh :: "u32 set \<Rightarrow> (u32 \<Rightarrow> u32) \<Rightarrow> u32 \<Rightarrow> 'e kernel_scheme \<Rightarrow> bool" where
  "lock_fresh T sp L s \<longleftrightarrow>
     (\<exists>rs. sema_rep s T sp (semaphore L) (running_thread s) rs [] 1 True \<and> T = insert (running_thread s) (set rs)) \<and>
     lock_holder s L = NULL \<and> lock_repeat s L = 0"

lemma fresh_monitor:
  assumes "lock_fresh T sp L s"
  shows "\<exists>m. mon_rep T sp L (s, \<lambda>_. Outside) m \<and> m_inv T m"
proof -
  obtain rs where rs: "sema_rep s T sp (semaphore L) (running_thread s) rs [] 1 True"
      "T = insert (running_thread s) (set rs)" using assms by (auto simp: lock_fresh_def)
  note I = sched_invD [OF sema_repD(1) [OF rs(1)]]
  let ?m = "\<lparr>m_run = running_thread s, m_ready = rs, m_wait = [], m_value = 1, m_holder = NULL,
     m_repeat = 0, m_on = True, m_pc = \<lambda>_. Outside\<rparr>"
  have "owner_ok T ?m None" by simp
  moreover have "queues_ok T ?m" using I(3,6) rs(2) by (auto simp: queues_ok_def)
  moreover have "NULL \<notin> T" using I(7) by auto
  ultimately have "m_inv T ?m" unfolding m_inv_def by blast
  moreover have "mon_rep T sp L (s, \<lambda>_. Outside) ?m" using rs assms by (simp add: mon_rep_def lock_fresh_def)
  ultimately show ?thesis by blast
qed

lemma lock_reach:
  assumes "lock_fresh T sp L s" and "(lock_step L)\<^sup>*\<^sup>* (s, \<lambda>_. Outside) (t, p)"
  obtains m where "mon_rep T sp L (t, p) m" and "m_inv T m"
  using fresh_monitor [OF assms(1)] lock.reach_sim [OF assms(2)] by blast

text \<open>The lock when nobody waits: the routines return at once.\<close>

definition locked :: "u32 \<Rightarrow> 'e kernel_scheme \<Rightarrow> 'e kernel_scheme" where
  "locked L s = set_repeat L 1 (set_holder L (running_thread s) (set_value (semaphore L) 0 s))"

definition unlocked :: "u32 \<Rightarrow> 'e kernel_scheme \<Rightarrow> 'e kernel_scheme" where
  "unlocked L s = set_value (semaphore L) 1 (set_repeat L 0 (set_holder L NULL s))"

lemma restore_set_value:
  "snd (set_intr_status (get_intr_status s) (set_value P v (cli s))) = set_value P v s"
proof -
  have "snd (set_intr_status (get_intr_status s) (set_value P v (cli s))) =
      set_value P v (snd (set_intr_status (get_intr_status s) (cli s)))"
    by (simp add: set_intr_status_eq set_value_def cli_def sti_def)
  then show ?thesis
    using intr.set_status_restores [of s] by (simp add: intr_disable_eq)
qed

lemma sema_down_free: "sema_value s P = 1 \<Longrightarrow> sema_down P s = Ok () (set_value P 0 s)"
  by (simp add: sema_down_def intr_disable_eq sema_down_wait_def sema_down_take_def Let_def
      restore_set_value [of s P 0, symmetric]) (simp add: set_value_def)

lemma sema_up_free:
  "sema_value s P = 0 \<Longrightarrow> list_empty (waiters P) s \<Longrightarrow> sema_up P s = Ok () (set_value P 1 s)"
  by (simp add: sema_up_def intr_disable_eq Let_def restore_set_value [of s P 1, symmetric])
    (simp add: set_value_def list_empty_def cli_def)

lemma lock_acquire_free:
  assumes "sema_value s (semaphore L) = 1" and "lock_holder s L \<noteq> running_thread s" and "lock_repeat s L = 0"
  shows "lock_acquire L s = Ok () (locked L s)"
proof -
  have "running_thread (set_value P v s) = running_thread s" for P v
    by (simp add: set_value_def running_thread_def)
  then show ?thesis
    using assms by (simp add: lock_acquire_def sema_down_free lock_acquired_def lock_count_def locked_def Let_def)
qed

lemma lock_release_free:
  assumes "sema_value s (semaphore L) = 0" and "lock_holder s L = running_thread s" and "lock_repeat s L = 1"
    and "list_empty (waiters (semaphore L)) s"
  shows "lock_release L s = Ok () (unlocked L s)"
proof -
  let ?s = "set_repeat L 0 (set_holder L NULL s)"
  have "sema_value ?s = sema_value s" "list_empty l ?s = list_empty l s" for l
    by (simp_all add: set_repeat_def set_holder_def list_empty_def)
  then show ?thesis
    using assms sema_up_free [of ?s "semaphore L"]
    by (simp add: lock_release_def lock_leave_def unlocked_def)
qed

lemma lock_enter:
  assumes "sema_value s (semaphore L) = 1" and "lock_holder s L \<noteq> running_thread s" and "lock_repeat s L = 0"
    and "p (running_thread s) = Outside"
  shows "(lock_step L)\<^sup>*\<^sup>* (s, p) (locked L s, p(running_thread s := Inside))"
proof -
  let ?r = "running_thread s"
  let ?a = "set_value (semaphore L) 0 s"
  let ?b = "set_holder L ?r ?a"
  have r: "running_thread ?a = ?r" "running_thread ?b = ?r"
    by (simp_all add: set_value_def set_holder_def running_thread_def)
  have "lock_step L (s, p) (s, p(?r := Entering))"
    using assms by (intro l_run [of L False]) simp_all
  moreover have "lock_step L (s, p(?r := Entering)) (?a, (p(?r := Entering))(?r := Took))"
    using sema_down_free [OF assms(1)] by (intro l_run [of L False]) simp_all
  moreover have "lock_step L (?a, p(?r := Took)) (?b, (p(?r := Took))(running_thread ?a := Named))"
    using r by (intro l_run [of L False]) simp_all
  moreover have "lock_step L (?b, p(?r := Named)) (locked L s, (p(?r := Named))(running_thread ?b := Inside))"
    using r assms(3) by (intro l_run [of L False]) (simp_all add: lock_count_def locked_def)
  ultimately show ?thesis
    using r by (simp add: converse_rtranclp_into_rtranclp)
qed

section \<open>Taking and giving back a lock in one go\<close>

lemma lock_acquire_takes:
  assumes rep: "sema_rep s T sp (semaphore L) r rs ws 1 on" and "lock_holder s L \<noteq> r" and "lock_repeat s L = 0"
  shows "\<exists>t. lock_acquire L s = Ok () t \<and> sema_rep t T sp (semaphore L) r rs ws 0 on \<and>
    lock_holder t L = r \<and> lock_repeat t L = 1 \<and> screen t = screen s \<and> mem t = mem s \<and> kernel.more t = kernel.more s
    \<and> addr_of t = addr_of s"
proof -
  have fr: "lock_acquire L s = Ok () (locked L s)"
    using sema_repD(2,9) [OF rep] assms(2,3) by (intro lock_acquire_free) simp_all
  have "sema_rep (set_value (semaphore L) 0 s) T sp (semaphore L) r rs ws 0 on"
    using rep by (rule sema_rep_set_value)
  then have "sema_rep (locked L s) T sp (semaphore L) r rs ws 0 on"
    by (simp add: locked_def)
  then show ?thesis
    using fr sema_repD(2) [OF rep] by (auto simp: locked_def set_repeat_def set_holder_def set_value_def)
qed

lemma lock_release_gives:
  assumes rep: "sema_rep s T sp (semaphore L) r rs ws 0 on" and "lock_holder s L = r" and "lock_repeat s L = 1"
  shows "\<exists>t. lock_release L s = Ok () t \<and> lock_holder t L = NULL \<and> lock_repeat t L = 0 \<and>
    screen t = screen s \<and> mem t = mem s \<and> kernel.more t = kernel.more s \<and>
    (if ws = [] then sema_rep t T sp (semaphore L) r rs [] 1 on
     else sema_rep t T sp (semaphore L) r (hd ws # rs) (tl ws) 1 on)"
proof -
  let ?u = "set_repeat L 0 (set_holder L NULL s)"
  have "sema_rep ?u T sp (semaphore L) r rs ws 0 on"
    using rep by simp
  from sema_up_effect [OF this] obtain t where t: "sema_up (semaphore L) ?u = Ok () t" "same_lock ?u t"
    "if ws = [] then sema_rep t T sp (semaphore L) r rs [] 1 on
     else sema_rep t T sp (semaphore L) r (hd ws # rs) (tl ws) 1 on" by blast
  have "lock_release L s = Ok () t"
    using t(1) assms sema_repD(2) [OF rep] by (simp add: lock_release_def lock_leave_def)
  then show ?thesis
    using t(2,3) by (auto simp: set_repeat_def set_holder_def)
qed

lemma lock_acquire_waits:
  assumes rep: "sema_rep s T sp (semaphore L) r (n # rs) ws 0 on" and "lock_holder s L \<noteq> r"
  shows "\<exists>t. lock_acquire L s = Blocked t \<and> sema_rep t T sp (semaphore L) n rs (ws @ [r]) 0 False \<and> same_lock s t"
  using sema_down_effect(2) [OF rep refl refl] assms(2) sema_repD(2) [OF rep]
  by (auto simp: lock_acquire_def)

lemma sched_inv_cong:
  assumes "node_prev t = node_prev s" "node_next t = node_next s" "tasks t = tasks s" "esp t = esp s"
    "addr_of t = addr_of s" "phys t = phys s" "cr3 t = cr3 s"
  shows "sched_inv t T sp rs = sched_inv s T sp rs"
proof -
  have "dll t l xs = dll s l xs" for l xs using assms(1,2) by (simp add: dll_def)
  moreover have "spaces t T sp = spaces s T sp" using assms by (intro spaces_cong) simp_all
  moreover have "running_thread t = running_thread s" using assms by (simp add: running_thread_def)
  ultimately show ?thesis using assms by (simp add: sched_inv_def)
qed

lemma sema_rep_cong:
  assumes "node_prev t = node_prev s" "node_next t = node_next s" "tasks t = tasks s" "esp t = esp s"
    "addr_of t = addr_of s" "phys t = phys s" "cr3 t = cr3 s" "sema_value t P = sema_value s P" "eflags t = eflags s"
  shows "sema_rep t T sp P r rs ws v on = sema_rep s T sp P r rs ws v on"
proof -
  have "dll t l xs = dll s l xs" for l xs using assms(1,2) by (simp add: dll_def)
  moreover have "running_thread t = running_thread s" using assms by (simp add: running_thread_def)
  moreover have "sched_inv t T sp rs = sched_inv s T sp rs" using assms by (intro sched_inv_cong) simp_all
  ultimately show ?thesis using assms by (simp add: sema_rep_def get_intr_status_def)
qed

lemma lock_init_rep:
  assumes inv: "sched_inv s T sp rs" and T: "T = insert (running_thread s) (set rs)"
    and run: "status (tasks s (running_thread s)) = TASK_RUNNING" and on: "get_intr_status s = INTR_ON"
    and w: "w = waiters (semaphore L)" and apart: "foot (thread_ready_list s) (map general_tag (running_thread s # rs)) \<inter> foot w [] = {}"
  shows "sema_rep (lock_init L s) T sp (semaphore L) (running_thread s) rs [] 1 True"
    and "lock_holder (lock_init L s) L = NULL" and "lock_repeat (lock_init L s) L = 0"
proof -
  let ?a = "set_value (semaphore L) 1 (set_repeat L 0 (set_holder L NULL s))"
  have e: "lock_init L s = list_init w ?a"
    by (simp add: lock_init_def sema_init_def w Let_def)
  note I = sched_invD [OF inv]
  have d: "dll ?a (thread_ready_list s) (map general_tag rs)"
    using I(1) by (simp add: set_value_def set_repeat_def set_holder_def)
  have "dll (lock_init L s) (thread_ready_list s) (map general_tag rs)"
    unfolding e using apart by (intro list_init_frame [OF d]) (auto simp: span_def)
  then have "sched_inv (lock_init L s) T sp rs"
    unfolding e by (intro sched_inv_frame [OF inv]) (simp_all add: set_value_def set_repeat_def set_holder_def)
  moreover have "dll (lock_init L s) w []" unfolding e by (rule list_init_dll)
  moreover have r: "running_thread (lock_init L s) = running_thread s"
    by (simp add: e set_value_def set_repeat_def set_holder_def running_thread_def)
  moreover have "tasks (lock_init L s) = tasks s" "addr_of (lock_init L s) = addr_of s"
    "sema_value (lock_init L s) (semaphore L) = 1"
    "lock_holder (lock_init L s) L = NULL" "lock_repeat (lock_init L s) L = 0"
    by (simp_all add: e set_value_def set_repeat_def set_holder_def)
  moreover have "get_intr_status (lock_init L s) = get_intr_status s"
    unfolding e by (simp add: set_value_def set_repeat_def set_holder_def) (simp add: get_intr_status_def)
  moreover have "general_tag t \<notin> foot w [] \<and> status (tasks s t) \<noteq> TASK_BLOCKED" if "t \<in> T" for t
    using that I(8) [OF that] run apart [unfolded foot_tags] T by auto
  moreover have "foot (thread_ready_list s) [] \<inter> foot w [] = {}" using apart unfolding foot_tags by blast
  ultimately show "sema_rep (lock_init L s) T sp (semaphore L) (running_thread s) rs [] 1 True"
    and "lock_holder (lock_init L s) L = NULL" and "lock_repeat (lock_init L s) L = 0"
    unfolding sema_rep_def using on run w by auto
qed

definition demo_lock :: kernel where "demo_lock = lock_init 0xc0003020 (sti demo_kernel)"

lemma demo_lock_rep_at:
  assumes "foot 0xc0003000 (map general_tag [0xc009e000, 0xc0100000, 0xc0101000]) \<inter> foot (waiters (semaphore L)) [] = {}"
  shows "sema_rep (lock_init L (sti demo_kernel)) demo_threads demo_dirs (semaphore L) 0xc009e000
    [0xc0100000, 0xc0101000] [] 1 True"
proof -
  let ?rs = "[0xc0100000, 0xc0101000] :: u32 list"
  have r: "running_thread (sti demo_kernel) = 0xc009e000" by (simp add: running_thread_def)
  have "sema_rep (lock_init L (sti demo_kernel)) demo_threads demo_dirs (semaphore L)
      (running_thread (sti demo_kernel)) ?rs [] 1 True"
  proof (rule lock_init_rep(1) [OF _ _ _ _ refl])
    show "sched_inv (sti demo_kernel) demo_threads demo_dirs ?rs"
      using demo_sched_inv by (simp add: sched_inv_flags)
    show "status (tasks (sti demo_kernel) (running_thread (sti demo_kernel))) = TASK_RUNNING"
      unfolding r by (simp add: demo_tasks_def zero_task_def)
    show "demo_threads = insert (running_thread (sti demo_kernel)) (set ?rs)"
      unfolding r by simp
    show "foot (thread_ready_list (sti demo_kernel)) (map general_tag (running_thread (sti demo_kernel) # ?rs)) \<inter>
        foot (waiters (semaphore L)) [] = {}"
      unfolding r using assms by simp
  qed simp
  then show ?thesis by (simp add: r)
qed

lemma demo_lock_rep:
  "sema_rep demo_lock demo_threads demo_dirs (semaphore 0xc0003020) 0xc009e000 [0xc0100000, 0xc0101000] [] 1 True"
  unfolding demo_lock_def by (rule demo_lock_rep_at) (simp add: span_def general_tag_def)

lemma demo_lock_fields:
  "sema_value demo_lock 0xc0003024 = 1" "lock_holder demo_lock 0xc0003020 = NULL"
  "lock_repeat demo_lock 0xc0003020 = 0" "running_thread demo_lock = 0xc009e000"
  by (simp_all add: demo_lock_def lock_init_def sema_init_def set_value_def set_repeat_def set_holder_def
      running_thread_def Let_def)

lemma demo_lock_fresh: "lock_fresh demo_threads demo_dirs 0xc0003020 demo_lock"
  using demo_lock_rep demo_lock_fields by (auto simp: lock_fresh_def intro!: exI [of _ "[0xc0100000, 0xc0101000]"])

abbreviation demo_inside :: "u32 \<Rightarrow> pc" where "demo_inside \<equiv> (\<lambda>_. Outside)(0xc009e000 := Inside)"

lemma demo_lock_reach:
  "(lock_step 0xc0003020)\<^sup>*\<^sup>* (demo_lock, \<lambda>_. Outside) (locked 0xc0003020 demo_lock, demo_inside)"
  using lock_enter [of demo_lock "0xc0003020" "\<lambda>_. Outside"] demo_lock_fields by simp

text \<open>C1: mutual exclusion. However the threads are preempted and whatever they have done with the lock,
  at most one of them is between the return of \<open>sema_down\<close> and the call of \<open>sema_up\<close>; one that is
  in the critical section is the holder the lock names.\<close>

theorem lock_mutual_exclusion:
  assumes "lock_fresh T sp L s" and "(lock_step L)\<^sup>*\<^sup>* (s, \<lambda>_. Outside) (t, p)"
    and "a \<in> T" and "b \<in> T" and "p a = Inside" and "owns (p b)"
  shows "a = b \<and> lock_holder t L = a \<and> lock_repeat t L \<noteq> 0"
proof -
  obtain m where m: "mon_rep T sp L (t, p) m" "m_inv T m" using lock_reach [OF assms(1,2)] .
  then obtain ow where o: "owner_ok T m ow" "p = m_pc m" by (auto simp: m_inv_def mon_rep_def)
  have "owns (m_pc m a)" "owns (m_pc m b)" using assms(5,6) o(2) by simp_all
  then have "ow = Some a" "ow = Some b" using owner_unique [OF o(1)] assms(3,4) by auto
  then show ?thesis using o assms(5) m(1) by (simp add: mon_rep_def)
qed

theorem lock_mutual_exclusion_witness:
  "(0xc009e000 :: u32) = 0xc009e000 \<and> lock_holder (locked 0xc0003020 demo_lock) 0xc0003020 = 0xc009e000 \<and>
   lock_repeat (locked 0xc0003020 demo_lock) 0xc0003020 \<noteq> 0"
  by (rule lock_mutual_exclusion [OF demo_lock_fresh demo_lock_reach]) simp_all

text \<open>C4: in no reachable state does a routine of the lock stop the kernel: whatever the running thread
  does next with the lock returns or blocks, although there is no idle thread, and a timer
  interrupt finds a thread to run. (The repetition counter must not be at its maximum when the lock is
  acquired once more.)\<close>

theorem lock_never_panics:
  assumes "lock_fresh T sp L s" and "(lock_step L)\<^sup>*\<^sup>* (s, \<lambda>_. Outside) (t, p)"
    and "again \<longrightarrow> lock_repeat t L \<noteq> - 1"
  shows "((\<exists>q u. lock_stmt L again (p (running_thread t)) t = Ok q u) \<or>
          (\<exists>u. lock_stmt L again (p (running_thread t)) t = Blocked u)) \<and>
         (get_intr_status t = INTR_OFF \<or> returns (schedule (cli t)))"
proof -
  obtain m where m: "mon_rep T sp L (t, p) m" "m_inv T m" using lock_reach [OF assms(1,2)] .
  have "stmt_ok T sp L p m (lock_stmt L again (p (running_thread t)) t)"
    using stmt_ok_all [OF m assms(3)] mon_rep_run [OF m(1)] by simp
  then show ?thesis
    using preempt_sim [OF m(1)]
    by (cases "get_intr_status t") (auto simp: stmt_ok_def returns_iff split: res.splits)
qed

theorem lock_never_panics_witness:
  "((\<exists>q u. lock_stmt 0xc0003020 True (demo_inside (running_thread (locked 0xc0003020 demo_lock)))
            (locked 0xc0003020 demo_lock) = Ok q u) \<or>
    (\<exists>u. lock_stmt 0xc0003020 True (demo_inside (running_thread (locked 0xc0003020 demo_lock)))
            (locked 0xc0003020 demo_lock) = Blocked u)) \<and>
   (get_intr_status (locked 0xc0003020 demo_lock) = INTR_OFF \<or>
    returns (schedule (cli (locked 0xc0003020 demo_lock))))"
  by (rule lock_never_panics [OF demo_lock_fresh demo_lock_reach]) (simp add: locked_def)

text \<open>C3: no wake-up is lost: whenever the semaphore of the lock is free and threads are in its waiter
  list, one of the threads that went to sleep has been taken off the list and is ready to run or
  running, and it will test the semaphore.\<close>

theorem lock_no_lost_wakeup:
  assumes "lock_fresh T sp L s" and "(lock_step L)\<^sup>*\<^sup>* (s, \<lambda>_. Outside) (t, p)"
    and "sema_value t (semaphore L) = 1" and "\<not> list_empty (waiters (semaphore L)) t"
  shows "\<exists>a. a \<in> T \<and> p a = Asleep \<and> status (tasks t a) \<in> {TASK_READY, TASK_RUNNING}"
proof -
  obtain m where m: "mon_rep T sp L (t, p) m" "m_inv T m" using lock_reach [OF assms(1,2)] .
  then obtain ow where o: "owner_ok T m ow" "queues_ok T m" "p = m_pc m" by (auto simp: m_inv_def mon_rep_def)
  have R: "sema_rep t T sp (semaphore L) (m_run m) (m_ready m) (m_wait m) (m_value m) (m_on m)"
    using m(1) by (simp add: mon_rep_def)
  have "m_value m = 1" using sema_repD(9) [OF R] assms(3) by simp
  moreover have "m_wait m \<noteq> []" using list_empty_dll [OF sema_repD(4) [OF R]] assms(4) by auto
  ultimately obtain a where a: "a \<in> set (m_run m # m_ready m)" "p a = Asleep"
    using o(1,3) by (cases ow) auto
  then have "a \<in> T" using o(2) by (auto simp: queues_ok_def)
  moreover have "status (tasks t a) \<in> {TASK_READY, TASK_RUNNING}"
    using a(1) sema_repD(3) [OF R] sched_invD(8) [OF sema_repD(1) [OF R] \<open>a \<in> T\<close>] by auto
  ultimately show ?thesis using a(2) by blast
qed

lemma blocks_on_lock:
  assumes rep: "sema_rep s T sp (semaphore L) r (n # rs) ws 0 True" and "lock_holder s L \<noteq> r"
    and "p r = Outside" and "p n \<noteq> Asleep"
  shows "\<exists>t. (lock_step L)\<^sup>*\<^sup>* (s, p) (t, p(r := Asleep)) \<and>
    sema_rep t T sp (semaphore L) n rs (ws @ [r]) 0 True \<and> same_lock s t"
proof -
  note R = sema_repD [OF rep] and A = sema_rep_apart [OF rep]
  obtain t where t: "sema_down (semaphore L) s = Blocked t" "same_lock s t"
      "sema_rep t T sp (semaphore L) n rs (ws @ [r]) 0 False"
    using sema_down_effect(2) [OF rep refl refl] by auto
  have "lock_step L (s, p) (s, p(r := Entering))"
    using assms(2,3) R(2) l_run [of L False p s] by auto
  moreover have "lock_step L (s, p(r := Entering)) (resumed (p(r := Asleep)) t, p(r := Asleep))"
    using t(1) R(2) l_block [of L False "p(r := Entering)" s t "p(r := Asleep)"] by simp
  moreover have "resumed (p(r := Asleep)) t = sti t"
    using sema_repD(2) [OF t(3)] assms(4) A(2) by (auto simp: resumed_def)
  moreover have "sema_rep (sti t) T sp (semaphore L) n rs (ws @ [r]) 0 True"
    using t(3) sema_repD(10) [OF t(3)] by (simp add: sema_rep_flags)
  ultimately show ?thesis
    using t(2) by (intro exI [of _ "sti t"]) (auto intro: converse_rtranclp_into_rtranclp)
qed

lemma preempted_inside:
  assumes rep: "sema_rep s T sp (semaphore L) r (n # rs) ws v True" and "p n \<noteq> Asleep"
  shows "\<exists>t. lock_step L (s, p) (t, p) \<and> sema_rep t T sp (semaphore L) n (rs @ [r]) ws v True \<and> same_lock s t"
proof -
  obtain t where t: "schedule (cli s) = Ok () t" "same_lock s t"
      "sema_rep t T sp (semaphore L) n (rs @ [r]) ws v False"
    using preempt_effect [OF rep] by auto
  have "lock_step L (s, p) (resumed p t, p)"
    using t(1) sema_repD(10) [OF rep] by (intro l_preempt) simp_all
  moreover have "resumed p t = sti t" using sema_repD(2) [OF t(3)] assms(2) by (simp add: resumed_def)
  moreover have "sema_rep (sti t) T sp (semaphore L) n (rs @ [r]) ws v True"
    using t(3) sema_repD(10) [OF t(3)] by (simp add: sema_rep_flags)
  ultimately show ?thesis using t(2) by (intro exI [of _ "sti t"]) simp
qed

lemma release_wakes:
  assumes rep: "sema_rep s T sp (semaphore L) r rs (w # ws) 0 True" and "lock_holder s L = r"
    and "lock_repeat s L = 1" and "p r = Inside"
  shows "\<exists>t. (lock_step L)\<^sup>*\<^sup>* (s, p) (t, p(r := Outside)) \<and> sema_rep t T sp (semaphore L) r (w # rs) ws 1 True"
proof -
  let ?a = "set_holder L NULL s"
  let ?b = "set_repeat L 0 ?a"
  have r: "running_thread s = r" "running_thread ?a = r" "running_thread ?b = r"
    using sema_repD(2) [OF rep] by (simp_all add: set_repeat_def set_holder_def running_thread_def)
  obtain t where t: "sema_up (semaphore L) ?b = Ok () t" "sema_rep t T sp (semaphore L) r (w # rs) ws 1 True"
    using sema_up_effect [of ?b T sp "semaphore L" r rs "w # ws" True] rep by auto
  have "lock_step L (s, p) (s, p(r := Last))"
    using l_run [of L False p s Last s] assms r by (simp add: lock_leave_def)
  moreover have "lock_step L (s, p(r := Last)) (?a, p(r := Cleared))"
    using l_run [of L False "p(r := Last)" s Cleared ?a] r by simp
  moreover have "lock_step L (?a, p(r := Cleared)) (?b, p(r := Leaving))"
    using l_run [of L False "p(r := Cleared)" ?a Leaving ?b] r by simp
  moreover have "lock_step L (?b, p(r := Leaving)) (t, p(r := Outside))"
    using l_run [of L False "p(r := Leaving)" ?b Outside t] r t(1) by simp
  ultimately show ?thesis using t(2) by (intro exI [of _ t]) (simp add: converse_rtranclp_into_rtranclp)
qed

text \<open>A contended run: the main thread takes the lock and is preempted, the two other threads block on
  it, and the main thread releases it.\<close>

lemma demo_contended:
  "\<exists>t p. (lock_step 0xc0003020)\<^sup>*\<^sup>* (demo_lock, \<lambda>_. Outside) (t, p) \<and> sema_value t (semaphore 0xc0003020) = 1 \<and>
     \<not> list_empty (waiters (semaphore 0xc0003020)) t"
proof -
  let ?L = "0xc0003020 :: u32" and ?M = "0xc009e000 :: u32" and ?A = "0xc0100000 :: u32" and ?B = "0xc0101000 :: u32"
  let ?rep = "\<lambda>s. sema_rep s demo_threads demo_dirs (semaphore ?L)"
  let ?s = "locked ?L demo_lock" and ?p = demo_inside
  have 1: "?rep ?s ?M [?A, ?B] [] 0 True" "lock_holder ?s ?L = ?M" "lock_repeat ?s ?L = 1"
    using sema_rep_set_value [OF demo_lock_rep, of 0] demo_lock_fields(4) by (simp_all add: locked_def)
  obtain t where 2: "lock_step ?L (?s, ?p) (t, ?p)" "?rep t ?A [?B, ?M] [] 0 True" "same_lock ?s t"
    using preempted_inside [OF 1(1), of ?p] by auto
  obtain u where 3: "(lock_step ?L)\<^sup>*\<^sup>* (t, ?p) (u, ?p(?A := Asleep))" "?rep u ?B [?M] [?A] 0 True" "same_lock ?s u"
    using blocks_on_lock [OF 2(2), of ?p] 1(2) 2(3) by auto
  obtain v where 4: "(lock_step ?L)\<^sup>*\<^sup>* (u, ?p(?A := Asleep)) (v, ?p(?A := Asleep, ?B := Asleep))"
      "?rep v ?M [] [?A, ?B] 0 True" "same_lock ?s v"
    using blocks_on_lock [OF 3(2), of "?p(?A := Asleep)"] 1(2) 3(3) by auto
  obtain w q where 5: "(lock_step ?L)\<^sup>*\<^sup>* (v, ?p(?A := Asleep, ?B := Asleep)) (w, q)" "?rep w ?M [?A] [?B] 1 True"
    using release_wakes [OF 4(2), of "?p(?A := Asleep, ?B := Asleep)"] 1 4(3) by auto
  have "(lock_step ?L)\<^sup>*\<^sup>* (demo_lock, \<lambda>_. Outside) (w, q)"
    using demo_lock_reach 2(1) 3(1) 4(1) 5(1) by (meson rtranclp.rtrancl_into_rtrancl rtranclp_trans)
  moreover have "sema_value w (semaphore ?L) = 1" using sema_repD(9) [OF 5(2)] .
  moreover have "\<not> list_empty (waiters (semaphore ?L)) w" using list_empty_dll [OF sema_repD(4) [OF 5(2)]] by simp
  ultimately show ?thesis by blast
qed

theorem lock_no_lost_wakeup_witness:
  "\<exists>t p. (lock_step 0xc0003020)\<^sup>*\<^sup>* (demo_lock, \<lambda>_. Outside) (t, p) \<and>
     sema_value t (semaphore 0xc0003020) = 1 \<and> \<not> list_empty (waiters (semaphore 0xc0003020)) t \<and>
     (\<exists>a. a \<in> demo_threads \<and> p a = Asleep \<and> status (tasks t a) \<in> {TASK_READY, TASK_RUNNING})"
  using demo_contended lock_no_lost_wakeup [OF demo_lock_fresh] by blast

end
