(* ===== verification/Timer.thy ===== *)
theory Timer
  imports Sync
begin

text \<open>
  The record \<open>device\<close> with the globals of the drivers under \<open>device/\<close> and of the system call table, and
  the clock, \<open>device/timer.c\<close>: \<open>set_frequency\<close>, \<open>init_timer\<close> and \<open>intr_timer_handler\<close>.

  The global counter \<open>ticks\<close> of \<open>timer.h\<close> is the field \<open>timer_ticks\<close> (a task has a field \<open>ticks\<close> of its
  own). \<open>port_in\<close> holds the byte a device presents at an input port. The ring buffers of
  \<open>device/ioqueue.h\<close> are found by their addresses, as the other structures are.
\<close>

section \<open>State of the devices\<close>

record device = kernel +
  timer_ticks :: u32
  port_in :: "u16 \<Rightarrow> u8"
  ctrl_status :: bool
  shift_status :: bool
  alt_status :: bool
  caps_lock_status :: bool
  ext_scancode :: bool
  ioq_producer :: "u32 \<Rightarrow> u32"
  ioq_consumer :: "u32 \<Rightarrow> u32"
  ioq_head :: "u32 \<Rightarrow> u32"
  ioq_tail :: "u32 \<Rightarrow> u32"
  syscall_table :: "u32 \<Rightarrow> u32"

definition inb :: "u16 \<Rightarrow> 'e device_scheme \<Rightarrow> u8" where
  "inb port s = port_in s port"

section \<open>Routines\<close>

definition IRQ0_FREQUENCY :: nat where "IRQ0_FREQUENCY = 100"
definition INPUT_FREQUENCY :: nat where "INPUT_FREQUENCY = 1193180"
definition COUNTER0_VALUE :: nat where "COUNTER0_VALUE = INPUT_FREQUENCY div IRQ0_FREQUENCY"
definition COUNTER0_PORT :: u8 where "COUNTER0_PORT = 0x40"
definition COUNTER0_NO :: u8 where "COUNTER0_NO = 0"
definition COUNTER0_MODE :: u8 where "COUNTER0_MODE = 2"
definition READ_WRITE_LATCH :: u8 where "READ_WRITE_LATCH = 3"
definition PIT_CONTROL_PORT :: u16 where "PIT_CONTROL_PORT = 0x43"

definition set_frequency ::
    "u8 \<Rightarrow> u8 \<Rightarrow> u8 \<Rightarrow> u8 \<Rightarrow> u16 \<Rightarrow> 'e machine_scheme \<Rightarrow> 'e machine_scheme" where
  "set_frequency counter_port counter_no rwl counter_mode counter_value s =
     (let s = outb PIT_CONTROL_PORT (push_bit 6 counter_no OR push_bit 4 rwl OR push_bit 1 counter_mode) s;
          s = outb (ucast counter_port) (ucast counter_value) s
      in outb (ucast counter_port) (ucast (drop_bit 8 counter_value)) s)"

definition init_timer :: "'e kernel_scheme \<Rightarrow> 'e kernel_scheme" where
  "init_timer s =
     (let s = put_str (ln ''timer_init start'') s;
          s = set_frequency COUNTER0_PORT COUNTER0_NO READ_WRITE_LATCH COUNTER0_MODE (of_nat COUNTER0_VALUE) s;
          s = register_handler 0x20 (addr_of s Intr_timer_handler) s
      in put_str (ln ''timer_init done'') s)"

definition intr_timer_handler :: "'e device_scheme \<Rightarrow> (unit, 'e device_scheme) res" where
  "intr_timer_handler s =
     (let cur_thread = running_thread s in
      bind (ASSERT (stack_magic (tasks s cur_thread) = 0x20030621)
              (''device/timer.c'', 40, ''intr_timer_handler'', ''cur_thread->stack_magic == 0x20030621'') s) (\<lambda>_ s.
      let s = upd_task cur_thread (\<lambda>t. t\<lparr>elapsed_ticks := elapsed_ticks t + 1\<rparr>) s;
          s = s\<lparr>timer_ticks := timer_ticks s + 1\<rparr>
      in if ticks (tasks s cur_thread) = 0 then schedule s
         else Ok () (upd_task cur_thread (\<lambda>t. t\<lparr>ticks := ticks t - 1\<rparr>) s)))"

section \<open>What the kernel's routines leave of the devices\<close>

lemma device_fields_more:
  fixes s t :: "'e device_scheme"
  assumes "kernel.more t = kernel.more s"
  shows "ioq_head t = ioq_head s" "ioq_tail t = ioq_tail s" "ioq_producer t = ioq_producer s"
    "ioq_consumer t = ioq_consumer s" "timer_ticks t = timer_ticks s" "syscall_table t = syscall_table s"
    "ctrl_status t = ctrl_status s" "shift_status t = shift_status s" "alt_status t = alt_status s"
    "caps_lock_status t = caps_lock_status s" "ext_scancode t = ext_scancode s" "port_in t = port_in s"
  using assms by (cases s rule: device.cases_scheme, cases t rule: device.cases_scheme, simp)+

section \<open>A concrete state\<close>

text \<open>The three example threads with an empty keyboard buffer at \<open>0xc0003200\<close>; interrupts are off.\<close>

definition demo_device :: device where
  "demo_device = kernel.extend (cli (lock_init 0xc0003200 (sti demo_kernel)))
     \<lparr>timer_ticks = 0, port_in = \<lambda>_. 0x1e, ctrl_status = False, shift_status = False, alt_status = False,
      caps_lock_status = False, ext_scancode = False, ioq_producer = \<lambda>_. 0, ioq_consumer = \<lambda>_. 0,
      ioq_head = \<lambda>_. 0, ioq_tail = \<lambda>_. 0, syscall_table = \<lambda>_. 0\<rparr>"

lemma demo_device_kernel:
  "node_prev demo_device = node_prev (cli (lock_init 0xc0003200 (sti demo_kernel)))"
  "node_next demo_device = node_next (cli (lock_init 0xc0003200 (sti demo_kernel)))"
  "tasks demo_device = demo_tasks" "esp demo_device = 0xc009eff0" "addr_of demo_device = demo_addr"
  "phys demo_device = demo_phys" "cr3 demo_device = 0x100000" "get_intr_status demo_device = INTR_OFF"
  "ioq_head demo_device = (\<lambda>_. 0)" "ioq_tail demo_device = (\<lambda>_. 0)" "ioq_producer demo_device = (\<lambda>_. 0)"
  "ioq_consumer demo_device = (\<lambda>_. 0)"
  "sema_value demo_device 0xc0003204 = 1" "lock_holder demo_device 0xc0003200 = 0" "lock_repeat demo_device 0xc0003200 = 0"
  "port_in demo_device = (\<lambda>_. 0x1e)" "shift_status demo_device = False" "caps_lock_status demo_device = False"
  "ext_scancode demo_device = False" "syscall_table demo_device = (\<lambda>_. 0)" "timer_ticks demo_device = 0"
  by (simp_all add: demo_device_def kernel.defs device.defs cli_def lock_init_def sema_init_def set_value_def set_repeat_def
      set_holder_def Let_def get_intr_status_def flag_clear)

section \<open>Time slices\<close>

text \<open>A number of timer interrupts; the handler runs with interrupts off, as the gate leaves them.\<close>

fun timer_irqs :: "nat \<Rightarrow> 'e device_scheme \<Rightarrow> (unit, 'e device_scheme) res" where
  "timer_irqs 0 s = Ok () s"
| "timer_irqs (Suc n) s = bind (intr_timer_handler s) (\<lambda>_ s. timer_irqs n s)"

lemma timer_irqs_add: "timer_irqs (m + n) s = bind (timer_irqs m s) (\<lambda>_ s. timer_irqs n s)"
proof (induction m arbitrary: s)
  case (Suc m)
  then show ?case by (cases "intr_timer_handler s") simp_all
qed simp

definition clocked :: "u32 set \<Rightarrow> 'e kernel_scheme \<Rightarrow> bool" where
  "clocked T s \<longleftrightarrow> (\<forall>x\<in>T. stack_magic (tasks s x) = 0x20030621)"

text \<open>The state after \<open>i\<close> interrupts within a time slice.\<close>

definition ticked :: "nat \<Rightarrow> 'e device_scheme \<Rightarrow> 'e device_scheme" where
  "ticked i s = (upd_task (running_thread s)
     (\<lambda>t. t\<lparr>elapsed_ticks := elapsed_ticks t + of_nat i, ticks := ticks t - of_nat i\<rparr>) s)\<lparr>timer_ticks := timer_ticks s + of_nat i\<rparr>"

lemma ticked_fields [simp]:
  fixes s :: "'e device_scheme"
  shows "running_thread (ticked i s) = running_thread s" "get_intr_status (ticked i s) = get_intr_status s"
    "timer_ticks (ticked i s) = timer_ticks s + of_nat i" "addr_of (ticked i s) = addr_of s"
    "tasks (ticked i s) = (tasks s)(running_thread s := (tasks s (running_thread s))
       \<lparr>elapsed_ticks := elapsed_ticks (tasks s (running_thread s)) + of_nat i,
        ticks := ticks (tasks s (running_thread s)) - of_nat i\<rparr>)"
  by (simp_all add: ticked_def running_thread_def get_intr_status_def upd_task_def)

lemma ticked_0: "ticked 0 s = s"
  by (simp add: ticked_def upd_task_def)

lemma ticked_Suc: "ticked i (ticked (Suc 0) s) = ticked (Suc i) s"
  by (cases s rule: device.cases_scheme)
    (simp add: ticked_def upd_task_def running_thread_def algebra_simps)

lemma sched_inv_ticked:
  fixes s :: "'e device_scheme"
  assumes "sched_inv s T sp rs"
  shows "sched_inv (ticked i s) T sp rs"
proof -
  have "dll (ticked i s) l xs = dll s l xs" for l xs by (simp add: ticked_def dll_def upd_task_def)
  moreover have "spaces (ticked i s) T sp = spaces s T sp" by (rule spaces_cong) (simp_all add: ticked_def upd_task_def)
  moreover have "cr3 (ticked i s) = cr3 s" by (simp add: ticked_def)
  ultimately show ?thesis using assms by (auto simp: sched_inv_def)
qed

lemma handler_ticks:
  assumes "stack_magic (tasks s (running_thread s)) = 0x20030621" and "ticks (tasks s (running_thread s)) \<noteq> 0"
  shows "intr_timer_handler s = Ok () (ticked 1 s)"
  using assms by (simp add: intr_timer_handler_def Let_def)
    (cases s rule: device.cases_scheme, simp add: ticked_def upd_task_def running_thread_def)

lemma timer_irqs_within:
  assumes "stack_magic (tasks s (running_thread s)) = 0x20030621" and "i \<le> unat (ticks (tasks s (running_thread s)))"
  shows "timer_irqs i s = Ok () (ticked i s)"
  using assms
proof (induction i arbitrary: s)
  case (Suc i)
  let ?n = "ticks (tasks s (running_thread s))"
  have n: "?n \<noteq> 0" using Suc.prems(2) by (auto simp: unat_gt_0 simp flip: unat_gt_0)
  then have "unat (?n - 1) = unat ?n - 1" by (simp add: unat_minus_one)
  then have "timer_irqs i (ticked 1 s) = Ok () (ticked i (ticked 1 s))"
    using Suc.prems by (intro Suc.IH) simp_all
  then show ?case using handler_ticks [OF Suc.prems(1) n] by (simp add: ticked_Suc)
qed (simp add: ticked_0)


text \<open>The state in which the handler calls \<open>schedule\<close> at the end of a slice.\<close>

definition expired :: "'e device_scheme \<Rightarrow> 'e device_scheme" where
  "expired s = (upd_task (running_thread s) (\<lambda>t. t\<lparr>elapsed_ticks := elapsed_ticks t + 1\<rparr>) s)
     \<lparr>timer_ticks := timer_ticks s + 1\<rparr>"

lemma expired_fields [simp]:
  fixes s :: "'e device_scheme"
  shows "running_thread (expired s) = running_thread s" "get_intr_status (expired s) = get_intr_status s"
    "tasks (expired s) = (tasks s)(running_thread s := (tasks s (running_thread s))
       \<lparr>elapsed_ticks := elapsed_ticks (tasks s (running_thread s)) + 1\<rparr>)"
  by (simp_all add: expired_def running_thread_def get_intr_status_def upd_task_def)

lemma handler_expires:
  assumes "stack_magic (tasks s (running_thread s)) = 0x20030621" and "ticks (tasks s (running_thread s)) = 0"
  shows "intr_timer_handler s = schedule (expired s)"
  using assms by (simp add: intr_timer_handler_def Let_def expired_def upd_task_def)

lemma sched_inv_expired:
  fixes s :: "'e device_scheme"
  assumes "sched_inv s T sp rs"
  shows "sched_inv (expired s) T sp rs"
proof -
  have "dll (expired s) l xs = dll s l xs" for l xs by (simp add: expired_def dll_def upd_task_def)
  moreover have "spaces (expired s) T sp = spaces s T sp" by (rule spaces_cong) (simp_all add: expired_def upd_task_def)
  moreover have "cr3 (expired s) = cr3 s" "addr_of (expired s) = addr_of s" by (simp_all add: expired_def)
  ultimately show ?thesis using assms by (auto simp: sched_inv_def)
qed

lemma slice_ends:
  assumes inv: "sched_inv s T sp rs" and off: "get_intr_status s = INTR_OFF" and mag: "clocked T s"
    and run: "cur = running_thread s" "status (tasks s cur) = TASK_RUNNING" and ys: "rs @ [cur] = n # ys"
  shows "\<exists>t. timer_irqs (Suc (unat (ticks (tasks s cur)))) s = Ok () t \<and> sched_inv t T sp ys \<and> running_thread t = n \<and>
    status (tasks t n) = TASK_RUNNING \<and> get_intr_status t = INTR_OFF \<and> clocked T t \<and>
    ticks (tasks t cur) = priority (tasks s cur) \<and> (\<forall>x\<in>T - {cur}. ticks (tasks t x) = ticks (tasks s x))"
proof -
  let ?k = "unat (ticks (tasks s cur))"
  let ?w = "ticked ?k s"
  let ?v = "expired ?w"
  have c: "cur \<in> T" using sched_invD(2) [OF inv] run(1) by simp
  have w: "timer_irqs ?k s = Ok () ?w"
    using timer_irqs_within [of s ?k] mag c run(1) by (simp add: clocked_def)
  have h: "intr_timer_handler ?w = schedule ?v"
    using run(1) mag c by (intro handler_expires) (simp_all add: clocked_def)
  have iv: "sched_inv ?v T sp rs" using inv by (intro sched_inv_expired sched_inv_ticked)
  have v: "running_thread ?v = cur" "get_intr_status ?v = INTR_OFF" "status (tasks ?v cur) = TASK_RUNNING"
    "priority (tasks ?v cur) = priority (tasks s cur)"
    using run off by simp_all
  obtain ts where t: "schedule ?v = Ok () (switch_to cur n (dispatched n (sp n) ts (requeued ?v)))"
      "sched_inv (switch_to cur n (dispatched n (sp n) ts (requeued ?v))) T sp ys"
      "running_thread (switch_to cur n (dispatched n (sp n) ts (requeued ?v))) = n"
    using schedule_running_eq(2) [OF iv v(2) v(1) [symmetric] v(3) ys] by blast
  have "timer_irqs (Suc ?k) s = Ok () (switch_to cur n (dispatched n (sp n) ts (requeued ?v)))"
    using timer_irqs_add [of ?k "Suc 0" s] w h t(1) by simp
  then show ?thesis
    using t(2,3) v mag run by (auto simp: switch_to_tasks clocked_def)
qed

text \<open>The slices of the running thread and of the threads before \<open>y\<close> in the ready list.\<close>

lemma turn_comes:
  assumes "sched_inv s T sp (xs @ y # ys)" and "get_intr_status s = INTR_OFF" and "clocked T s"
    and "cur = running_thread s" "status (tasks s cur) = TASK_RUNNING"
  shows "\<exists>t. timer_irqs (\<Sum>x\<leftarrow>cur # xs. Suc (unat (ticks (tasks s x)))) s = Ok () t \<and> running_thread t = y \<and>
    sched_inv t T sp (ys @ cur # xs) \<and> status (tasks t y) = TASK_RUNNING"
  using assms
proof (induction xs arbitrary: s cur ys)
  case Nil
  from slice_ends [OF Nil.prems, of y "ys @ [cur]"] show ?case by auto
next
  case (Cons x xs)
  let ?k = "Suc (unat (ticks (tasks s cur)))"
  note I = sched_invD [OF Cons.prems(1)]
  obtain t where t: "timer_irqs ?k s = Ok () t" "sched_inv t T sp ((xs @ y # ys) @ [cur])" "running_thread t = x"
      "status (tasks t x) = TASK_RUNNING" "get_intr_status t = INTR_OFF" "clocked T t"
      "\<forall>x\<in>T - {cur}. ticks (tasks t x) = ticks (tasks s x)"
    using slice_ends [OF Cons.prems, of x "(xs @ y # ys) @ [cur]"] by auto
  have "set (x # xs) \<subseteq> T - {cur}" using I(3) Cons.prems(4) by auto
  then have q: "ticks (tasks t z) = ticks (tasks s z)" if "z \<in> set (x # xs)" for z
    using t(7) that by blast
  have "map (\<lambda>z. Suc (unat (ticks (tasks t z)))) (x # xs) = map (\<lambda>z. Suc (unat (ticks (tasks s z)))) (x # xs)"
    by (rule map_cong [OF refl]) (simp only: q)
  then have e: "(\<Sum>z\<leftarrow>x # xs. Suc (unat (ticks (tasks t z)))) = (\<Sum>z\<leftarrow>x # xs. Suc (unat (ticks (tasks s z))))"
    by (rule arg_cong)
  obtain u where u: "timer_irqs (\<Sum>z\<leftarrow>x # xs. Suc (unat (ticks (tasks t z)))) t = Ok () u" "running_thread u = y"
      "sched_inv u T sp ((ys @ [cur]) @ x # xs)" "status (tasks u y) = TASK_RUNNING"
    using Cons.IH [of t "ys @ [cur]" x] t by auto
  have "timer_irqs (\<Sum>z\<leftarrow>cur # x # xs. Suc (unat (ticks (tasks s z)))) s = Ok () u"
    using timer_irqs_add [of ?k "\<Sum>z\<leftarrow>x # xs. Suc (unat (ticks (tasks t z)))" s] t(1) u(1) unfolding e
    by (simp only: list.map sum_list.Cons bind.simps)
  then show ?case using u(2-4) by auto
qed

section \<open>Properties\<close>

text \<open>C23: The clock divides the processor into time slices. A thread with \<open>n\<close> ticks left is not preempted by the next
  \<open>n\<close> timer interrupts, each of which takes one tick from it and adds one to its total; the interrupt after
  them passes the processor on and refills the slice to the thread's priority.\<close>
theorem timer_time_slice:
  assumes "sched_inv s T sp rs" and "get_intr_status s = INTR_OFF" and "clocked T s"
    and "cur = running_thread s" and "status (tasks s cur) = TASK_RUNNING" and "i \<le> unat (ticks (tasks s cur))"
  shows "(\<exists>t. timer_irqs i s = Ok () t \<and> running_thread t = cur \<and> ticks (tasks t cur) = ticks (tasks s cur) - of_nat i \<and>
      elapsed_ticks (tasks t cur) = elapsed_ticks (tasks s cur) + of_nat i \<and> timer_ticks t = timer_ticks s + of_nat i) \<and>
    (\<exists>t. timer_irqs (unat (ticks (tasks s cur)) + 1) s = Ok () t \<and> running_thread t = hd (rs @ [cur]) \<and>
      sched_inv t T sp (tl (rs @ [cur])) \<and> ticks (tasks t cur) = priority (tasks s cur))"
proof
  have c: "cur \<in> T" using sched_invD(2) [OF assms(1)] assms(4) by simp
  have "timer_irqs i s = Ok () (ticked i s)"
    using timer_irqs_within [of s i] assms(3,4,6) c by (simp add: clocked_def)
  then show "\<exists>t. timer_irqs i s = Ok () t \<and> running_thread t = cur \<and> ticks (tasks t cur) = ticks (tasks s cur) - of_nat i \<and>
      elapsed_ticks (tasks t cur) = elapsed_ticks (tasks s cur) + of_nat i \<and> timer_ticks t = timer_ticks s + of_nat i"
    using assms(4) by simp
  obtain n ys where ys: "rs @ [cur] = n # ys" by (cases "rs @ [cur]") auto
  show "\<exists>t. timer_irqs (unat (ticks (tasks s cur)) + 1) s = Ok () t \<and> running_thread t = hd (rs @ [cur]) \<and>
      sched_inv t T sp (tl (rs @ [cur])) \<and> ticks (tasks t cur) = priority (tasks s cur)"
    unfolding ys using slice_ends [OF assms(1-5) ys] by auto
qed

lemma demo_device_sched: "sched_inv demo_device demo_threads demo_dirs [0xc0100000, 0xc0101000]"
proof -
  have "sema_rep (lock_init 0xc0003200 (sti demo_kernel)) demo_threads demo_dirs (semaphore 0xc0003200) 0xc009e000
      [0xc0100000, 0xc0101000] [] 1 True"
    by (rule demo_lock_rep_at) (simp add: span_def general_tag_def)
  then have "sched_inv (cli (lock_init 0xc0003200 (sti demo_kernel))) demo_threads demo_dirs [0xc0100000, 0xc0101000]"
    using sema_repD(1) by (simp add: sched_inv_flags)
  then show ?thesis
    by (subst sched_inv_cong [where s = "cli (lock_init 0xc0003200 (sti demo_kernel))"])
      (simp_all add: demo_device_kernel lock_init_def sema_init_def set_value_def set_repeat_def
        set_holder_def Let_def)
qed

lemma demo_device_clocked: "clocked demo_threads demo_device" "running_thread demo_device = 0xc009e000"
  "status (tasks demo_device 0xc009e000) = TASK_RUNNING"
  by (simp_all add: clocked_def demo_device_kernel demo_tasks_def running_thread_def zero_task_def)

lemma demo_device_slices: "unat (ticks (tasks demo_device 0xc009e000)) = 31" "unat (ticks (tasks demo_device 0xc0100000)) = 8"
  by (simp_all add: demo_device_kernel demo_tasks_def)

theorem timer_time_slice_witness:
  "(\<exists>t. timer_irqs 31 demo_device = Ok () t \<and> running_thread t = 0xc009e000) \<and>
   (\<exists>t. timer_irqs 32 demo_device = Ok () t \<and> running_thread t = 0xc0100000)"
  using timer_time_slice [OF demo_device_sched demo_device_kernel(8) demo_device_clocked(1)
    demo_device_clocked(2) [symmetric] demo_device_clocked(3), of 31]
  unfolding demo_device_slices by (simp, blast)

text \<open>C24: Every ready thread gets its turn, and after how many timer interrupts: when the slices of the running
  thread and of the threads before it in the ready list are over.\<close>
theorem timer_turn_comes:
  assumes "sched_inv s T sp (xs @ y # ys)" and "get_intr_status s = INTR_OFF" and "clocked T s"
    and "cur = running_thread s" and "status (tasks s cur) = TASK_RUNNING"
  shows "\<exists>t. timer_irqs (\<Sum>x\<leftarrow>cur # xs. Suc (unat (ticks (tasks s x)))) s = Ok () t \<and> running_thread t = y \<and>
    sched_inv t T sp (ys @ cur # xs) \<and> status (tasks t y) = TASK_RUNNING"
  using assms by (rule turn_comes)

theorem timer_turn_comes_witness:
  "\<exists>t. timer_irqs 41 demo_device = Ok () t \<and> running_thread t = 0xc0101000"
proof -
  have n: "(\<Sum>x\<leftarrow>[0xc009e000, 0xc0100000]. Suc (unat (ticks (tasks demo_device x)))) = 41"
    by (simp add: demo_device_slices)
  have "sched_inv demo_device demo_threads demo_dirs ([0xc0100000] @ 0xc0101000 # [])" using demo_device_sched by simp
  from timer_turn_comes [OF this demo_device_kernel(8) demo_device_clocked(1) demo_device_clocked(2) [symmetric]
    demo_device_clocked(3), unfolded n] show ?thesis by blast
qed

end
