(* ===== verification/Ioqueue.thy ===== *)
theory Ioqueue
  imports Timer
begin

text \<open>
  The ring buffer between a producer and a consumer, \<open>device/ioqueue.c\<close>. A queue of type \<open>struct ioqueue\<close> is found by its
  address: its lock is its first member, the 64 bytes of the buffer are at offset 36 in the byte
  memory, the other members are the maps \<open>ioq_producer\<close>, \<open>ioq_consumer\<close>, \<open>ioq_head\<close> and \<open>ioq_tail\<close> of
  the record \<open>device\<close>.

  A call of \<open>ioq_getchar\<close> on an empty queue or of \<open>ioq_putchar\<close> on a full one ends in \<open>Blocked\<close>, inside
  \<open>thread_block\<close> or, when another thread already waits, in \<open>lock_acquire\<close>; what such a caller does
  once it runs again are the routines \<open>ioq_getchar_resume\<close> and \<open>ioq_putchar_resume\<close>.
\<close>

section \<open>Routines\<close>

definition bufsize :: u32 where "bufsize = 64"

abbreviation (input) ioq_buf :: "u32 \<Rightarrow> u32" where "ioq_buf ioq \<equiv> ioq + 36"

text \<open>The two pointer members a thread can be recorded in.\<close>

datatype waiter = Producer u32 | Consumer u32

fun get_waiter :: "waiter \<Rightarrow> 'e device_scheme \<Rightarrow> u32" where
  "get_waiter (Producer ioq) s = ioq_producer s ioq"
| "get_waiter (Consumer ioq) s = ioq_consumer s ioq"

fun set_waiter :: "waiter \<Rightarrow> u32 \<Rightarrow> 'e device_scheme \<Rightarrow> 'e device_scheme" where
  "set_waiter (Producer ioq) t s = s\<lparr>ioq_producer := (ioq_producer s)(ioq := t)\<rparr>"
| "set_waiter (Consumer ioq) t s = s\<lparr>ioq_consumer := (ioq_consumer s)(ioq := t)\<rparr>"

fun waiter_addr :: "waiter \<Rightarrow> u32" where
  "waiter_addr (Producer ioq) = ioq + 28"
| "waiter_addr (Consumer ioq) = ioq + 32"

definition ioqueue_init :: "u32 \<Rightarrow> 'e device_scheme \<Rightarrow> 'e device_scheme" where
  "ioqueue_init ioq s =
     (let s = lock_init ioq s;
          s = set_waiter (Producer ioq) NULL s;
          s = set_waiter (Consumer ioq) NULL s;
          s = s\<lparr>ioq_head := (ioq_head s)(ioq := 0)\<rparr>
      in s\<lparr>ioq_tail := (ioq_tail s)(ioq := 0)\<rparr>)"

definition next_pos :: "u32 \<Rightarrow> u32" where
  "next_pos pos = (pos + 1) mod bufsize"

definition ioq_full :: "u32 \<Rightarrow> 'e device_scheme \<Rightarrow> (bool, 'e device_scheme) res" where
  "ioq_full ioq s =
     bind (ASSERT (get_intr_status s = INTR_OFF)
             (''device/ioqueue.c'', 21, ''ioq_full'', ''get_intr_status() == INTR_OFF'') s) (\<lambda>_ s.
     Ok (next_pos (ioq_head s ioq) = ioq_tail s ioq) s)"

definition ioq_empty :: "u32 \<Rightarrow> 'e device_scheme \<Rightarrow> (bool, 'e device_scheme) res" where
  "ioq_empty ioq s =
     bind (ASSERT (get_intr_status s = INTR_OFF)
             (''device/ioqueue.c'', 27, ''ioq_empty'', ''get_intr_status() == INTR_OFF'') s) (\<lambda>_ s.
     Ok (ioq_head s ioq = ioq_tail s ioq) s)"

definition ioq_wait :: "waiter \<Rightarrow> 'e device_scheme \<Rightarrow> (unit, 'e device_scheme) res" where
  "ioq_wait w s =
     bind (ASSERT (get_waiter w s = NULL \<and> waiter_addr w \<noteq> NULL)
             (''device/ioqueue.c'', 33, ''ioq_wait'', ''*waiter == NULL && waiter != NULL'') s) (\<lambda>_ s.
     let s = set_waiter w (running_thread s) s in
     thread_block TASK_BLOCKED s)"

definition wakeup :: "waiter \<Rightarrow> 'e device_scheme \<Rightarrow> (unit, 'e device_scheme) res" where
  "wakeup w s =
     bind (ASSERT (get_waiter w s \<noteq> NULL) (''device/ioqueue.c'', 40, ''wakeup'', ''*waiter != NULL'') s) (\<lambda>_ s.
     bind (thread_unblock (get_waiter w s) s) (\<lambda>_ s.
     Ok () (set_waiter w NULL s)))"

text \<open>One round of the waiting loops up to the point where the thread sleeps: \<open>thread_block\<close> never
  returns before another thread has run.\<close>

definition ioq_get_wait :: "u32 \<Rightarrow> 'e device_scheme \<Rightarrow> (unit, 'e device_scheme) res" where
  "ioq_get_wait ioq s =
     bind (ioq_empty ioq s) (\<lambda>empty s.
     if \<not> empty then Ok () s
     else bind (lock_acquire ioq s) (\<lambda>_ s. ioq_wait (Consumer ioq) s))"

definition ioq_get_take :: "u32 \<Rightarrow> 'e device_scheme \<Rightarrow> (u8, 'e device_scheme) res" where
  "ioq_get_take ioq s =
     (let byte = mem s (ioq_buf ioq + ioq_tail s ioq);
          s = s\<lparr>ioq_tail := (ioq_tail s)(ioq := next_pos (ioq_tail s ioq))\<rparr>
      in bind (if ioq_producer s ioq \<noteq> NULL then wakeup (Producer ioq) s else Ok () s) (\<lambda>_ s.
         Ok byte s))"

definition ioq_getchar :: "u32 \<Rightarrow> 'e device_scheme \<Rightarrow> (u8, 'e device_scheme) res" where
  "ioq_getchar ioq s =
     bind (ASSERT (get_intr_status s = INTR_OFF)
             (''device/ioqueue.c'', 48, ''ioq_getchar'', ''get_intr_status() == INTR_OFF'') s) (\<lambda>_ s.
     bind (ioq_get_wait ioq s) (\<lambda>_ s.
     ioq_get_take ioq s))"

text \<open>The rest of \<open>ioq_getchar\<close> for a thread that slept in \<open>ioq_wait\<close>, and for one that slept in
  \<open>lock_acquire\<close>.\<close>

definition ioq_getchar_resume :: "u32 \<Rightarrow> 'e device_scheme \<Rightarrow> (u8, 'e device_scheme) res" where
  "ioq_getchar_resume ioq s =
     (let s = thread_block_resume INTR_OFF s in
      bind (lock_release ioq s) (\<lambda>_ s.
      bind (ioq_get_wait ioq s) (\<lambda>_ s.
      ioq_get_take ioq s)))"

definition ioq_getchar_locked :: "u32 \<Rightarrow> 'e device_scheme \<Rightarrow> (unit, 'e device_scheme) res" where
  "ioq_getchar_locked ioq s =
     bind (lock_acquire_resume INTR_OFF ioq s) (\<lambda>_ s. ioq_wait (Consumer ioq) s)"

definition ioq_put_wait :: "u32 \<Rightarrow> 'e device_scheme \<Rightarrow> (unit, 'e device_scheme) res" where
  "ioq_put_wait ioq s =
     bind (ioq_full ioq s) (\<lambda>full s.
     if \<not> full then Ok () s
     else bind (lock_acquire ioq s) (\<lambda>_ s. ioq_wait (Producer ioq) s))"

definition ioq_put_store :: "u32 \<Rightarrow> u8 \<Rightarrow> 'e device_scheme \<Rightarrow> (unit, 'e device_scheme) res" where
  "ioq_put_store ioq byte s =
     (let s = s\<lparr>mem := (mem s)(ioq_buf ioq + ioq_head s ioq := byte)\<rparr>;
          s = s\<lparr>ioq_head := (ioq_head s)(ioq := next_pos (ioq_head s ioq))\<rparr>
      in if ioq_consumer s ioq \<noteq> NULL then wakeup (Consumer ioq) s else Ok () s)"

definition ioq_putchar :: "u32 \<Rightarrow> u8 \<Rightarrow> 'e device_scheme \<Rightarrow> (unit, 'e device_scheme) res" where
  "ioq_putchar ioq byte s =
     bind (ASSERT (get_intr_status s = INTR_OFF)
             (''device/ioqueue.c'', 73, ''ioq_putchar'', ''get_intr_status() == INTR_OFF'') s) (\<lambda>_ s.
     bind (ioq_put_wait ioq s) (\<lambda>_ s.
     ioq_put_store ioq byte s))"

definition ioq_putchar_resume :: "u32 \<Rightarrow> u8 \<Rightarrow> 'e device_scheme \<Rightarrow> (unit, 'e device_scheme) res" where
  "ioq_putchar_resume ioq byte s =
     (let s = thread_block_resume INTR_OFF s in
      bind (lock_release ioq s) (\<lambda>_ s.
      bind (ioq_put_wait ioq s) (\<lambda>_ s.
      ioq_put_store ioq byte s)))"

definition ioq_putchar_locked :: "u32 \<Rightarrow> 'e device_scheme \<Rightarrow> (unit, 'e device_scheme) res" where
  "ioq_putchar_locked ioq s =
     bind (lock_acquire_resume INTR_OFF ioq s) (\<lambda>_ s. ioq_wait (Producer ioq) s)"

section \<open>A bounded queue\<close>

text \<open>
  The contract between the two sides of a buffer: \<open>put\<close> appends while there is room, \<open>get\<close> takes the
  oldest element while there is one. A program of such calls then has the outputs of the same program
  on a list.
\<close>

datatype 'a qop = Put 'a | Get

fun spec_run :: "nat \<Rightarrow> 'a qop list \<Rightarrow> 'a list \<Rightarrow> ('a list \<times> 'a list) option" where
  "spec_run cap [] q = Some ([], q)"
| "spec_run cap (Put x # ops) q = (if length q < cap then spec_run cap ops (q @ [x]) else None)"
| "spec_run cap (Get # ops) [] = None"
| "spec_run cap (Get # ops) (x # q) = map_option (\<lambda>(out, q). (x # out, q)) (spec_run cap ops q)"

fun queue_run ::
    "('a \<Rightarrow> 's \<Rightarrow> (unit, 's) res) \<Rightarrow> ('s \<Rightarrow> ('a, 's) res) \<Rightarrow> 'a qop list \<Rightarrow> 's \<Rightarrow> ('a list, 's) res" where
  "queue_run put get [] s = Ok [] s"
| "queue_run put get (Put x # ops) s = bind (put x s) (\<lambda>_ s. queue_run put get ops s)"
| "queue_run put get (Get # ops) s =
     bind (get s) (\<lambda>x s. bind (queue_run put get ops s) (\<lambda>out s. Ok (x # out) s))"

text \<open>Where a program stops: the contents of the queue and the call that has to wait.\<close>

fun spec_stop :: "nat \<Rightarrow> 'a qop list \<Rightarrow> 'a list \<Rightarrow> ('a list \<times> 'a qop) option" where
  "spec_stop cap [] q = None"
| "spec_stop cap (Put x # ops) q = (if length q < cap then spec_stop cap ops (q @ [x]) else Some (q, Put x))"
| "spec_stop cap (Get # ops) [] = Some ([], Get)"
| "spec_stop cap (Get # ops) (x # q) = spec_stop cap ops q"

fun inputs :: "'a qop list \<Rightarrow> 'a list" where
  "inputs [] = []"
| "inputs (Put x # ops) = x # inputs ops"
| "inputs (Get # ops) = inputs ops"

lemma spec_run_order: "spec_run cap ops q = Some (out, r) \<Longrightarrow> out @ r = q @ inputs ops"
  by (induction cap ops q arbitrary: out r rule: spec_run.induct) (auto split: if_splits)

lemma spec_run_bound: "spec_run cap ops q = Some (out, r) \<Longrightarrow> length q \<le> cap \<Longrightarrow> length r \<le> cap"
  by (induction cap ops q arbitrary: out r rule: spec_run.induct) (auto split: if_splits)

locale fifo =
  fixes inv :: "'s \<Rightarrow> bool" and items :: "'s \<Rightarrow> 'a list" and cap :: nat
    and put :: "'a \<Rightarrow> 's \<Rightarrow> (unit, 's) res" and get :: "'s \<Rightarrow> ('a, 's) res"
  assumes put_appends: "inv s \<Longrightarrow> length (items s) < cap \<Longrightarrow> \<exists>t. put x s = Ok () t \<and> inv t \<and> items t = items s @ [x]"
    and get_takes: "inv s \<Longrightarrow> items s = x # xs \<Longrightarrow> \<exists>t. get s = Ok x t \<and> inv t \<and> items t = xs"
begin

lemma run_refines:
  "inv s \<Longrightarrow> spec_run cap ops (items s) = Some (out, q) \<Longrightarrow>
   \<exists>t. queue_run put get ops s = Ok out t \<and> inv t \<and> items t = q"
proof (induction ops arbitrary: s out)
  case (Cons op ops)
  show ?case
  proof (cases op)
    case (Put x)
    then obtain t where "put x s = Ok () t" "inv t" "items t = items s @ [x]"
      using Cons.prems put_appends [OF Cons.prems(1), of x] by (auto split: if_splits)
    then show ?thesis using Cons.IH [of t out] Cons.prems(2) Put by (simp split: if_splits)
  next
    case Get
    then obtain x xs where x: "items s = x # xs" using Cons.prems(2) by (cases "items s") auto
    then obtain out' where o: "out = x # out'" "spec_run cap ops xs = Some (out', q)"
      using Cons.prems(2) Get by auto
    obtain t where "get s = Ok x t" "inv t" "items t = xs" using get_takes [OF Cons.prems(1) x] by blast
    then show ?thesis using Cons.IH [of t out'] o Get by auto
  qed
qed simp

end

text \<open>The contract of a queue that nobody uses at the moment: a call it cannot serve puts the caller to sleep and leaves the
  contents alone.\<close>

locale blocking_fifo =
  fixes idle :: "'s \<Rightarrow> bool" and items :: "'s \<Rightarrow> 'a list" and cap :: nat
    and put :: "'a \<Rightarrow> 's \<Rightarrow> (unit, 's) res" and get :: "'s \<Rightarrow> ('a, 's) res" and asleep :: "'a qop \<Rightarrow> 's \<Rightarrow> bool"
  assumes put_room: "idle s \<Longrightarrow> length (items s) < cap \<Longrightarrow> \<exists>t. put x s = Ok () t \<and> idle t \<and> items t = items s @ [x]"
    and get_some: "idle s \<Longrightarrow> items s = x # xs \<Longrightarrow> \<exists>t. get s = Ok x t \<and> idle t \<and> items t = xs"
    and put_full: "idle s \<Longrightarrow> cap \<le> length (items s) \<Longrightarrow> \<exists>t. put x s = Blocked t \<and> items t = items s \<and> asleep (Put x) t"
    and get_none: "idle s \<Longrightarrow> items s = [] \<Longrightarrow> \<exists>t. get s = Blocked t \<and> items t = [] \<and> asleep Get t"

sublocale blocking_fifo \<subseteq> fifo idle items cap put get
  using put_room get_some by unfold_locales

context blocking_fifo
begin

lemma run_through:
  "idle s \<Longrightarrow> spec_stop cap ops (items s) = None \<Longrightarrow>
   \<exists>out t. queue_run put get ops s = Ok out t \<and> idle t \<and> spec_run cap ops (items s) = Some (out, items t)"
proof (induction ops arbitrary: s)
  case (Cons op ops)
  show ?case
  proof (cases op)
    case (Put x)
    then obtain t where "put x s = Ok () t" "idle t" "items t = items s @ [x]"
      using Cons.prems put_room [OF Cons.prems(1), of x] by (auto split: if_splits)
    then show ?thesis using Cons.IH [of t] Cons.prems(2) Put by (auto split: if_splits)
  next
    case Get
    then obtain x xs where x: "items s = x # xs" using Cons.prems(2) by (cases "items s") auto
    obtain t where "get s = Ok x t" "idle t" "items t = xs" using get_some [OF Cons.prems(1) x] by blast
    then show ?thesis using Cons.IH [of t] Cons.prems(2) Get x by auto
  qed
qed simp

lemma run_stops:
  "idle s \<Longrightarrow> spec_stop cap ops (items s) = Some (xs, op) \<Longrightarrow>
   \<exists>t. queue_run put get ops s = Blocked t \<and> items t = xs \<and> asleep op t"
proof (induction ops arbitrary: s)
  case (Cons o' ops)
  show ?case
  proof (cases o')
    case (Put x)
    show ?thesis
    proof (cases "length (items s) < cap")
      case True
      obtain t where "put x s = Ok () t" "idle t" "items t = items s @ [x]" using put_room [OF Cons.prems(1) True, of x] by blast
      then show ?thesis using Cons.IH [of t] Cons.prems(2) Put True by auto
    next
      case False
      then show ?thesis using put_full [OF Cons.prems(1), of x] Cons.prems(2) Put by auto
    qed
  next
    case Get
    show ?thesis
    proof (cases "items s")
      case Nil
      then show ?thesis using get_none [OF Cons.prems(1)] Cons.prems(2) Get by auto
    next
      case x: (Cons y ys)
      obtain t where "get s = Ok y t" "idle t" "items t = ys" using get_some [OF Cons.prems(1) x] by blast
      then show ?thesis using Cons.IH [of t] Cons.prems(2) Get x by auto
    qed
  qed
qed simp

end

section \<open>The ring buffer as a queue\<close>

definition ioq_count :: "u32 \<Rightarrow> 'e device_scheme \<Rightarrow> nat" where
  "ioq_count q s = (unat (ioq_head s q) + 64 - unat (ioq_tail s q)) mod 64"

definition ioq_list :: "u32 \<Rightarrow> 'e device_scheme \<Rightarrow> u8 list" where
  "ioq_list q s = map (\<lambda>i. mem s (ioq_buf q + of_nat ((unat (ioq_tail s q) + i) mod 64))) [0..<ioq_count q s]"

definition ioq_wf :: "u32 \<Rightarrow> 'e device_scheme \<Rightarrow> bool" where
  "ioq_wf q s \<longleftrightarrow> ioq_head s q < 64 \<and> ioq_tail s q < 64"

lemma unat_next_pos: "p < 64 \<Longrightarrow> unat (next_pos p) = (unat p + 1) mod 64"
proof -
  assume "p < 64"
  then have "unat (p + 1) = unat p + 1" by (subst unat_add_below) (simp_all add: word_less_nat_alt)
  then show ?thesis by (simp add: next_pos_def bufsize_def unat_mod)
qed

lemma next_pos_less: "p < 64 \<Longrightarrow> next_pos p < 64"
  by (simp add: word_less_nat_alt unat_next_pos)

lemma ioq_wf_nat: "ioq_wf q s \<Longrightarrow> unat (ioq_head s q) < 64 \<and> unat (ioq_tail s q) < 64"
  by (simp add: ioq_wf_def word_less_nat_alt)

lemma ring_count: "h < 64 \<Longrightarrow> t < 64 \<Longrightarrow> (h + 64 - t) mod 64 = (if t \<le> h then h - t else h + 64 - t)" for h t :: nat
proof (cases "t \<le> h")
  case True
  assume "h < 64" "t < 64"
  have "h + 64 - t = (h - t) + 64" using True by simp
  then have "(h + 64 - t) mod 64 = (h - t) mod 64" by (simp only: mod_add_self2)
  then show ?thesis using True \<open>h < 64\<close> by simp
qed simp

lemma ring_next: "p < 64 \<Longrightarrow> (p + 1) mod 64 = (if p = 63 then 0 else p + 1)" for p :: nat
  by simp

lemma ioq_count_eq:
  "ioq_wf q s \<Longrightarrow> ioq_count q s = (if unat (ioq_tail s q) \<le> unat (ioq_head s q)
     then unat (ioq_head s q) - unat (ioq_tail s q) else unat (ioq_head s q) + 64 - unat (ioq_tail s q))"
  using ioq_wf_nat [of q s] by (simp only: ioq_count_def ring_count)

lemma ioq_length: "length (ioq_list q s) = ioq_count q s" "ioq_count q s < 64"
  by (simp_all add: ioq_list_def ioq_count_def)

lemma ioq_empty_iff: "ioq_wf q s \<Longrightarrow> ioq_head s q = ioq_tail s q \<longleftrightarrow> ioq_list q s = []"
proof -
  assume wf: "ioq_wf q s"
  have "ioq_list q s = [] \<longleftrightarrow> ioq_count q s = 0" by (simp add: ioq_list_def)
  then show ?thesis
    unfolding ioq_count_eq [OF wf] word_unat_eq_iff using ioq_wf_nat [OF wf] by (auto split: if_splits)
qed

lemma ioq_full_iff: "ioq_wf q s \<Longrightarrow> next_pos (ioq_head s q) = ioq_tail s q \<longleftrightarrow> length (ioq_list q s) = 63"
proof -
  assume wf: "ioq_wf q s"
  have "next_pos (ioq_head s q) = ioq_tail s q \<longleftrightarrow> (unat (ioq_head s q) + 1) mod 64 = unat (ioq_tail s q)"
    using wf unat_next_pos [of "ioq_head s q"] by (simp add: word_unat_eq_iff ioq_wf_def)
  moreover have "(unat (ioq_head s q) + 1) mod 64 = unat (ioq_tail s q) \<longleftrightarrow> ioq_count q s = 63"
    unfolding ioq_count_eq [OF wf] ring_next [OF conjunct1 [OF ioq_wf_nat [OF wf]]]
    using ioq_wf_nat [OF wf] by auto
  ultimately show ?thesis by (simp add: ioq_length)
qed

lemma ring_inj: "t < 64 \<Longrightarrow> i < 64 \<Longrightarrow> j < 64 \<Longrightarrow> (t + i) mod 64 = (t + j) mod 64 \<longleftrightarrow> i = j" for t :: nat
  by (auto simp: mod_if split: if_splits)

text \<open>Storing at the head and moving it on appends, moving the tail on takes the first element.\<close>

lemma ioq_list_put:
  assumes wf: "ioq_wf q s" and room: "length (ioq_list q s) < 63"
    and t: "mem t = (mem s)(ioq_buf q + ioq_head s q := b)" "ioq_head t q = next_pos (ioq_head s q)"
      "ioq_tail t q = ioq_tail s q"
  shows "ioq_wf q t" and "ioq_list q t = ioq_list q s @ [b]"
proof -
  let ?h = "unat (ioq_head s q)" and ?t = "unat (ioq_tail s q)" and ?c = "ioq_count q s"
  note W = ioq_wf_nat [OF wf]
  show wt: "ioq_wf q t" using wf t by (simp add: ioq_wf_def next_pos_less)
  have c: "?c < 63" using room by (simp add: ioq_length)
  have h: "(?t + ?c) mod 64 = ?h" unfolding ioq_count_eq [OF wf] using W by (auto simp: mod_if)
  have n: "unat (ioq_head t q) = (if ?h = 63 then 0 else ?h + 1)"
    using unat_next_pos [of "ioq_head s q"] wf W ring_next [of ?h] by (simp add: t ioq_wf_def)
  have ct: "ioq_count q t = Suc ?c"
    using c W unfolding ioq_count_eq [OF wf] ioq_count_eq [OF wt] n t(3) by (auto split: if_splits)
  have addr: "ioq_buf q + of_nat ((?t + i) mod 64) = ioq_buf q + ioq_head s q \<longleftrightarrow> i = ?c" if "i < 64" for i
  proof -
    have "of_nat ((?t + i) mod 64) = ioq_head s q \<longleftrightarrow> (?t + i) mod 64 = (?t + ?c) mod 64"
      unfolding h by (subst word_unat_eq_iff) (simp add: unat_of_nat_below)
    then show ?thesis using ring_inj [of ?t i ?c] W c that by simp
  qed
  show "ioq_list q t = ioq_list q s @ [b]"
  proof (rule nth_equalityI)
    show "length (ioq_list q t) = length (ioq_list q s @ [b])" by (simp add: ioq_length ct)
    fix i assume "i < length (ioq_list q t)"
    then have i: "i < Suc ?c" by (simp add: ioq_length ct)
    then show "ioq_list q t ! i = (ioq_list q s @ [b]) ! i"
      using addr [of i] c by (auto simp: ioq_list_def ct t nth_append less_Suc_eq simp del: upt_Suc)
  qed
qed

lemma ioq_list_get:
  assumes wf: "ioq_wf q s" and xs: "ioq_list q s = x # xs"
    and t: "mem t = mem s" "ioq_head t q = ioq_head s q" "ioq_tail t q = next_pos (ioq_tail s q)"
  shows "ioq_wf q t" and "ioq_list q t = xs" and "mem s (ioq_buf q + ioq_tail s q) = x"
proof -
  let ?h = "unat (ioq_head s q)" and ?t = "unat (ioq_tail s q)" and ?c = "ioq_count q s"
  note W = ioq_wf_nat [OF wf]
  show wt: "ioq_wf q t" using wf t by (simp add: ioq_wf_def next_pos_less)
  have c: "?c = Suc (length xs)" using arg_cong [OF xs, of length] by (simp add: ioq_length)
  have n: "unat (ioq_tail t q) = (if ?t = 63 then 0 else ?t + 1)"
    using unat_next_pos [of "ioq_tail s q"] wf W ring_next [of ?t] by (simp add: t ioq_wf_def)
  have ct: "ioq_count q t = length xs"
    using c W unfolding ioq_count_eq [OF wf] ioq_count_eq [OF wt] n t(2) by (auto split: if_splits)
  have "ioq_list q s ! 0 = mem s (ioq_buf q + ioq_tail s q)"
    using c W by (simp add: ioq_list_def del: upt_Suc)
  then show "mem s (ioq_buf q + ioq_tail s q) = x" by (simp add: xs)
  show "ioq_list q t = xs"
  proof (rule nth_equalityI)
    show "length (ioq_list q t) = length xs" by (simp add: ioq_length ct)
    fix i assume "i < length (ioq_list q t)"
    then have i: "i < length xs" by (simp add: ioq_length ct)
    then have "xs ! i = ioq_list q s ! Suc i" by (simp add: xs)
    also have "\<dots> = mem s (ioq_buf q + of_nat ((?t + Suc i) mod 64))" using i c by (simp add: ioq_list_def del: upt_Suc)
    also have "(?t + Suc i) mod 64 = (unat (ioq_tail t q) + i) mod 64" unfolding n using W by auto
    finally show "ioq_list q t ! i = xs ! i" using i by (simp add: ioq_list_def ct t)
  qed
qed


lemma woken_device [simp]:
  fixes s :: "'e device_scheme"
  shows "ioq_head (woken p s) = ioq_head s" "ioq_tail (woken p s) = ioq_tail s"
    "ioq_producer (woken p s) = ioq_producer s" "ioq_consumer (woken p s) = ioq_consumer s"
  by (rule device_fields_more; simp)+

section \<open>The routines on the queue\<close>

text \<open>A recorded waiter is a blocked thread; the two sides are different threads.\<close>

definition sleeper :: "u32 set \<Rightarrow> 'e device_scheme \<Rightarrow> u32 \<Rightarrow> bool" where
  "sleeper T s w \<longleftrightarrow> w = NULL \<or> w \<in> T \<and> w \<noteq> running_thread s \<and> may_block (status (tasks s w))"

definition ioq_ready :: "u32 \<Rightarrow> u32 set \<Rightarrow> (u32 \<Rightarrow> u32) \<Rightarrow> u32 list \<Rightarrow> 'e device_scheme \<Rightarrow> bool" where
  "ioq_ready q T sp rs s \<longleftrightarrow> sched_inv s T sp rs \<and> ioq_wf q s \<and> get_intr_status s = INTR_OFF \<and>
     sleeper T s (ioq_producer s q) \<and> sleeper T s (ioq_consumer s q) \<and>
     (ioq_producer s q \<noteq> NULL \<longrightarrow> ioq_producer s q \<noteq> ioq_consumer s q)"

text \<open>What remains of the queue's state when a thread of one side is woken.\<close>

definition awake :: "u32 \<Rightarrow> u32 list \<Rightarrow> u32 list" where
  "awake w rs = (if w = NULL then rs else w # rs)"

lemma wakeup_ok:
  fixes s :: "'e device_scheme"
  assumes "sched_inv s T sp rs" and "sleeper T s (get_waiter w s)" and "get_waiter w s \<noteq> NULL"
  shows "wakeup w s = Ok () (set_waiter w NULL (woken (get_waiter w s) s))"
  using thread_unblock_wakes(1) [OF assms(1), of "get_waiter w s"] assms(2,3)
  by (simp add: wakeup_def sleeper_def)

lemma sched_inv_device [simp]:
  fixes s :: "'e device_scheme"
  shows "sched_inv (s\<lparr>ioq_tail := a\<rparr>) T sp rs = sched_inv s T sp rs"
    "sched_inv (s\<lparr>ioq_head := b\<rparr>) T sp rs = sched_inv s T sp rs"
    "sched_inv (s\<lparr>ioq_producer := c\<rparr>) T sp rs = sched_inv s T sp rs"
    "sched_inv (s\<lparr>ioq_consumer := d\<rparr>) T sp rs = sched_inv s T sp rs"
    "sched_inv (s\<lparr>mem := m\<rparr>) T sp rs = sched_inv s T sp rs"
  by (rule sched_inv_cong; simp)+

lemma status_device [simp]:
  fixes s :: "'e device_scheme"
  shows "get_intr_status (s\<lparr>ioq_tail := a\<rparr>) = get_intr_status s" "get_intr_status (s\<lparr>ioq_head := b\<rparr>) = get_intr_status s"
    "get_intr_status (s\<lparr>ioq_producer := c\<rparr>) = get_intr_status s" "get_intr_status (s\<lparr>ioq_consumer := d\<rparr>) = get_intr_status s"
    "get_intr_status (s\<lparr>mem := m\<rparr>) = get_intr_status s"
    "running_thread (s\<lparr>ioq_tail := a\<rparr>) = running_thread s" "running_thread (s\<lparr>ioq_head := b\<rparr>) = running_thread s"
    "running_thread (s\<lparr>ioq_producer := c\<rparr>) = running_thread s" "running_thread (s\<lparr>ioq_consumer := d\<rparr>) = running_thread s"
    "running_thread (s\<lparr>mem := m\<rparr>) = running_thread s" "running_thread (woken p s) = running_thread s"
  by (simp_all add: get_intr_status_def running_thread_def)

lemma ioq_take_ok:
  fixes s :: "'e device_scheme"
  assumes R: "ioq_ready q T sp rs s" and xs: "ioq_list q s = x # xs"
  shows "\<exists>t. ioq_get_take q s = Ok x t \<and> ioq_ready q T sp (awake (ioq_producer s q) rs) t \<and> ioq_list q t = xs \<and>
    ioq_producer t q = NULL \<and> ioq_consumer t q = ioq_consumer s q \<and> running_thread t = running_thread s"
proof -
  let ?u = "s\<lparr>ioq_tail := (ioq_tail s)(q := next_pos (ioq_tail s q))\<rparr>" and ?p = "ioq_producer s q"
  have inv: "sched_inv ?u T sp rs" and wf: "ioq_wf q s" and off: "get_intr_status s = INTR_OFF"
    using R by (simp_all add: ioq_ready_def)
  note G = ioq_list_get [OF wf xs, of ?u]
  show ?thesis
  proof (cases "?p = NULL")
    case True
    then show ?thesis
      using G R inv by (intro exI [of _ ?u])
        (simp add: ioq_get_take_def ioq_ready_def awake_def sleeper_def)
  next
    case False
    let ?t = "set_waiter (Producer q) NULL (woken ?p ?u)"
    have "wakeup (Producer q) ?u = Ok () ?t"
      using wakeup_ok [OF inv, of "Producer q"] R False by (simp add: ioq_ready_def sleeper_def)
    moreover have "ioq_list q ?t = xs" "ioq_wf q ?t"
      using G by (simp_all add: ioq_list_def ioq_count_def ioq_wf_def)
    moreover have "sched_inv ?t T sp (?p # rs)"
      using thread_unblock_wakes(2) [OF inv, of ?p] R False by (simp add: ioq_ready_def sleeper_def)
    ultimately show ?thesis
      using G(3) R False by (intro exI [of _ ?t])
        (auto simp: ioq_get_take_def ioq_ready_def awake_def sleeper_def)
  qed
qed


lemma ioq_store_ok:
  fixes s :: "'e device_scheme"
  assumes R: "ioq_ready q T sp rs s" and room: "length (ioq_list q s) < 63"
  shows "\<exists>t. ioq_put_store q b s = Ok () t \<and> ioq_ready q T sp (awake (ioq_consumer s q) rs) t \<and>
    ioq_list q t = ioq_list q s @ [b] \<and> ioq_consumer t q = NULL \<and> ioq_producer t q = ioq_producer s q \<and>
    running_thread t = running_thread s"
proof -
  let ?u = "s\<lparr>mem := (mem s)(ioq_buf q + ioq_head s q := b), ioq_head := (ioq_head s)(q := next_pos (ioq_head s q))\<rparr>"
    and ?c = "ioq_consumer s q"
  have inv: "sched_inv ?u T sp rs" and wf: "ioq_wf q s" and off: "get_intr_status s = INTR_OFF"
    using R by (simp_all add: ioq_ready_def)
  note G = ioq_list_put [OF wf room, of ?u b]
  show ?thesis
  proof (cases "?c = NULL")
    case True
    then show ?thesis
      using G R inv by (intro exI [of _ ?u]) (simp add: ioq_put_store_def ioq_ready_def awake_def sleeper_def)
  next
    case False
    let ?t = "set_waiter (Consumer q) NULL (woken ?c ?u)"
    have "wakeup (Consumer q) ?u = Ok () ?t"
      using wakeup_ok [OF inv, of "Consumer q"] R False by (simp add: ioq_ready_def sleeper_def)
    moreover have "ioq_list q ?t = ioq_list q s @ [b]" "ioq_wf q ?t"
      using G by (simp_all add: ioq_list_def ioq_count_def ioq_wf_def)
    moreover have "sched_inv ?t T sp (?c # rs)"
      using thread_unblock_wakes(2) [OF inv, of ?c] R False by (simp add: ioq_ready_def sleeper_def)
    ultimately show ?thesis
      using R False by (intro exI [of _ ?t])
        (auto simp: ioq_put_store_def ioq_ready_def awake_def sleeper_def)
  qed
qed

definition ioq_inv :: "u32 \<Rightarrow> 'e device_scheme \<Rightarrow> bool" where
  "ioq_inv q s \<longleftrightarrow> (\<exists>T sp rs. ioq_ready q T sp rs s)"

lemma ioq_getchar_takes:
  "ioq_ready q T sp rs s \<Longrightarrow> ioq_list q s \<noteq> [] \<Longrightarrow> ioq_getchar q s = ioq_get_take q s"
  by (simp add: ioq_getchar_def ioq_get_wait_def ioq_empty_def ioq_ready_def ioq_empty_iff)

lemma ioq_putchar_stores:
  "ioq_ready q T sp rs s \<Longrightarrow> length (ioq_list q s) < 63 \<Longrightarrow> ioq_putchar q b s = ioq_put_store q b s"
  by (simp add: ioq_putchar_def ioq_put_wait_def ioq_full_def ioq_ready_def ioq_full_iff)

interpretation ioq: fifo "ioq_inv q" "ioq_list q" 63 "ioq_putchar q" "ioq_getchar q" for q
proof
  fix s :: "'a device_scheme" and x
  assume "ioq_inv q s" and room: "length (ioq_list q s) < 63"
  then obtain T sp rs where R: "ioq_ready q T sp rs s" by (auto simp: ioq_inv_def)
  show "\<exists>t. ioq_putchar q x s = Ok () t \<and> ioq_inv q t \<and> ioq_list q t = ioq_list q s @ [x]"
    using ioq_store_ok [OF R room, of x] ioq_putchar_stores [OF R room] by (auto simp: ioq_inv_def)
next
  fix s :: "'a device_scheme" and x xs
  assume "ioq_inv q s" and xs: "ioq_list q s = x # xs"
  then obtain T sp rs where R: "ioq_ready q T sp rs s" by (auto simp: ioq_inv_def)
  show "\<exists>t. ioq_getchar q s = Ok x t \<and> ioq_inv q t \<and> ioq_list q t = xs"
    using ioq_take_ok [OF R xs] ioq_getchar_takes [OF R] xs by (auto simp: ioq_inv_def)
qed


section \<open>Handing a byte to a sleeping consumer\<close>

text \<open>The lock of the queue \<open>q\<close> is held by \<open>c\<close> and nobody waits for it.\<close>

definition ioq_locked :: "u32 \<Rightarrow> u32 set \<Rightarrow> u32 \<Rightarrow> 'e kernel_scheme \<Rightarrow> bool" where
  "ioq_locked q T c s \<longleftrightarrow> sema_value s (semaphore q) = 0 \<and> lock_holder s q = c \<and> lock_repeat s q = 1 \<and>
     dll s (waiters (semaphore q)) [] \<and>
     foot (thread_ready_list s) [] \<inter> foot (waiters (semaphore q)) [] = {} \<and>
     (\<forall>t\<in>T. general_tag t \<notin> foot (waiters (semaphore q)) [])"

lemma ready_apart:
  assumes "ioq_locked q T c s" and "set rs \<subseteq> T"
  shows "foot (thread_ready_list s) (map general_tag rs) \<inter> foot (waiters (semaphore q)) [] = {}"
  using assms unfolding foot_tags by (auto simp: ioq_locked_def)

definition ioq_unlocked :: "u32 \<Rightarrow> u32 set \<Rightarrow> 'e kernel_scheme \<Rightarrow> bool" where
  "ioq_unlocked q T s \<longleftrightarrow> sema_value s (semaphore q) = 1 \<and> lock_holder s q \<noteq> running_thread s \<and> lock_repeat s q = 0 \<and>
     dll s (waiters (semaphore q)) [] \<and>
     foot (thread_ready_list s) [] \<inter> foot (waiters (semaphore q)) [] = {} \<and>
     (\<forall>t\<in>T. general_tag t \<notin> foot (waiters (semaphore q)) [])"

lemma ioq_locked_cong:
  assumes "ioq_locked q T c s" "sema_value t = sema_value s" "lock_holder t = lock_holder s"
    "lock_repeat t = lock_repeat s" "addr_of t = addr_of s" "dll t (waiters (semaphore q)) []"
  shows "ioq_locked q T c t"
  using assms by (simp add: ioq_locked_def)

lemma yielded_device [simp]:
  fixes s :: "'e device_scheme"
  shows "ioq_head (yielded st n d ts s) = ioq_head s" "ioq_tail (yielded st n d ts s) = ioq_tail s"
    "ioq_producer (yielded st n d ts s) = ioq_producer s" "ioq_consumer (yielded st n d ts s) = ioq_consumer s"
  by (rule device_fields_more; simp)+

lemma locked_device [simp]:
  fixes s :: "'e device_scheme"
  shows "ioq_head (locked L s) = ioq_head s" "ioq_tail (locked L s) = ioq_tail s"
    "ioq_producer (locked L s) = ioq_producer s" "ioq_consumer (locked L s) = ioq_consumer s"
    "mem (locked L s) = mem s" "get_intr_status (locked L s) = get_intr_status s"
    "running_thread (locked L s) = running_thread s" "tasks (locked L s) = tasks s" "addr_of (locked L s) = addr_of s"
  by (simp_all add: locked_def set_value_def set_holder_def set_repeat_def running_thread_def get_intr_status_def)

lemma locked_sched [simp]: "sched_inv (locked L s) T sp rs = sched_inv s T sp rs" "dll (locked L s) l xs = dll s l xs"
  by (rule sched_inv_cong; simp add: locked_def set_value_def set_holder_def set_repeat_def)
    (simp add: locked_def set_value_def set_holder_def set_repeat_def)

lemma dll_device [simp]:
  fixes s :: "'e device_scheme"
  shows "dll (s\<lparr>ioq_consumer := x\<rparr>) l xs = dll s l xs" "dll (s\<lparr>ioq_producer := y\<rparr>) l xs = dll s l xs"
    "dll (s\<lparr>ioq_head := a\<rparr>) l xs = dll s l xs" "dll (s\<lparr>ioq_tail := b\<rparr>) l xs = dll s l xs"
    "dll (s\<lparr>mem := m\<rparr>) l xs = dll s l xs"
  by (simp_all add: dll_def)

lemma yielded_next: "status (tasks (yielded st n d ts s) n) = TASK_RUNNING"
  by (simp add: yielded_def switch_to_tasks)

text \<open>A thread that finds the queue unusable takes the lock, records itself and sleeps; the next ready thread runs.\<close>

definition wait_on :: "u32 \<Rightarrow> waiter \<Rightarrow> 'e device_scheme \<Rightarrow> (unit, 'e device_scheme) res" where
  "wait_on q w s = bind (lock_acquire q s) (\<lambda>_ s. ioq_wait w s)"

lemma ioq_sleeps:
  fixes s :: "'e device_scheme"
  assumes R: "ioq_ready q T sp (n # rs) s" and c: "c = running_thread s" and U: "ioq_unlocked q T s"
    and w: "w = Producer q \<or> w = Consumer q" and free: "get_waiter w s = NULL" "waiter_addr w \<noteq> NULL"
  shows "\<exists>t. wait_on q w s = Blocked t \<and> ioq_ready q T sp rs t \<and> running_thread t = n \<and> ioq_list q t = ioq_list q s \<and>
    ioq_producer t q = (if w = Producer q then c else ioq_producer s q) \<and>
    ioq_consumer t q = (if w = Consumer q then c else ioq_consumer s q) \<and> ioq_locked q T c t \<and>
    status (tasks t n) = TASK_RUNNING \<and> status (tasks t c) = TASK_BLOCKED"
proof -
  let ?l = "locked q s"
  let ?u = "set_waiter w c ?l"
  have inv: "sched_inv s T sp (n # rs)" and wf: "ioq_wf q s" and off: "get_intr_status s = INTR_OFF"
    using R by (simp_all add: ioq_ready_def)
  have L: "lock_acquire q s = Ok () ?l"
    using U by (intro lock_acquire_free) (simp_all add: ioq_unlocked_def)
  have uf: "mem ?u = mem s" "ioq_head ?u = ioq_head s" "ioq_tail ?u = ioq_tail s" "running_thread ?u = c" "tasks ?u = tasks s"
    "addr_of ?u = addr_of s" "get_intr_status ?u = INTR_OFF" "sema_value ?u = sema_value ?l" "lock_holder ?u = lock_holder ?l"
    "lock_repeat ?u = lock_repeat ?l" "ioq_producer ?u q = (if w = Producer q then c else ioq_producer s q)"
    "ioq_consumer ?u q = (if w = Consumer q then c else ioq_consumer s q)" "get_waiter w ?l = NULL"
    using w off c free by auto
  have iu: "sched_inv ?u T sp (n # rs)" using inv w by auto
  then obtain ts where t: "thread_block TASK_BLOCKED ?u = Blocked (yielded TASK_BLOCKED n (sp n) ts ?u)"
      "sched_inv (yielded TASK_BLOCKED n (sp n) ts ?u) T sp rs"
      "running_thread (yielded TASK_BLOCKED n (sp n) ts ?u) = n"
    using thread_block_yields [of ?u T sp n rs TASK_BLOCKED] by auto
  let ?t = "yielded TASK_BLOCKED n (sp n) ts ?u"
  have "wait_on q w s = Blocked ?t"
    using L t(1) uf(13) free(2) c by (simp add: wait_on_def ioq_wait_def)
  moreover have "ioq_locked q T c ?t"
  proof -
    have "dll ?u (waiters (semaphore q)) [] = dll s (waiters (semaphore q)) []" using w by auto
    then have lu: "ioq_locked q T c ?u"
      using U c uf(6,8-10) by (simp add: ioq_unlocked_def ioq_locked_def)
        (simp add: locked_def set_value_def set_holder_def set_repeat_def)
    have "dll ?t (waiters (semaphore q)) []"
      using lu ready_apart [OF lu, of rs] sched_invD(3) [OF iu]
      by (intro yielded_frame [OF iu]) (auto simp: ioq_locked_def)
    then show ?thesis by (intro ioq_locked_cong [OF lu]) simp_all
  qed
  moreover have lt: "ioq_list q ?t = ioq_list q s" and wt: "ioq_wf q ?t"
    using wf uf(1-3) by (simp_all add: ioq_list_def ioq_count_def ioq_wf_def)
  note I = sched_invD [OF inv]
  have st: "status (tasks ?t x) = (if x = c then TASK_BLOCKED else status (tasks s x))" if "x \<noteq> n" for x
    using yielded_status [OF that, of TASK_BLOCKED "sp n" ts ?u] uf(4,5) by simp
  have n: "n \<in> T" "n \<noteq> c" "status (tasks s n) = TASK_READY" using I(3) I(8) [of n] c by auto
  moreover have "ioq_ready q T sp rs ?t"
  proof -
    have sc: "sleeper T ?t c" using I(2) c st [of c] t(3) n by (simp add: sleeper_def)
    have old: "sleeper T ?t x \<and> (x \<noteq> NULL \<longrightarrow> x \<noteq> c)" if "sleeper T s x" for x
    proof -
      have "x = NULL \<or> x \<noteq> n" using that n(3) by (auto simp: sleeper_def)
      then show ?thesis using that st [of x] t(3) c by (auto simp: sleeper_def)
    qed
    have "c \<noteq> NULL" using I(7) [OF I(2)] c by auto
    then show ?thesis
      using t(2) wt sc old R w uf(7,11,12) by (auto simp: ioq_ready_def)
  qed
  ultimately show ?thesis using t(3) lt st [of c] uf(11,12) by (intro exI [of _ ?t]) (simp add: yielded_next)
qed

lemma ioq_getchar_waits: "ioq_ready q T sp rs s \<Longrightarrow> ioq_list q s = [] \<Longrightarrow> wait_on q (Consumer q) s = Blocked t \<Longrightarrow> ioq_getchar q s = Blocked t"
  by (simp add: ioq_getchar_def ioq_get_wait_def ioq_empty_def ioq_ready_def ioq_empty_iff wait_on_def)

lemma ioq_putchar_waits:
  "ioq_ready q T sp rs s \<Longrightarrow> length (ioq_list q s) = 63 \<Longrightarrow> wait_on q (Producer q) s = Blocked t \<Longrightarrow> ioq_putchar q x s = Blocked t"
  by (simp add: ioq_putchar_def ioq_put_wait_def ioq_full_def ioq_ready_def ioq_full_iff wait_on_def)

lemma ioq_getchar_sleeps:
  fixes s :: "'e device_scheme"
  assumes R: "ioq_ready q T sp (n # rs) s" and e: "ioq_list q s = []" and c: "c = running_thread s"
    and U: "ioq_unlocked q T s" and free: "ioq_consumer s q = NULL" "q + 32 \<noteq> NULL"
  shows "\<exists>t. ioq_getchar q s = Blocked t \<and> ioq_ready q T sp rs t \<and> running_thread t = n \<and> ioq_list q t = [] \<and>
    ioq_consumer t q = c \<and> ioq_producer t q = ioq_producer s q \<and> ioq_locked q T c t \<and>
    status (tasks t n) = TASK_RUNNING"
  using ioq_sleeps [OF R c U, of "Consumer q"] ioq_getchar_waits [OF R e] e free by auto

lemma preempt_keeps_lock:
  assumes inv: "sched_inv s T sp rs" and off: "get_intr_status s = INTR_OFF" and r: "r = running_thread s"
    and st: "status (tasks s r) = TASK_RUNNING" and ys: "rs @ [r] = n # ys" and L: "ioq_locked q T c s"
  shows "\<exists>t. schedule s = Ok () t \<and> sched_inv t T sp ys \<and> running_thread t = n \<and> ioq_locked q T c t \<and>
    kernel.more t = kernel.more s \<and> mem t = mem s \<and> get_intr_status t = INTR_OFF"
proof -
  note S = schedule_running_eq [OF inv off r st ys] and I = sched_invD [OF inv]
  obtain ts where t: "schedule s = Ok () (switch_to r n (dispatched n (sp n) ts (requeued s)))"
      "sched_inv (switch_to r n (dispatched n (sp n) ts (requeued s))) T sp ys"
      "running_thread (switch_to r n (dispatched n (sp n) ts (requeued s))) = n"
    using S(2) by blast
  let ?t = "switch_to r n (dispatched n (sp n) ts (requeued s))"
  have sub: "set (rs @ [r]) \<subseteq> T" using I(2,3) r by auto
  then have ysT: "set ys \<subseteq> T" unfolding ys by simp
  have w: "dll s (waiters (semaphore q)) []" using L by (simp add: ioq_locked_def)
  have "foot (thread_ready_list s) (map general_tag (r # rs)) \<inter> foot (waiters (semaphore q)) [] = {}"
    using sub by (intro ready_apart [OF L]) simp
  then have "dll (requeued s) (waiters (semaphore q)) []"
    using kl.append_frame [OF I(1) w, of "general_tag r"] by (simp add: r)
  then have "dll ?t (waiters (semaphore q)) []"
    using switched_frame [of "requeued s" n ys] S(1) ready_apart [OF L ysT] by simp
  then have "ioq_locked q T c ?t" by (intro ioq_locked_cong [OF L]) simp_all
  then show ?thesis using t off by auto
qed

lemma ioq_release:
  assumes L: "ioq_locked q T (running_thread s) s" and inv: "sched_inv s T sp rs" and off: "get_intr_status s = INTR_OFF"
  shows "lock_release q s = Ok () (unlocked q s)" and "sched_inv (unlocked q s) T sp rs"
    and "get_intr_status (unlocked q s) = INTR_OFF" and "mem (unlocked q s) = mem s"
    and "kernel.more (unlocked q s) = kernel.more s" and "running_thread (unlocked q s) = running_thread s"
    and "tasks (unlocked q s) = tasks s"
proof -
  show "lock_release q s = Ok () (unlocked q s)"
    using L list_empty_dll [of s "waiters (semaphore q)" "[]"]
    by (intro lock_release_free) (simp_all add: ioq_locked_def)
  show "sched_inv (unlocked q s) T sp rs"
    using inv by (subst sched_inv_cong [where s = s]) (simp_all add: unlocked_def set_value_def set_holder_def set_repeat_def)
  show "get_intr_status (unlocked q s) = INTR_OFF" "mem (unlocked q s) = mem s"
    "kernel.more (unlocked q s) = kernel.more s" "running_thread (unlocked q s) = running_thread s"
    "tasks (unlocked q s) = tasks s"
    using off by (simp_all add: unlocked_def set_value_def set_holder_def set_repeat_def get_intr_status_def running_thread_def)
qed

text \<open>A thread that slept in \<open>ioq_wait\<close> and runs again while there is a byte takes it.\<close>

lemma ioq_resume_takes:
  fixes s :: "'e device_scheme"
  assumes R: "ioq_ready q T sp rs s" and L: "ioq_locked q T (running_thread s) s" and xs: "ioq_list q s = x # xs"
    and p: "ioq_producer s q = NULL"
  shows "\<exists>t. ioq_getchar_resume q s = Ok x t \<and> ioq_ready q T sp rs t \<and> ioq_list q t = xs"
proof -
  let ?v = "unlocked q s"
  have inv: "sched_inv s T sp rs" "get_intr_status s = INTR_OFF" "ioq_wf q s" using R by (simp_all add: ioq_ready_def)
  note V = ioq_release [OF L inv(1,2)] and D = device_fields_more [OF ioq_release(5) [OF L inv(1,2)]]
  have rv: "ioq_ready q T sp rs ?v" using R V by (simp add: ioq_ready_def ioq_wf_def D sleeper_def)
  have lv: "ioq_list q ?v = x # xs" using xs by (simp add: ioq_list_def ioq_count_def D V(4))
  have "ioq_getchar_resume q s = ioq_get_take q ?v"
    using V(1,3) inv(2) rv lv ioq_empty_iff [of q ?v]
    by (simp add: ioq_getchar_resume_def thread_block_resume_def set_intr_status_eq cli_id ioq_get_wait_def
        ioq_empty_def ioq_ready_def)
  then show ?thesis using ioq_take_ok [OF rv lv] p by (auto simp: awake_def D)
qed

lemma ioq_put_wakes:
  fixes s :: "'e device_scheme"
  assumes R: "ioq_ready q T sp rs s" and L: "ioq_locked q T c s" and c: "ioq_consumer s q = c" "c \<noteq> NULL"
    and room: "length (ioq_list q s) < 63" and run: "status (tasks s (running_thread s)) = TASK_RUNNING"
  shows "\<exists>t. ioq_putchar q b s = Ok () t \<and> ioq_ready q T sp (c # rs) t \<and> ioq_list q t = ioq_list q s @ [b] \<and>
    ioq_producer t q = ioq_producer s q \<and> running_thread t = running_thread s \<and>
    status (tasks t (running_thread s)) = TASK_RUNNING \<and> ioq_locked q T c t \<and> ioq_consumer t q = NULL"
proof -
  let ?u = "s\<lparr>mem := (mem s)(ioq_buf q + ioq_head s q := b), ioq_head := (ioq_head s)(q := next_pos (ioq_head s q))\<rparr>"
  let ?t = "set_waiter (Consumer q) NULL (woken c ?u)"
  have iu: "sched_inv ?u T sp rs" using R by (simp add: ioq_ready_def)
  have sl: "sleeper T ?u c" "c \<in> T" "c \<noteq> running_thread s" using R c by (auto simp: ioq_ready_def sleeper_def)
  have put: "ioq_putchar q b s = Ok () ?t"
    using ioq_putchar_stores [OF R room, of b] c wakeup_ok [OF iu, of "Consumer q"] sl by (simp add: ioq_put_store_def)
  have "ioq_locked q T c ?t"
  proof -
    have lu: "ioq_locked q T c ?u" using L by (simp add: ioq_locked_def)
    have "dll (woken c ?u) (waiters (semaphore q)) []"
      using lu ready_apart [OF lu, of "c # rs"] sl(2) sched_invD(3) [OF iu]
      by (intro woken_frame [OF iu]) (auto simp: ioq_locked_def)
    then show ?thesis by (intro ioq_locked_cong [OF lu]) simp_all
  qed
  then show ?thesis
    using put ioq_store_ok [OF R room, of b] ioq_putchar_stores [OF R room, of b] c run sl(3) by (auto simp: awake_def)
qed

lemma ioq_handover_ok:
  fixes s :: "'e device_scheme"
  assumes R: "ioq_ready q T sp (n # rs) s" and e: "ioq_list q s = []" and c: "c = running_thread s"
    and U: "ioq_unlocked q T s" and free: "ioq_consumer s q = NULL" "ioq_producer s q = NULL" "q + 32 \<noteq> NULL"
  shows "\<exists>s1 s2 s3 s4. ioq_getchar q s = Blocked s1 \<and> running_thread s1 = n \<and> ioq_putchar q b s1 = Ok () s2 \<and>
    schedule s2 = Ok () s3 \<and> running_thread s3 = c \<and> ioq_getchar_resume q s3 = Ok b s4 \<and>
    ioq_list q s4 = [] \<and> sched_inv s4 T sp (rs @ [n])"
proof -
  obtain s1 where s1: "ioq_getchar q s = Blocked s1" "ioq_ready q T sp rs s1" "running_thread s1 = n"
      "ioq_list q s1 = []" "ioq_consumer s1 q = c" "ioq_producer s1 q = NULL" "ioq_locked q T c s1"
      "status (tasks s1 n) = TASK_RUNNING"
    using ioq_getchar_sleeps [OF R e c U free(1,3)] free(2) by auto
  have c0: "c \<noteq> NULL" using R c sched_invD(2,7) [of s T sp "n # rs"] by (auto simp: ioq_ready_def)
  obtain s2 where s2: "ioq_putchar q b s1 = Ok () s2" "ioq_ready q T sp (c # rs) s2" "ioq_list q s2 = [b]"
      "ioq_producer s2 q = NULL" "running_thread s2 = n" "status (tasks s2 n) = TASK_RUNNING" "ioq_locked q T c s2"
      "ioq_consumer s2 q = NULL"
    using ioq_put_wakes [OF s1(2,7,5) c0, of b] s1 by auto
  obtain s3 where s3: "schedule s2 = Ok () s3" "sched_inv s3 T sp (rs @ [n])" "running_thread s3 = c"
      "ioq_locked q T c s3" "kernel.more s3 = kernel.more s2" "mem s3 = mem s2" "get_intr_status s3 = INTR_OFF"
    using preempt_keeps_lock [of s2 T sp "c # rs" n c "rs @ [n]" q c] s2 by (auto simp: ioq_ready_def)
  note D = device_fields_more [OF s3(5)]
  have "ioq_list q s3 = [b]" using s2(3) by (simp add: ioq_list_def ioq_count_def D s3(6))
  moreover have "ioq_ready q T sp (rs @ [n]) s3"
    using s2(2,4,8) s3(2,7) by (simp add: ioq_ready_def ioq_wf_def D sleeper_def)
  ultimately obtain s4 where "ioq_getchar_resume q s3 = Ok b s4" "ioq_ready q T sp (rs @ [n]) s4" "ioq_list q s4 = []"
    using ioq_resume_takes [of q T sp "rs @ [n]" s3 b "[]"] s3(3,4) s2(4) by (auto simp: D)
  then show ?thesis using s1(1,3) s2(1) s3(1,3) by (auto simp: ioq_ready_def)
qed


section \<open>A queue at rest\<close>

text \<open>Nobody sleeps on the queue and its lock is free; \<open>c\<close> runs and \<open>rs\<close> are ready.\<close>

definition ioq_idle :: "u32 \<Rightarrow> u32 set \<Rightarrow> (u32 \<Rightarrow> u32) \<Rightarrow> u32 list \<Rightarrow> u32 \<Rightarrow> 'e device_scheme \<Rightarrow> bool" where
  "ioq_idle q T sp rs c s \<longleftrightarrow> ioq_ready q T sp rs s \<and> ioq_unlocked q T s \<and> running_thread s = c \<and>
     ioq_producer s q = NULL \<and> ioq_consumer s q = NULL \<and> q + 28 \<noteq> NULL \<and> q + 32 \<noteq> NULL"

text \<open>The thread \<open>c\<close> sleeps in the call \<open>op\<close> with the lock in its hand, and \<open>n\<close> runs.\<close>

definition ioq_asleep ::
    "u32 \<Rightarrow> u32 set \<Rightarrow> (u32 \<Rightarrow> u32) \<Rightarrow> u32 \<Rightarrow> u32 list \<Rightarrow> u32 \<Rightarrow> u8 qop \<Rightarrow> 'e device_scheme \<Rightarrow> bool" where
  "ioq_asleep q T sp n rs c op s \<longleftrightarrow> ioq_ready q T sp rs s \<and> running_thread s = n \<and> ioq_locked q T c s \<and>
     status (tasks s c) = TASK_BLOCKED \<and> ioq_producer s q = (if op = Get then NULL else c) \<and>
     ioq_consumer s q = (if op = Get then c else NULL)"

lemma ioq_unlocked_device:
  fixes s :: "'e device_scheme"
  shows "ioq_unlocked q T (s\<lparr>ioq_tail := a\<rparr>) = ioq_unlocked q T s"
    "ioq_unlocked q T (s\<lparr>mem := m, ioq_head := b\<rparr>) = ioq_unlocked q T s"
  by (simp_all add: ioq_unlocked_def)

interpretation ioq_rest: blocking_fifo "ioq_idle q T sp (n # rs) c" "ioq_list q" 63 "ioq_putchar q" "ioq_getchar q"
    "ioq_asleep q T sp n rs c" for q T sp n rs c
proof
  fix s :: "'a device_scheme" and x
  assume I: "ioq_idle q T sp (n # rs) c s"
  then have R: "ioq_ready q T sp (n # rs) s" and U: "ioq_unlocked q T s" and c: "c = running_thread s"
    and f: "ioq_producer s q = NULL" "ioq_consumer s q = NULL" "q + 28 \<noteq> NULL" "q + 32 \<noteq> NULL"
    by (simp_all add: ioq_idle_def)
  show "\<exists>t. ioq_putchar q x s = Ok () t \<and> ioq_idle q T sp (n # rs) c t \<and> ioq_list q t = ioq_list q s @ [x]"
    if room: "length (ioq_list q s) < 63"
  proof -
    let ?u = "s\<lparr>mem := (mem s)(ioq_buf q + ioq_head s q := x), ioq_head := (ioq_head s)(q := next_pos (ioq_head s q))\<rparr>"
    have "ioq_putchar q x s = Ok () ?u" using ioq_putchar_stores [OF R room, of x] f by (simp add: ioq_put_store_def)
    then show ?thesis
      using ioq_store_ok [OF R room, of x] ioq_putchar_stores [OF R room, of x] U c f
      by (simp add: ioq_idle_def awake_def ioq_unlocked_device)
  qed
  show "\<exists>t. ioq_getchar q s = Ok x t \<and> ioq_idle q T sp (n # rs) c t \<and> ioq_list q t = xs" if xs: "ioq_list q s = x # xs" for xs
  proof -
    let ?u = "s\<lparr>ioq_tail := (ioq_tail s)(q := next_pos (ioq_tail s q))\<rparr>"
    have g: "ioq_getchar q s = ioq_get_take q s" using ioq_getchar_takes [OF R] xs by simp
    have "\<exists>y. ioq_get_take q s = Ok y ?u" using f by (simp add: ioq_get_take_def)
    then show ?thesis
      using ioq_take_ok [OF R xs] U c f g by (auto simp: ioq_idle_def awake_def ioq_unlocked_device)
  qed
  show "\<exists>t. ioq_putchar q x s = Blocked t \<and> ioq_list q t = ioq_list q s \<and> ioq_asleep q T sp n rs c (Put x) t"
    if "63 \<le> length (ioq_list q s)"
  proof -
    have full: "length (ioq_list q s) = 63" using that ioq_length [of q s] by simp
    show ?thesis using ioq_sleeps [OF R c U, of "Producer q"] ioq_putchar_waits [OF R full, of _ x] f
      by (auto simp: ioq_asleep_def)
  qed
  show "\<exists>t. ioq_getchar q s = Blocked t \<and> ioq_list q t = [] \<and> ioq_asleep q T sp n rs c Get t" if e: "ioq_list q s = []"
    using ioq_sleeps [OF R c U, of "Consumer q"] ioq_getchar_waits [OF R e] f e by (auto simp: ioq_asleep_def)
qed

section \<open>Properties\<close>

lemma demo_device_rep:
  "sema_rep (lock_init 0xc0003200 (sti demo_kernel)) demo_threads demo_dirs (semaphore 0xc0003200) 0xc009e000
    [0xc0100000, 0xc0101000] [] 1 True"
  by (rule demo_lock_rep_at) (simp add: span_def general_tag_def)

lemma demo_device_ready: "ioq_ready 0xc0003200 demo_threads demo_dirs [0xc0100000, 0xc0101000] demo_device"
  using demo_device_sched by (simp add: ioq_ready_def demo_device_kernel ioq_wf_def sleeper_def)

text \<open>With a thread of the other side asleep, too, every sequence of calls that a queue of 63 bytes allows has the outputs of that
  queue; the sleeper is woken on the way.\<close>

theorem ioq_allowed_calls:
  assumes "ioq_inv q s" and "spec_run 63 ops (ioq_list q s) = Some (out, xs)"
  shows "\<exists>t. queue_run (ioq_putchar q) (ioq_getchar q) ops s = Ok out t \<and> ioq_inv q t \<and> ioq_list q t = xs \<and>
    out @ ioq_list q t = ioq_list q s @ inputs ops"
  using ioq.run_refines [OF assms] spec_run_order [OF assms(2)] by auto

text \<open>C10: The ring buffer with its lock refines a bounded queue of 63 bytes, for every sequence of \<open>ioq_putchar\<close> and \<open>ioq_getchar\<close>
  by a thread \<open>c\<close> on a queue at rest, with another thread \<open>n\<close> ready. If the bounded queue allows all the calls, they return
  with the bytes that queue gives, so in the order in which they went in, none lost or doubled, and the queue
  is at rest again. Otherwise the run stops at the first call that the bounded queue does not allow, a get
  when it is empty or a put when it is full: this call puts \<open>c\<close> to sleep, recorded as the consumer or the
  producer and holding the lock of the queue, the contents are those of the bounded queue at that point, and \<open>n\<close> runs.\<close>
theorem ioq_refines_fifo:
  fixes s :: "'e device_scheme"
  assumes "ioq_idle q T sp (n # rs) c s"
  shows "case spec_stop 63 ops (ioq_list q s) of
      None \<Rightarrow> \<exists>out t. queue_run (ioq_putchar q) (ioq_getchar q) ops s = Ok out t \<and> ioq_idle q T sp (n # rs) c t \<and>
        spec_run 63 ops (ioq_list q s) = Some (out, ioq_list q t) \<and> out @ ioq_list q t = ioq_list q s @ inputs ops
    | Some (xs, op) \<Rightarrow> \<exists>t. queue_run (ioq_putchar q) (ioq_getchar q) ops s = Blocked t \<and> ioq_list q t = xs \<and>
        running_thread t = n \<and> status (tasks t c) = TASK_BLOCKED \<and> ioq_locked q T c t \<and>
        ioq_producer t q = (if op = Get then NULL else c) \<and> ioq_consumer t q = (if op = Get then c else NULL)"
proof (cases "spec_stop 63 ops (ioq_list q s)")
  case None
  obtain out t where t: "queue_run (ioq_putchar q) (ioq_getchar q) ops s = Ok out t" "ioq_idle q T sp (n # rs) c t"
      "spec_run 63 ops (ioq_list q s) = Some (out, ioq_list q t)"
    using ioq_rest.run_through [OF assms None] by blast
  then show ?thesis using None spec_run_order [OF t(3)] by auto
next
  case (Some a)
  obtain xs op where a: "a = (xs, op)" by (cases a)
  then show ?thesis
    using ioq_rest.run_stops [OF assms, of ops xs op] Some by (auto simp: ioq_asleep_def)
qed

lemma demo_device_inv: "ioq_inv 0xc0003200 demo_device"
  using demo_device_ready by (auto simp: ioq_inv_def)

lemma demo_device_empty: "ioq_list 0xc0003200 demo_device = []"
  by (simp add: ioq_list_def ioq_count_def demo_device_kernel)

lemma demo_device_unlocked: "ioq_unlocked 0xc0003200 demo_threads demo_device"
proof -
  note R = sema_repD [OF demo_device_rep]
  have "dll demo_device (waiters (semaphore 0xc0003200)) []"
    using R(4) by (simp add: dll_def demo_device_kernel cli_def)
  moreover have "foot 0xc0003000 [] \<inter> foot (waiters (semaphore 0xc0003200)) [] = {}"
    "\<forall>t\<in>demo_threads. general_tag t \<notin> foot (waiters (semaphore 0xc0003200)) []"
    by (simp_all add: span_def general_tag_def)
  ultimately show ?thesis by (simp add: ioq_unlocked_def demo_device_kernel running_thread_def)
qed

lemma demo_device_idle: "ioq_idle 0xc0003200 demo_threads demo_dirs [0xc0100000, 0xc0101000] 0xc009e000 demo_device"
  using demo_device_ready demo_device_unlocked by (simp add: ioq_idle_def demo_device_kernel running_thread_def)

theorem ioq_refines_fifo_witness:
  "(\<exists>t. queue_run (ioq_putchar 0xc0003200) (ioq_getchar 0xc0003200) [Put 7, Put 8, Get, Put 9, Get] demo_device
     = Ok [7, 8] t \<and> ioq_list 0xc0003200 t = [9]) \<and>
   (\<exists>t. queue_run (ioq_putchar 0xc0003200) (ioq_getchar 0xc0003200) [Put 7, Get, Get, Put 8] demo_device = Blocked t \<and>
     ioq_consumer t 0xc0003200 = 0xc009e000 \<and> running_thread t = 0xc0100000)"
  using ioq_refines_fifo [OF demo_device_idle, of "[Put 7, Put 8, Get, Put 9, Get]"]
    ioq_refines_fifo [OF demo_device_idle, of "[Put 7, Get, Get, Put 8]"]
  by (auto simp: demo_device_empty)

text \<open>C11: A byte reaches a consumer that waits for it. A thread that calls \<open>ioq_getchar\<close> on an empty queue gives the
  processor to the next ready thread; when that one stores a byte with \<open>ioq_putchar\<close>, the sleeper is
  the first of the ready list, and at the next preemption it runs, gets out of \<open>ioq_getchar\<close> with
  that byte and leaves the queue empty.\<close>
theorem ioq_handover:
  fixes s :: "'e device_scheme"
  assumes "ioq_ready q T sp (n # rs) s" and "ioq_list q s = []" and "c = running_thread s"
    and "ioq_unlocked q T s" and "ioq_consumer s q = NULL" and "ioq_producer s q = NULL" and "q + 32 \<noteq> NULL"
  shows "\<exists>s1 s2 s3 s4. ioq_getchar q s = Blocked s1 \<and> running_thread s1 = n \<and> ioq_putchar q b s1 = Ok () s2 \<and>
    schedule s2 = Ok () s3 \<and> running_thread s3 = c \<and> ioq_getchar_resume q s3 = Ok b s4 \<and>
    ioq_list q s4 = [] \<and> sched_inv s4 T sp (rs @ [n])"
  using assms by (rule ioq_handover_ok)

theorem ioq_handover_witness:
  "\<exists>s1 s2 s3 s4. ioq_getchar 0xc0003200 demo_device = Blocked s1 \<and> running_thread s1 = 0xc0100000 \<and>
     ioq_putchar 0xc0003200 65 s1 = Ok () s2 \<and> schedule s2 = Ok () s3 \<and> running_thread s3 = 0xc009e000 \<and>
     ioq_getchar_resume 0xc0003200 s3 = Ok 65 s4 \<and> ioq_list 0xc0003200 s4 = []"
  using ioq_handover [OF demo_device_ready demo_device_empty refl demo_device_unlocked, of 65]
  by (auto simp: demo_device_kernel running_thread_def)

end
