(* ===== verification/Keyboard.thy ===== *)
theory Keyboard
  imports Ioqueue
begin

text \<open>
  The keyboard driver, \<open>device/keyboard.c\<close> and \<open>device/keyboard.h\<close>: the interrupt handler that follows the state of the
  modifier keys, turns scan codes into characters with the table \<open>keymap\<close> and puts them into the
  buffer \<open>kbd_buf\<close>, and the initialisation.
\<close>

section \<open>Codes\<close>

abbreviation (input) chr8 :: "char \<Rightarrow> u8" where "chr8 c \<equiv> of_char c"

definition KBD_BUF_PORT :: u16 where "KBD_BUF_PORT = 0x60"

definition esc :: u8 where "esc = 0x1b"
definition backspace :: u8 where "backspace = 0x08"
definition tab :: u8 where "tab = 0x09"
definition enter :: u8 where "enter = 0x0d"

definition char_invisible :: u8 where "char_invisible = 0"
definition ctrl_l_char :: u8 where "ctrl_l_char = char_invisible"
definition shift_l_char :: u8 where "shift_l_char = char_invisible"
definition shift_r_char :: u8 where "shift_r_char = char_invisible"
definition alt_l_char :: u8 where "alt_l_char = char_invisible"
definition caps_lock_char :: u8 where "caps_lock_char = char_invisible"

definition shift_l_make :: u16 where "shift_l_make = 0x2a"
definition shift_r_make :: u16 where "shift_r_make = 0x36"
definition alt_l_make :: u16 where "alt_l_make = 0x38"
definition alt_r_make :: u16 where "alt_r_make = 0xe038"
definition ctrl_l_make :: u16 where "ctrl_l_make = 0x1d"
definition ctrl_r_make :: u16 where "ctrl_r_make = 0xe01d"
definition caps_lock_make :: u16 where "caps_lock_make = 0x3a"

definition keymap :: "(u8 \<times> u8) list" where
  "keymap =
     [(0, 0), (esc, esc), (chr8 CHR ''1'', chr8 CHR ''!''), (chr8 CHR ''2'', chr8 CHR ''@''),
      (chr8 CHR ''3'', chr8 CHR ''#''), (chr8 CHR ''4'', chr8 CHR ''$''),
      (chr8 CHR ''5'', chr8 CHR ''%''), (chr8 CHR ''6'', chr8 CHR ''^''),
      (chr8 CHR ''7'', chr8 CHR ''&''), (chr8 CHR ''8'', chr8 CHR ''*''),
      (chr8 CHR ''9'', chr8 CHR ''(''), (chr8 CHR ''0'', chr8 CHR '')''),
      (chr8 CHR ''-'', chr8 CHR ''_''), (chr8 CHR ''='', chr8 CHR ''+''), (backspace, backspace),
      (tab, tab), (chr8 CHR ''q'', chr8 CHR ''Q''), (chr8 CHR ''w'', chr8 CHR ''W''),
      (chr8 CHR ''e'', chr8 CHR ''E''), (chr8 CHR ''r'', chr8 CHR ''R''),
      (chr8 CHR ''t'', chr8 CHR ''T''), (chr8 CHR ''y'', chr8 CHR ''Y''),
      (chr8 CHR ''u'', chr8 CHR ''U''), (chr8 CHR ''i'', chr8 CHR ''I''),
      (chr8 CHR ''o'', chr8 CHR ''O''), (chr8 CHR ''p'', chr8 CHR ''P''),
      (chr8 CHR ''['', chr8 CHR ''{''), (chr8 CHR '']'', chr8 CHR ''}''), (enter, enter),
      (ctrl_l_char, ctrl_l_char), (chr8 CHR ''a'', chr8 CHR ''A''), (chr8 CHR ''s'', chr8 CHR ''S''),
      (chr8 CHR ''d'', chr8 CHR ''D''), (chr8 CHR ''f'', chr8 CHR ''F''),
      (chr8 CHR ''g'', chr8 CHR ''G''), (chr8 CHR ''h'', chr8 CHR ''H''),
      (chr8 CHR ''j'', chr8 CHR ''J''), (chr8 CHR ''k'', chr8 CHR ''K''),
      (chr8 CHR ''l'', chr8 CHR ''L''), (chr8 CHR '';'', chr8 CHR '':''), (0x27, 0x22),
      (0x60, chr8 CHR ''~''), (shift_l_char, shift_l_char), (0x5C, chr8 CHR ''|''),
      (chr8 CHR ''z'', chr8 CHR ''Z''), (chr8 CHR ''x'', chr8 CHR ''X''),
      (chr8 CHR ''c'', chr8 CHR ''C''), (chr8 CHR ''v'', chr8 CHR ''V''),
      (chr8 CHR ''b'', chr8 CHR ''B''), (chr8 CHR ''n'', chr8 CHR ''N''),
      (chr8 CHR ''m'', chr8 CHR ''M''), (chr8 CHR '','', chr8 CHR ''<''),
      (chr8 CHR ''.'', chr8 CHR ''>''), (chr8 CHR ''/'', chr8 CHR ''?''), (shift_r_char, shift_r_char),
      (chr8 CHR ''*'', chr8 CHR ''*''), (alt_l_char, alt_l_char), (chr8 CHR '' '', chr8 CHR '' ''),
      (caps_lock_char, caps_lock_char)]"

section \<open>Routines\<close>

text \<open>The part of the handler for a key that goes up.\<close>

definition key_released :: "u16 \<Rightarrow> 'e device_scheme \<Rightarrow> 'e device_scheme" where
  "key_released make_code s =
     (if make_code = ctrl_l_make \<or> make_code = ctrl_r_make then s\<lparr>ctrl_status := False\<rparr>
      else if make_code = shift_l_make \<or> make_code = shift_r_make then s\<lparr>shift_status := False\<rparr>
      else if make_code = alt_l_make \<or> make_code = alt_r_make then s\<lparr>alt_status := False\<rparr>
      else s)"

text \<open>The keys whose two characters depend on the shift key alone.\<close>

definition two_characters :: "u16 \<Rightarrow> bool" where
  "two_characters scancode \<longleftrightarrow> scancode < 0x0e \<or> scancode = 0x29 \<or> scancode = 0x1a \<or> scancode = 0x1b \<or>
     scancode = 0x2b \<or> scancode = 0x27 \<or> scancode = 0x28 \<or> scancode = 0x33 \<or> scancode = 0x34 \<or> scancode = 0x35"

text \<open>The part for a key of the table that goes down.\<close>

definition key_pressed :: "bool \<Rightarrow> bool \<Rightarrow> u16 \<Rightarrow> 'e device_scheme \<Rightarrow> (unit, 'e device_scheme) res" where
  "key_pressed shift_down_last caps_lock_last scancode s =
     (let shift = (if two_characters scancode then shift_down_last else shift_down_last \<noteq> caps_lock_last);
          scancode = scancode AND 0x00ff;
          index = ucast scancode :: u8;
          entry = keymap ! unat index;
          cur_char = (if shift then snd entry else fst entry)
      in if cur_char \<noteq> 0
         then bind (ioq_full (addr_of s Keyboard_buf) s) (\<lambda>full s.
              if \<not> full then ioq_putchar (addr_of s Keyboard_buf) cur_char s else Ok () s)
         else Ok ()
           (if scancode = ctrl_l_make \<or> scancode = ctrl_r_make then s\<lparr>ctrl_status := True\<rparr>
            else if scancode = shift_l_make \<or> scancode = shift_r_make then s\<lparr>shift_status := True\<rparr>
            else if scancode = alt_l_make \<or> scancode = alt_r_make then s\<lparr>alt_status := True\<rparr>
            else if scancode = caps_lock_make then s\<lparr>caps_lock_status := \<not> caps_lock_status s\<rparr>
            else s))"

definition intr_keyboard_handler :: "'e device_scheme \<Rightarrow> (unit, 'e device_scheme) res" where
  "intr_keyboard_handler s =
     (let shift_down_last = shift_status s;
          caps_lock_last = caps_lock_status s;
          scancode = ucast (inb KBD_BUF_PORT s) :: u16
      in if scancode = 0xe0 then Ok () (s\<lparr>ext_scancode := True\<rparr>)
         else let (scancode, s) = (if ext_scancode s then (0xe000 OR scancode, s\<lparr>ext_scancode := False\<rparr>) else (scancode, s));
                  break_code = (scancode AND 0x0080 \<noteq> 0)
              in if break_code then Ok () (key_released (scancode AND 0xff7f) s)
                 else if (scancode > 0x00 \<and> scancode < 0x3b) \<or> scancode = alt_r_make \<or> scancode = ctrl_r_make
                 then key_pressed shift_down_last caps_lock_last scancode s
                 else Ok () (put_str (ln ''unknown key'') s))"

definition keyboard_init :: "'e device_scheme \<Rightarrow> 'e device_scheme" where
  "keyboard_init s =
     (let s = put_str (ln ''keyboard init start'') s;
          s = ioqueue_init (addr_of s Keyboard_buf) s;
          s = register_handler 0x21 (addr_of s Intr_keyboard_handler) s
      in put_str (ln ''keyboard init done'') s)"

section \<open>The keyboard as a state machine\<close>

text \<open>
  What the scan codes mean, told without codes: a key goes down or up, and a key is a modifier, a key of two
  signs, a letter or of no meaning. A sign follows the shift key alone; a letter is a capital when exactly one of
  shift and caps lock is on. Only the two columns of the table are taken from the driver. The state is the record of the modifiers.
\<close>

datatype key = Ctrl | Shift | Alt | Caps | Sign u8 u8 | Letter u8 | Unknown

record modifiers =
  m_ctrl :: bool
  m_shift :: bool
  m_alt :: bool
  m_caps :: bool
  m_ext :: bool

definition key_at :: "bool \<Rightarrow> u8 \<Rightarrow> key" where
  "key_at ext c =
     (if c = 0x1d then Ctrl else if c = 0x38 then Alt
      else if ext then Unknown
      else if c = 0x2a \<or> c = 0x36 then Shift else if c = 0x3a then Caps
      else if c = 0 \<or> 0x3b \<le> c then Unknown
      else if 0x61 \<le> fst (keymap ! unat c) \<and> fst (keymap ! unat c) \<le> 0x7a then Letter (fst (keymap ! unat c))
      else Sign (fst (keymap ! unat c)) (snd (keymap ! unat c)))"

fun key_up :: "key \<Rightarrow> modifiers \<Rightarrow> modifiers" where
  "key_up Ctrl m = m\<lparr>m_ctrl := False\<rparr>"
| "key_up Shift m = m\<lparr>m_shift := False\<rparr>"
| "key_up Alt m = m\<lparr>m_alt := False\<rparr>"
| "key_up _ m = m"

fun key_down :: "key \<Rightarrow> modifiers \<Rightarrow> modifiers \<times> u8 list" where
  "key_down Ctrl m = (m\<lparr>m_ctrl := True\<rparr>, [])"
| "key_down Shift m = (m\<lparr>m_shift := True\<rparr>, [])"
| "key_down Alt m = (m\<lparr>m_alt := True\<rparr>, [])"
| "key_down Caps m = (m\<lparr>m_caps := \<not> m_caps m\<rparr>, [])"
| "key_down (Sign a b) m = (m, [if m_shift m then b else a])"
| "key_down (Letter a) m = (m, [if m_shift m \<noteq> m_caps m then a - 0x20 else a])"
| "key_down Unknown m = (m, [])"

definition kbd_step :: "u8 \<Rightarrow> modifiers \<Rightarrow> modifiers \<times> u8 list" where
  "kbd_step b m =
     (if b = 0xe0 then (m\<lparr>m_ext := True\<rparr>, [])
      else let k = key_at (m_ext m) (b AND 0x7f); m = m\<lparr>m_ext := False\<rparr>
           in if bit b 7 then (key_up k m, []) else key_down k m)"

fun kbd_run :: "u8 list \<Rightarrow> modifiers \<Rightarrow> modifiers \<times> u8 list" where
  "kbd_run [] m = (m, [])"
| "kbd_run (b # bs) m = (let (m, cs) = kbd_step b m; (m, ds) = kbd_run bs m in (m, cs @ ds))"

text \<open>The driver: one interrupt for each byte the controller presents.\<close>

fun kbd_irqs :: "u8 list \<Rightarrow> 'e device_scheme \<Rightarrow> (unit, 'e device_scheme) res" where
  "kbd_irqs [] s = Ok () s"
| "kbd_irqs (b # bs) s =
     bind (intr_keyboard_handler (s\<lparr>port_in := (port_in s)(KBD_BUF_PORT := b)\<rparr>)) (\<lambda>_ s. kbd_irqs bs s)"

definition mods :: "'e device_scheme \<Rightarrow> modifiers" where
  "mods s = \<lparr>m_ctrl = ctrl_status s, m_shift = shift_status s, m_alt = alt_status s, m_caps = caps_lock_status s,
     m_ext = ext_scancode s\<rparr>"

section \<open>Decoding\<close>

definition full_code :: "bool \<Rightarrow> u8 \<Rightarrow> u16" where
  "full_code ext b = (if ext then 0xe000 OR ucast b else ucast b)"

text \<open>The comparisons the handler makes on the code, against the meaning of the key.\<close>

definition up_agrees :: "key \<Rightarrow> u16 \<Rightarrow> bool" where
  "up_agrees k c \<longleftrightarrow> ((c = ctrl_l_make \<or> c = ctrl_r_make) = (k = Ctrl)) \<and>
     ((c = shift_l_make \<or> c = shift_r_make) = (k = Shift)) \<and> ((c = alt_l_make \<or> c = alt_r_make) = (k = Alt))"

definition down_agrees :: "key \<Rightarrow> u16 \<Rightarrow> bool" where
  "down_agrees k c \<longleftrightarrow>
     (let low = c AND 0xff; entry = keymap ! unat (ucast low :: u8) in
      case k of Unknown \<Rightarrow> \<not> (c > 0 \<and> c < 0x3b \<or> c = alt_r_make \<or> c = ctrl_r_make)
      | Sign a b \<Rightarrow> c > 0 \<and> c < 0x3b \<and> (two_characters c \<or> a = b) \<and> entry = (a, b) \<and> a \<noteq> 0 \<and> b \<noteq> 0
      | Letter a \<Rightarrow> c > 0 \<and> c < 0x3b \<and> \<not> two_characters c \<and> entry = (a, a - 0x20) \<and> a \<noteq> 0 \<and> a - 0x20 \<noteq> 0
      | _ \<Rightarrow> (c > 0 \<and> c < 0x3b \<or> c = alt_r_make \<or> c = ctrl_r_make) \<and> entry = (0, 0) \<and> up_agrees k low \<and>
          ((low = caps_lock_make) = (k = Caps)))"

definition decodes :: "bool \<Rightarrow> u8 \<Rightarrow> bool" where
  "decodes ext b \<longleftrightarrow>
     (let c = full_code ext b; k = key_at ext (b AND 0x7f) in
      (c AND 0x80 \<noteq> 0) = bit b 7 \<and> (if bit b 7 then up_agrees k (c AND 0xff7f) else down_agrees k c))"


lemma full_code_inj: "full_code x b = full_code y d \<longleftrightarrow> x = y \<and> b = d"
proof
  assume a: "full_code x b = full_code y d"
  have "b = d"
  proof (rule bit_word_eqI)
    fix n assume "n < LENGTH(8)"
    then show "bit b n = bit d n"
      using arg_cong [OF a, of "\<lambda>c. bit c n"]
      by (auto simp: full_code_def bit_simps numeral_eq_Suc less_Suc_eq split: if_splits)
  qed
  moreover have "x = y"
    using arg_cong [OF a, of "\<lambda>c. bit c 15"] by (auto simp: full_code_def bit_simps dest: bit_imp_le_length split: if_splits)
  ultimately show "x = y \<and> b = d" by simp
qed simp

lemma make_codes:
  "ctrl_l_make = full_code False 0x1d" "ctrl_r_make = full_code True 0x1d" "alt_l_make = full_code False 0x38"
  "alt_r_make = full_code True 0x38" "shift_l_make = full_code False 0x2a" "shift_r_make = full_code False 0x36"
  "caps_lock_make = full_code False 0x3a"
  by (simp_all add: full_code_def ctrl_l_make_def ctrl_r_make_def alt_l_make_def alt_r_make_def shift_l_make_def
      shift_r_make_def caps_lock_make_def)

lemma full_code_break: "full_code ext b AND 0x80 \<noteq> 0 \<longleftrightarrow> bit b 7"
  using and_exp_eq_0_iff_not_bit [of "full_code ext b" 7] by (simp add: full_code_def bit_simps)

lemma full_code_make: "full_code ext b AND 0xff7f = full_code ext (b AND 0x7f)"
  by (rule bit_word_eqI) (auto simp: full_code_def bit_simps numeral_eq_Suc less_Suc_eq dest: bit_imp_le_length)

lemma full_code_low: "full_code ext b AND 0xff = full_code False b" "ucast (full_code ext b) = b"
  by (rule bit_word_eqI; auto simp: full_code_def bit_simps numeral_eq_Suc less_Suc_eq dest: bit_imp_le_length)+

lemma full_code_range: "full_code ext b < 0x3b \<longleftrightarrow> \<not> ext \<and> b < 0x3b" "0 < full_code ext b \<longleftrightarrow> ext \<or> 0 < b"
proof -
  have "0xe000 AND ucast b = (0 :: u16)"
    by (rule bit_word_eqI) (auto simp: bit_simps numeral_eq_Suc less_Suc_eq dest: bit_imp_le_length)
  then have "0xe000 OR ucast b = 0xe000 + (ucast b :: u16)"
    using disjunctive_add_eq_or [of "0xe000 :: u16" "ucast b"] by simp
  moreover have lt: "unat b < 256" using unsigned_less [of b, where 'a = nat] by simp
  moreover from lt have "unat (ucast b :: u16) = unat b"
    by (simp add: unsigned_ucast_eq take_bit_nat_eq_self)
  ultimately have "unat (full_code ext b) = (if ext then 0xe000 + unat b else unat b)"
    by (simp add: full_code_def unat_word_ariths)
  then show "full_code ext b < 0x3b \<longleftrightarrow> \<not> ext \<and> b < 0x3b" "0 < full_code ext b \<longleftrightarrow> ext \<or> 0 < b"
    by (simp_all add: word_less_nat_alt)
qed

lemma up_decodes: "up_agrees (key_at ext d) (full_code ext d)"
  unfolding up_agrees_def make_codes full_code_inj by (auto simp: key_at_def)

text \<open>The entries of the keys that are not modifiers.\<close>

definition entry_ok :: "nat \<Rightarrow> bool" where
  "entry_ok i \<longleftrightarrow> (let (a, b) = keymap ! i in a \<noteq> 0 \<and> b \<noteq> 0 \<and>
     (if 0x61 \<le> a \<and> a \<le> 0x7a then \<not> two_characters (of_nat i) \<and> b = a - 0x20
      else two_characters (of_nat i) \<or> a = b))"

lemma keymap_chars: "list_all (\<lambda>i. i \<in> {0x1d, 0x2a, 0x36, 0x38, 0x3a} \<or> entry_ok i) [1..<0x3b]"
  by (simp add: entry_ok_def keymap_def upt_rec esc_def backspace_def tab_def enter_def two_characters_def)

lemma keymap_modifiers:
  "list_all (\<lambda>i. keymap ! i = (0, 0)) [0, 0x1d, 0x2a, 0x36, 0x38, 0x3a]"
  by (simp add: keymap_def ctrl_l_char_def shift_l_char_def shift_r_char_def alt_l_char_def caps_lock_char_def char_invisible_def)


lemma keymap_char:
  fixes d :: u8
  assumes "0 < d" "d < 0x3b" "d \<notin> {0x1d, 0x2a, 0x36, 0x38, 0x3a}"
  shows "entry_ok (unat d)"
proof -
  have "unat d \<in> set [1..<0x3b]" using assms(1,2) by (simp add: word_less_nat_alt)
  moreover have "unat d \<notin> {0x1d, 0x2a, 0x36, 0x38, 0x3a}"
    using assms(3) by (simp add: word_unat_eq_iff)
  ultimately show ?thesis using keymap_chars unfolding list_all_iff by blast
qed

lemma key_at_cases:
  obtains "key_at ext d = Ctrl" "d = 0x1d" | "key_at ext d = Alt" "d = 0x38"
  | "key_at ext d = Shift" "\<not> ext" "d = 0x2a \<or> d = 0x36" | "key_at ext d = Caps" "\<not> ext" "d = 0x3a"
  | "key_at ext d = Unknown" "d \<noteq> 0x1d" "d \<noteq> 0x38" "ext \<or> d = 0 \<or> \<not> d < 0x3b"
  | "key_at ext d = (if 0x61 \<le> fst (keymap ! unat d) \<and> fst (keymap ! unat d) \<le> 0x7a then Letter (fst (keymap ! unat d))
      else Sign (fst (keymap ! unat d)) (snd (keymap ! unat d)))"
    "\<not> ext" "0 < d" "d < 0x3b" "d \<notin> {0x1d, 0x2a, 0x36, 0x38, 0x3a}"
proof -
  consider "d = 0x1d" | "d = 0x38" | "\<not> ext" "d = 0x2a \<or> d = 0x36" | "\<not> ext" "d = 0x3a"
    | "d \<noteq> 0x1d" "d \<noteq> 0x38" "ext \<or> d = 0 \<or> \<not> d < 0x3b" "\<not> ext \<longrightarrow> d \<notin> {0x2a, 0x36, 0x3a}"
    | "\<not> ext" "d \<noteq> 0" "d < 0x3b" "d \<notin> {0x1d, 0x2a, 0x36, 0x38, 0x3a}"
    by blast
  then show ?thesis
  proof cases
    case 1 then show ?thesis by (intro that(1)) (simp_all add: key_at_def)
  next
    case 2 then show ?thesis by (intro that(2)) (simp_all add: key_at_def)
  next
    case 3 then show ?thesis by (intro that(3)) (auto simp: key_at_def)
  next
    case 4 then show ?thesis by (intro that(4)) (simp_all add: key_at_def)
  next
    case 5 then show ?thesis by (intro that(5)) (auto simp: key_at_def)
  next
    case 6 then show ?thesis by (intro that(6)) (simp_all add: key_at_def word_gt_0 flip: not_less)
  qed
qed

lemma modifier_codes: "list_all (\<lambda>d. keymap ! unat d = (0, 0)) [0x1d, 0x2a, 0x36, 0x38, 0x3a :: u8]"
  using keymap_modifiers by simp

lemma full_code_plain: "two_characters (full_code False d) = two_characters (of_nat (unat d))"
  by (simp add: full_code_def)

lemma down_decodes_char:
  assumes "0 < d" "d < 0x3b" "d \<notin> {0x1d, 0x2a, 0x36, 0x38, 0x3a}"
  shows "down_agrees (if 0x61 \<le> fst (keymap ! unat d) \<and> fst (keymap ! unat d) \<le> 0x7a then Letter (fst (keymap ! unat d))
    else Sign (fst (keymap ! unat d)) (snd (keymap ! unat d))) (full_code False d)"
proof -
  obtain a b where e: "keymap ! unat d = (a, b)" by fastforce
  have "0 < full_code False d" "full_code False d < 0x3b" using assms by (simp_all add: full_code_range)
  then show ?thesis
    using keymap_char [OF assms] e unfolding entry_ok_def down_agrees_def full_code_low full_code_plain
    by (auto simp: Let_def full_code_low)
qed

lemma down_decodes: "down_agrees (key_at ext d) (full_code ext d)"
proof (cases rule: key_at_cases [of ext d])
  case 6
  then show ?thesis using down_decodes_char [of d] by simp
qed (use modifier_codes in \<open>auto simp: down_agrees_def up_agrees_def Let_def full_code_low make_codes full_code_inj
      full_code_range\<close>)

lemma make_code_self: "\<not> bit b 7 \<Longrightarrow> b AND 0x7f = b" for b :: u8
  by (rule bit_word_eqI) (auto simp: bit_simps numeral_eq_Suc less_Suc_eq)

lemma decoding: "decodes ext b"
  using up_decodes [of ext "b AND 0x7f"] down_decodes [of ext b]
  by (auto simp: decodes_def Let_def full_code_break full_code_make make_code_self)

section \<open>The handler\<close>

lemma ioq_inv_cong:
  fixes s t :: "'e device_scheme"
  assumes "node_prev t = node_prev s" "node_next t = node_next s" "tasks t = tasks s" "esp t = esp s" "addr_of t = addr_of s"
    "phys t = phys s" "cr3 t = cr3 s" "eflags t = eflags s" "mem t = mem s" "ioq_head t = ioq_head s" "ioq_tail t = ioq_tail s"
    "ioq_producer t = ioq_producer s" "ioq_consumer t = ioq_consumer s"
  shows "ioq_inv q t = ioq_inv q s" "ioq_list q t = ioq_list q s"
proof -
  have "running_thread t = running_thread s" "get_intr_status t = get_intr_status s"
    using assms by (simp_all add: running_thread_def get_intr_status_def)
  then show "ioq_inv q t = ioq_inv q s"
    using sched_inv_cong [OF assms(1-7)] assms by (simp add: ioq_inv_def ioq_ready_def ioq_wf_def sleeper_def)
  show "ioq_list q t = ioq_list q s" using assms by (simp add: ioq_list_def ioq_count_def)
qed

lemma ioq_inv_keys [simp]:
  fixes s :: "'e device_scheme"
  shows "ioq_inv q (s\<lparr>ctrl_status := b\<rparr>) = ioq_inv q s" "ioq_inv q (s\<lparr>shift_status := b\<rparr>) = ioq_inv q s"
    "ioq_inv q (s\<lparr>alt_status := b\<rparr>) = ioq_inv q s" "ioq_inv q (s\<lparr>caps_lock_status := b\<rparr>) = ioq_inv q s"
    "ioq_inv q (s\<lparr>ext_scancode := b\<rparr>) = ioq_inv q s" "ioq_inv q (s\<lparr>port_in := f\<rparr>) = ioq_inv q s"
    "ioq_inv q (put_str x s) = ioq_inv q s"
  by (rule ioq_inv_cong; simp add: put_str_def)+

lemma ioq_list_keys [simp]:
  fixes s :: "'e device_scheme"
  shows "ioq_list q (s\<lparr>ctrl_status := b\<rparr>) = ioq_list q s" "ioq_list q (s\<lparr>shift_status := b\<rparr>) = ioq_list q s"
    "ioq_list q (s\<lparr>alt_status := b\<rparr>) = ioq_list q s" "ioq_list q (s\<lparr>caps_lock_status := b\<rparr>) = ioq_list q s"
    "ioq_list q (s\<lparr>ext_scancode := b\<rparr>) = ioq_list q s" "ioq_list q (s\<lparr>port_in := f\<rparr>) = ioq_list q s"
    "ioq_list q (put_str x s) = ioq_list q s"
  by (rule ioq_inv_cong; simp add: put_str_def)+

lemma put_str_keys [simp]: "mods (put_str x s) = mods s" "mods (s\<lparr>port_in := f\<rparr>) = mods s"
  "addr_of (put_str x s) = addr_of s"
  by (simp_all add: mods_def put_str_def)

lemma length_ioq_list: "ioq_inv q s \<Longrightarrow> length (ioq_list q s) \<le> 63"
  using ioq_length [of q s] by simp

lemma ioq_store_keys:
  fixes s :: "'e device_scheme"
  assumes "ioq_ready q T sp rs s" and "ioq_put_store q b s = Ok () t"
  shows "mods t = mods s \<and> addr_of t = addr_of s"
proof -
  let ?u = "s\<lparr>mem := (mem s)(ioq_buf q + ioq_head s q := b), ioq_head := (ioq_head s)(q := next_pos (ioq_head s q))\<rparr>"
  have "sched_inv ?u T sp rs" "sleeper T ?u (ioq_consumer s q)" using assms(1) by (simp_all add: ioq_ready_def sleeper_def)
  then have "ioq_put_store q b s = Ok () (if ioq_consumer s q = NULL then ?u
      else set_waiter (Consumer q) NULL (woken (ioq_consumer s q) ?u))"
    using wakeup_ok [of ?u T sp rs "Consumer q"] by (simp add: ioq_put_store_def)
  moreover have "mods (woken p ?u) = mods ?u" for p
    by (simp add: mods_def device_fields_more [of "woken p ?u" ?u])
  ultimately show ?thesis using assms(2) by (auto simp: mods_def)
qed

lemma ioq_full_eq: "ioq_inv q s \<Longrightarrow> ioq_full q s = Ok (length (ioq_list q s) = 63) s"
  by (auto simp: ioq_inv_def ioq_full_def ioq_ready_def ioq_full_iff)

text \<open>The driver's way to the buffer: a character that finds no room is dropped.\<close>

lemma put_char:
  fixes s :: "'e device_scheme"
  assumes "ioq_inv q s"
  shows "\<exists>t. bind (ioq_full q s) (\<lambda>full s. if \<not> full then ioq_putchar q c s else Ok () s) = Ok () t \<and> ioq_inv q t \<and>
    ioq_list q t = take 63 (ioq_list q s @ [c]) \<and> mods t = mods s \<and> addr_of t = addr_of s"
proof -
  obtain T sp rs where R: "ioq_ready q T sp rs s" using assms by (auto simp: ioq_inv_def)
  have full: "ioq_full q s = Ok (length (ioq_list q s) = 63) s" by (rule ioq_full_eq [OF assms])
  show ?thesis
  proof (cases "length (ioq_list q s) = 63")
    case True
    then show ?thesis using full assms by simp
  next
    case False
    then have room: "length (ioq_list q s) < 63" using length_ioq_list [OF assms] by simp
    obtain t where t: "ioq_putchar q c s = Ok () t" "ioq_inv q t" "ioq_list q t = ioq_list q s @ [c]"
      using ioq.put_appends [OF assms room] by blast
    have "mods t = mods s \<and> addr_of t = addr_of s"
      using ioq_store_keys [OF R, of c t] t(1) ioq_putchar_stores [OF R room] by simp
    then show ?thesis using full False t room by simp
  qed
qed

lemma key_released_up:
  assumes "up_agrees k c"
  shows "mods (key_released c s) = key_up k (mods s)" "ioq_inv q (key_released c s) = ioq_inv q s"
    "ioq_list q (key_released c s) = ioq_list q s" "addr_of (key_released c s) = addr_of s"
  using assms by (cases k; auto simp: key_released_def up_agrees_def mods_def)+

lemma key_pressed_down:
  fixes s :: "'e device_scheme"
  assumes "down_agrees k c" and "ioq_inv (addr_of s Keyboard_buf) s" and "k \<noteq> Unknown"
  shows "\<exists>t. key_pressed (shift_status s) (caps_lock_status s) c s = Ok () t \<and> ioq_inv (addr_of s Keyboard_buf) t \<and>
    mods t = fst (key_down k (mods s)) \<and>
    ioq_list (addr_of s Keyboard_buf) t = take 63 (ioq_list (addr_of s Keyboard_buf) s @ snd (key_down k (mods s))) \<and>
    addr_of t = addr_of s"
proof -
  let ?q = "addr_of s Keyboard_buf" and ?e = "keymap ! unat (ucast (c AND 0xff) :: u8)"
  let ?shift = "if two_characters c then shift_status s else shift_status s \<noteq> caps_lock_status s"
  let ?c = "if ?shift then snd ?e else fst ?e"
  show ?thesis
  proof (cases "?e = (0, 0)")
    case True
    have up: "up_agrees k (c AND 0xff)" "(c AND 0xff = caps_lock_make) = (k = Caps)" and k: "k \<in> {Ctrl, Shift, Alt, Caps}"
      using assms(1,3) True by (auto simp: down_agrees_def Let_def split: key.splits)
    have "key_pressed (shift_status s) (caps_lock_status s) c s = Ok ()
        (case k of Ctrl \<Rightarrow> s\<lparr>ctrl_status := True\<rparr> | Shift \<Rightarrow> s\<lparr>shift_status := True\<rparr> | Alt \<Rightarrow> s\<lparr>alt_status := True\<rparr>
         | _ \<Rightarrow> s\<lparr>caps_lock_status := \<not> caps_lock_status s\<rparr>)"
      using up k True by (auto simp: key_pressed_def Let_def up_agrees_def)
    then show ?thesis using k assms(2) length_ioq_list [OF assms(2)] by (auto simp: mods_def)
  next
    case False
    then have c: "?c \<noteq> 0" "key_down k (mods s) = (mods s, [?c])"
      using assms(1,3) by (auto simp: down_agrees_def Let_def up_agrees_def mods_def split: key.splits)
    then have "key_pressed (shift_status s) (caps_lock_status s) c s =
        bind (ioq_full ?q s) (\<lambda>full s. if \<not> full then ioq_putchar (addr_of s Keyboard_buf) ?c s else Ok () s)"
      by (simp add: key_pressed_def Let_def)
    also have "\<dots> = bind (ioq_full ?q s) (\<lambda>full s. if \<not> full then ioq_putchar ?q ?c s else Ok () s)"
      by (simp only: ioq_full_eq [OF assms(2)] bind.simps)
    finally have p: "key_pressed (shift_status s) (caps_lock_status s) c s =
        bind (ioq_full ?q s) (\<lambda>full s. if \<not> full then ioq_putchar ?q ?c s else Ok () s)" .
    show ?thesis unfolding p c(2) fst_conv snd_conv using put_char [OF assms(2), of ?c] by blast
  qed
qed

lemma ucast_e0: "(ucast b :: u16) = 0xe0 \<longleftrightarrow> b = 0xe0" for b :: u8
  using full_code_inj [of False b False "0xe0"] by (simp add: full_code_def)

lemma ext_false: "\<not> ext_scancode s \<Longrightarrow> s\<lparr>ext_scancode := False\<rparr> = s" for s :: "'e device_scheme"
  by simp

lemma handler_step:
  fixes s :: "'e device_scheme"
  assumes inv: "ioq_inv (addr_of s Keyboard_buf) s" and b: "b = port_in s KBD_BUF_PORT"
  shows "\<exists>t. intr_keyboard_handler s = Ok () t \<and> ioq_inv (addr_of s Keyboard_buf) t \<and>
    mods t = fst (kbd_step b (mods s)) \<and>
    ioq_list (addr_of s Keyboard_buf) t = take 63 (ioq_list (addr_of s Keyboard_buf) s @ snd (kbd_step b (mods s))) \<and>
    addr_of t = addr_of s"
proof (cases "b = 0xe0")
  case True
  then show ?thesis
    using inv b length_ioq_list [OF inv]
    by (simp add: intr_keyboard_handler_def inb_def kbd_step_def mods_def)
next
  case False
  let ?c = "full_code (ext_scancode s) b" and ?k = "key_at (ext_scancode s) (b AND 0x7f)"
    and ?s = "s\<lparr>ext_scancode := False\<rparr>"
  have h: "intr_keyboard_handler s =
      (if bit b 7 then Ok () (key_released (?c AND 0xff7f) ?s)
       else if (?c > 0x00 \<and> ?c < 0x3b) \<or> ?c = alt_r_make \<or> ?c = ctrl_r_make
       then key_pressed (shift_status ?s) (caps_lock_status ?s) ?c ?s else Ok () (put_str (ln ''unknown key'') ?s))"
  proof -
    have "(if ext_scancode s then (0xe000 OR ucast b, ?s) else (ucast b, s)) = (?c, ?s)"
      using ext_false [of s] by (simp add: full_code_def)
    moreover have "shift_status ?s = shift_status s" "caps_lock_status ?s = caps_lock_status s" by simp_all
    ultimately show ?thesis
      unfolding intr_keyboard_handler_def Let_def inb_def b [symmetric]
      by (simp only: ucast_e0 False if_False prod.case full_code_break)
  qed
  have D: "decodes (ext_scancode s) b" by (rule decoding)
  have st: "kbd_step b (mods s) = (if bit b 7 then (key_up ?k (mods ?s), []) else key_down ?k (mods ?s))"
    using False by (simp add: kbd_step_def mods_def Let_def)
  show ?thesis
  proof (cases "bit b 7")
    case True
    then show ?thesis
      using h st D key_released_up [where k = ?k and c = "?c AND 0xff7f" and s = ?s] inv length_ioq_list [OF inv] by (simp add: decodes_def Let_def)
  next
    case False
    then have d: "down_agrees ?k ?c" using D by (simp add: decodes_def Let_def)
    show ?thesis
    proof (cases "?k = Unknown")
      case True
      then show ?thesis
        using h st d False inv length_ioq_list [OF inv] by (auto simp: down_agrees_def Let_def)
    next
      case kn: False
      then have "(?c > 0x00 \<and> ?c < 0x3b) \<or> ?c = alt_r_make \<or> ?c = ctrl_r_make"
        using d by (auto simp: down_agrees_def Let_def split: key.splits)
      then show ?thesis using h st False key_pressed_down [OF d _ kn, of ?s] inv by simp
    qed
  qed
qed

lemma irqs_refine:
  fixes s :: "'e device_scheme"
  assumes "ioq_inv (addr_of s Keyboard_buf) s"
  shows "\<exists>t. kbd_irqs bs s = Ok () t \<and> ioq_inv (addr_of s Keyboard_buf) t \<and> mods t = fst (kbd_run bs (mods s)) \<and>
    ioq_list (addr_of s Keyboard_buf) t = take 63 (ioq_list (addr_of s Keyboard_buf) s @ snd (kbd_run bs (mods s)))"
  using assms
proof (induction bs arbitrary: s)
  case Nil
  then show ?case using length_ioq_list [OF Nil] by simp
next
  case (Cons b bs)
  let ?q = "addr_of s Keyboard_buf" and ?s = "s\<lparr>port_in := (port_in s)(KBD_BUF_PORT := b)\<rparr>"
  obtain m cs where st: "kbd_step b (mods s) = (m, cs)" by fastforce
  obtain u where u: "intr_keyboard_handler ?s = Ok () u" "ioq_inv ?q u" "mods u = m"
      "ioq_list ?q u = take 63 (ioq_list ?q s @ cs)" "addr_of u = addr_of s"
    using handler_step [of ?s b] Cons.prems st by auto
  obtain t where t: "kbd_irqs bs u = Ok () t" "ioq_inv ?q t" "mods t = fst (kbd_run bs m)"
      "ioq_list ?q t = take 63 (ioq_list ?q u @ snd (kbd_run bs m))"
    using Cons.IH [of u] u by auto
  have "take 63 (take 63 (xs @ cs) @ ys) = take 63 (xs @ cs @ ys)" for xs ys :: "u8 list"
    using take_append [of 63 "xs @ cs" ys] by (simp add: min_def) 
  then show ?case using u(1,4) t st by (simp add: split_beta)
qed

section \<open>Typing\<close>

text \<open>
  The keys of a keyboard with the US layout, independent of the driver's table: the rows from left to right with the scan
  code of their first key, once without and once with the shift key. A letter is a capital when exactly
  one of shift and caps lock is on, any other key follows the shift key alone.
\<close>

definition us_rows :: "(nat \<times> string \<times> string) list" where
  "us_rows =
     [(0x02, ''1234567890-='', ''!@#$%^&*()_+''),
      (0x10, ''qwertyuiop[]'', ''QWERTYUIOP{}''),
      (0x1e, ''asdfghjkl;'' @ [CHR 0x27, CHR 0x60], ''ASDFGHJKL:'' @ [CHR 0x22, CHR ''~'']),
      (0x2b, CHR 0x5C # ''zxcvbnm,./'', ''|ZXCVBNM<>?''),
      (0x39, '' '', '' '')]"

fun row_keys :: "nat \<Rightarrow> string \<Rightarrow> string \<Rightarrow> (u8 \<times> u8 \<times> u8) list" where
  "row_keys d (a # as) (b # bs) = (of_nat d, of_char a, of_char b) # row_keys (Suc d) as bs"
| "row_keys d _ _ = []"

definition us_keys :: "(u8 \<times> u8 \<times> u8) list" where
  "us_keys = concat (map (\<lambda>(d, as, bs). row_keys d as bs) us_rows)"

definition us_char :: "bool \<Rightarrow> bool \<Rightarrow> u8 \<Rightarrow> u8 \<Rightarrow> u8" where
  "us_char caps sh a b = (if 0x61 \<le> a \<and> a \<le> 0x7a then if sh \<noteq> caps then b else a else if sh then b else a)"

text \<open>The key to press for a character, and the strokes, with the left shift key around it where that is needed.\<close>

definition key_for :: "bool \<Rightarrow> bool \<Rightarrow> u8 \<Rightarrow> u8 option" where
  "key_for caps sh c = map_option fst (find (\<lambda>(d, a, b). us_char caps sh a b = c) us_keys)"

definition strokes :: "bool \<Rightarrow> u8 \<Rightarrow> u8 list" where
  "strokes caps c = (case key_for caps False c of Some d \<Rightarrow> [d, d OR 0x80]
     | None \<Rightarrow> (case key_for caps True c of Some d \<Rightarrow> [0x2a, d, d OR 0x80, 0xaa] | None \<Rightarrow> []))"

lemma printable_keys:
  "list_all (\<lambda>n. of_nat n \<in> set (map (fst \<circ> snd) us_keys) \<or> of_nat n \<in> set (map (snd \<circ> snd) us_keys)) [0x20..<0x7f]"
  by (simp add: us_keys_def us_rows_def upt_rec)

text \<open>The driver's table agrees with the layout.\<close>

lemma us_keys_table:
  "list_all (\<lambda>(d, a, b). 0 < d \<and> d < 0x3b \<and> d \<notin> {0x1d, 0x2a, 0x36, 0x38, 0x3a} \<and> keymap ! unat d = (a, b)) us_keys"
  by (simp add: us_keys_def us_rows_def keymap_def)

lemma us_key_at:
  assumes "(d, a, b) \<in> set us_keys"
  shows "d < 0x3b" "key_at False d = (if 0x61 \<le> a \<and> a \<le> 0x7a then Letter a else Sign a b)"
    "0x61 \<le> a \<and> a \<le> 0x7a \<Longrightarrow> b = a - 0x20"
proof -
  have d: "0 < d" "d < 0x3b" "d \<notin> {0x1d, 0x2a, 0x36, 0x38, 0x3a}" "keymap ! unat d = (a, b)"
    using us_keys_table assms unfolding list_all_iff by fastforce+
  show "d < 0x3b" by (rule d(2))
  show "key_at False d = (if 0x61 \<le> a \<and> a \<le> 0x7a then Letter a else Sign a b)"
    using d by (auto simp: key_at_def)
  show "0x61 \<le> a \<and> a \<le> 0x7a \<Longrightarrow> b = a - 0x20"
    using keymap_char [OF d(1-3)] d(4) by (simp add: entry_ok_def)
qed

lemma us_key_down:
  assumes "(d, a, b) \<in> set us_keys"
  shows "key_down (key_at False d) m = (m, [us_char (m_caps m) (m_shift m) a b])" "key_up (key_at False d) m = m"
  using us_key_at(2,3) [OF assms] by (auto simp: us_char_def)

lemma key_for_char:
  assumes "0x20 \<le> c" "c < 0x7f"
  shows "key_for caps False c \<noteq> None \<or> key_for caps True c \<noteq> None"
proof -
  have "unat c \<in> set [0x20..<0x7f]" unfolding set_upt using assms by (simp add: word_le_nat_alt word_less_nat_alt)
  then have "c \<in> set (map (fst \<circ> snd) us_keys) \<or> c \<in> set (map (snd \<circ> snd) us_keys)"
    using printable_keys unfolding list_all_iff by fastforce
  then obtain d a b where k: "(d, a, b) \<in> set us_keys" "c = a \<or> c = b" by auto
  then have "us_char caps False a b = c \<or> us_char caps True a b = c" by (auto simp: us_char_def)
  moreover have "key_for caps sh c \<noteq> None" if "us_char caps sh a b = c" for sh
    using k(1) that unfolding key_for_def option.map_disc_iff find_None_iff by auto
  ultimately show ?thesis by blast
qed

lemma key_forD:
  assumes "key_for caps sh c = Some d"
  shows "d < 0x3b" "m_shift m = sh \<Longrightarrow> m_caps m = caps \<Longrightarrow> key_down (key_at False d) m = (m, [c])"
    "key_up (key_at False d) m = m"
proof -
  obtain a b where k: "(d, a, b) \<in> set us_keys" "us_char caps sh a b = c"
    using assms by (auto simp: key_for_def find_Some_iff) (metis nth_mem)
  show "d < 0x3b" "key_up (key_at False d) m = m" using us_key_at(1) [OF k(1)] us_key_down(2) [OF k(1)] .
  show "m_shift m = sh \<Longrightarrow> m_caps m = caps \<Longrightarrow> key_down (key_at False d) m = (m, [c])"
    using us_key_down(1) [OF k(1), of m] k(2) by simp
qed

lemma low_code:
  fixes d :: u8
  assumes "d < 0x3b"
  shows "\<not> bit d 7" "d AND 0x7f = d" "bit (d OR 0x80) 7" "(d OR 0x80) AND 0x7f = d" "d \<noteq> 0xe0" "d OR 0x80 \<noteq> 0xe0"
proof -
  show b: "\<not> bit d 7"
  proof -
    have "bit d 7 = bit (unat d) 7" by (simp add: bit_unsigned_iff)
    then show ?thesis using assms by (simp add: bit_iff_odd word_less_nat_alt)
  qed
  show m: "d AND 0x7f = d" using make_code_self [OF b] .
  show "bit (d OR 0x80) 7" by (simp add: bit_simps)
  show "(d OR 0x80) AND 0x7f = d"
    using b by (intro bit_word_eqI) (auto simp: bit_simps numeral_eq_Suc less_Suc_eq)
  then show "d OR 0x80 \<noteq> 0xe0" using assms by auto
  show "d \<noteq> 0xe0" using assms by auto
qed

lemma strokes_type:
  assumes "0x20 \<le> c" "c < 0x7f" and m: "\<not> m_shift m" "\<not> m_ext m"
  shows "kbd_run (strokes (m_caps m) c) m = (m, [c])"
proof -
  have e: "m\<lparr>m_ext := False\<rparr> = m" using m(2) by (cases m) simp
  have sh: "kbd_step 0x2a m = (m\<lparr>m_shift := True\<rparr>, [])" "kbd_step 0xaa (m\<lparr>m_shift := True\<rparr>) = (m, [])"
    using m by (simp_all add: kbd_step_def key_at_def e bit_simps)
  consider d where "key_for (m_caps m) False c = Some d"
    | d where "key_for (m_caps m) False c = None" "key_for (m_caps m) True c = Some d"
    using key_for_char [OF assms(1,2), of "m_caps m"] by blast
  then show ?thesis
  proof cases
    case 1
    note K = key_forD [OF 1] and L = low_code [OF key_forD(1) [OF 1]]
    have "kbd_step d m = (m, [c])" "kbd_step (d OR 0x80) m = (m, [])"
      using K(2) [of m] K(3) [of m] m L by (simp_all add: kbd_step_def e)
    then show ?thesis using 1 by (simp add: strokes_def)
  next
    case 2
    note K = key_forD [OF 2(2)] and L = low_code [OF key_forD(1) [OF 2(2)]]
    let ?m = "m\<lparr>m_shift := True\<rparr>"
    have em: "?m\<lparr>m_ext := False\<rparr> = ?m" using m(2) by (cases m) simp
    have "kbd_step d ?m = (?m, [c])" "kbd_step (d OR 0x80) ?m = (?m, [])"
      using K(2) [of ?m] K(3) [of ?m] m L by (simp_all add: kbd_step_def em)
    then show ?thesis using 2 sh by (simp add: strokes_def)
  qed
qed

lemma kbd_run_append: "kbd_run (bs @ cs) m = (let (m, xs) = kbd_run bs m; (m, ys) = kbd_run cs m in (m, xs @ ys))"
  by (induction bs arbitrary: m) (auto simp: split_beta Let_def)

lemma typing_runs:
  assumes "\<forall>c\<in>set w. 0x20 \<le> c \<and> c < 0x7f" and "\<not> m_shift m" "\<not> m_ext m"
  shows "kbd_run (concat (map (strokes (m_caps m)) w)) m = (m, w)"
  using assms by (induction w) (simp_all add: kbd_run_append strokes_type)

section \<open>Properties\<close>

text \<open>C13: For every sequence of bytes the keyboard sends, the handler returns each time, the modifier flags follow the state
  machine of keys that go down and up, and the characters it gives are appended to the buffer as long as
  there is room for them; the rest are dropped.\<close>
theorem keyboard_refines_keys:
  fixes s :: "'e device_scheme"
  assumes "ioq_inv (addr_of s Keyboard_buf) s"
  shows "\<exists>t. kbd_irqs bs s = Ok () t \<and> ioq_inv (addr_of s Keyboard_buf) t \<and> mods t = fst (kbd_run bs (mods s)) \<and>
    ioq_list (addr_of s Keyboard_buf) t = take 63 (ioq_list (addr_of s Keyboard_buf) s @ snd (kbd_run bs (mods s)))"
  using assms by (rule irqs_refine)

lemma demo_device_keys:
  "addr_of demo_device Keyboard_buf = 0xc0003200" "shift_status demo_device = False" "ext_scancode demo_device = False"
  "mods demo_device = \<lparr>m_ctrl = False, m_shift = False, m_alt = False, m_caps = False, m_ext = False\<rparr>"
  by (simp_all add: mods_def demo_device_kernel) (simp_all add: demo_device_def device.defs kernel.defs)

theorem keyboard_refines_keys_witness:
  "\<exists>t. kbd_irqs [0x3a, 0x1e, 0xe0, 0x1d, 0x02] demo_device = Ok () t \<and> ioq_list 0xc0003200 t = [0x41, 0x31] \<and>
    m_ctrl (mods t) \<and> m_caps (mods t)"
proof -
  have "kbd_run [0x3a, 0x1e, 0xe0, 0x1d, 0x02] (mods demo_device) =
      (\<lparr>m_ctrl = True, m_shift = False, m_alt = False, m_caps = True, m_ext = False\<rparr>, [0x41, 0x31])"
    by (simp add: demo_device_keys kbd_step_def key_at_def keymap_def Let_def bit_simps)
  then show ?thesis
    using keyboard_refines_keys [of demo_device "[0x3a, 0x1e, 0xe0, 0x1d, 0x02]"] demo_device_inv
    by (auto simp: demo_device_keys demo_device_empty)
qed

text \<open>C12: Every text of printable ASCII characters can be typed on a keyboard with the US layout: the scan codes of its key
  strokes leave exactly this text in the buffer, behind what was there, and the modifiers as they were, with caps lock on or
  off, as long as the text fits into the buffer. The layout is given by its rows and not by the driver's table.\<close>
theorem keyboard_types_text:
  fixes s :: "'e device_scheme"
  assumes "ioq_inv (addr_of s Keyboard_buf) s" and "\<forall>c\<in>set w. 0x20 \<le> c \<and> c < 0x7f"
    and "\<not> shift_status s" and "\<not> ext_scancode s" and "length (ioq_list (addr_of s Keyboard_buf) s) + length w \<le> 63"
  shows "\<exists>t. kbd_irqs (concat (map (strokes (caps_lock_status s)) w)) s = Ok () t \<and>
    ioq_list (addr_of s Keyboard_buf) t = ioq_list (addr_of s Keyboard_buf) s @ w \<and> mods t = mods s"
proof -
  have "kbd_run (concat (map (strokes (m_caps (mods s))) w)) (mods s) = (mods s, w)"
    using assms(2-4) by (intro typing_runs) (simp_all add: mods_def)
  then show ?thesis
    using irqs_refine [OF assms(1), of "concat (map (strokes (caps_lock_status s)) w)"] assms(5) by (auto simp: mods_def)
qed

theorem keyboard_types_text_witness:
  "\<exists>t. kbd_irqs (concat (map (strokes (caps_lock_status demo_device)) [0x47, 0x6f, 0x21])) demo_device = Ok () t \<and>
    ioq_list 0xc0003200 t = [0x47, 0x6f, 0x21]"
  using keyboard_types_text [of demo_device "[0x47, 0x6f, 0x21]"] demo_device_inv
  by (auto simp: demo_device_keys demo_device_empty)

end
