(* ===== verification/Memory.thy ===== *)
theory Memory
  imports Sync Cstring
begin

text \<open>
  The page allocator of \<open>kernel/memory.c\<close>: the two physical pools with their bitmaps and locks, the
  virtual address pools of the kernel and of each process, and the routines that join them through
  the page tables.

  A pool is named by its flag: \<open>pool_of PF_KERNEL s\<close> is \<open>kernel_mem_pool\<close>; its lock is the
  global object \<open>Kernel_pool_lock\<close>. The bitmaps live in the byte memory, the page tables in
  physical memory behind the paging unit. \<open>memset\<close> over whole pages clears the objects of every
  type in them and the words of the page frames behind them (\<open>clear_page\<close>).

  The lemmas: \<open>palloc\<close> hands out the first free frame of the pool and \<open>pfree\<close> gives it back, mapping
  and unmapping change exactly one translation, and \<open>malloc_page\<close> maps a run of fresh virtual pages
  to fresh frames.
\<close>

section \<open>Pools\<close>

definition pool_of :: "pool_flags \<Rightarrow> 'e kernel_scheme \<Rightarrow> mem_pool" where
  "pool_of pf s = (if pf = PF_KERNEL then kernel_mem_pool s else user_mem_pool s)"

definition pool_lock :: "pool_flags \<Rightarrow> 'e kernel_scheme \<Rightarrow> u32" where
  "pool_lock pf s = (if pf = PF_KERNEL then addr_of s Kernel_pool_lock else addr_of s User_pool_lock)"

definition vpool_of :: "pool_flags \<Rightarrow> 'e kernel_scheme \<Rightarrow> virtual_addr_pool" where
  "vpool_of pf s =
     (if pf = PF_KERNEL then kernel_vaddr_pool s else userprog_vaddr_pool (tasks s (running_thread s)))"

definition MEM_BITMAP_BASE :: u32 where "MEM_BITMAP_BASE = 0xc009a000"
definition K_HEAP_START :: u32 where "K_HEAP_START = 0xc0100000"

definition mem_pool_init :: "u32 \<Rightarrow> 'e kernel_scheme \<Rightarrow> (unit, 'e kernel_scheme) res" where
  "mem_pool_init all_mem s =
     (let s = put_str (ln ''mem_pool_init start'') s;
          s = lock_init (addr_of s Kernel_pool_lock) s;
          s = lock_init (addr_of s User_pool_lock) s;
          page_table_size = PG_SIZE * 256;
          used_mem = page_table_size + 0x100000;
          free_mem = all_mem - used_mem;
          free_pages = free_mem div PG_SIZE;
          kernel_free_pages = free_pages div 2;
          user_free_pages = free_pages - kernel_free_pages;
          kbm_len = kernel_free_pages div 8;
          ubm_len = user_free_pages div 8;
          s = s\<lparr>kernel_mem_pool :=
                 \<lparr>mem_pool_bitmap = \<lparr>btmp_bytes_len = kbm_len, bits = MEM_BITMAP_BASE\<rparr>,
                  phy_addr_start = used_mem, pool_size = kernel_free_pages * PG_SIZE\<rparr>,
                user_mem_pool :=
                 \<lparr>mem_pool_bitmap = \<lparr>btmp_bytes_len = ubm_len, bits = MEM_BITMAP_BASE + kbm_len\<rparr>,
                  phy_addr_start = used_mem + kernel_free_pages * PG_SIZE,
                  pool_size = user_free_pages * PG_SIZE\<rparr>\<rparr>
      in bind (bitmap_init (mem_pool_bitmap (kernel_mem_pool s)) s) (\<lambda>_ s.
         bind (bitmap_init (mem_pool_bitmap (user_mem_pool s)) s) (\<lambda>_ s.
         let s = put_str ''kernel_mem_pool_bitmap_start:'' s;
             s = put_int (bits (mem_pool_bitmap (kernel_mem_pool s))) s;
             s = put_char 0x0A s;
             s = put_str ''kernel_mem_pool_phy_addr_start:'' s;
             s = put_int (phy_addr_start (kernel_mem_pool s)) s;
             s = put_char 0x0A s;
             s = put_str ''user_mem_pool_bitmap_start:'' s;
             s = put_int (bits (mem_pool_bitmap (user_mem_pool s))) s;
             s = put_char 0x0A s;
             s = put_str ''user_mem_pool_phy_addr_start:'' s;
             s = put_int (phy_addr_start (user_mem_pool s)) s;
             s = put_char 0x0A s;
             s = s\<lparr>kernel_vaddr_pool :=
                    \<lparr>vaddr_bitmap = \<lparr>btmp_bytes_len = kbm_len, bits = MEM_BITMAP_BASE + kbm_len + ubm_len\<rparr>,
                     vaddr_start = vaddr_start (kernel_vaddr_pool s)\<rparr>\<rparr>
         in bind (bitmap_init (vaddr_bitmap (kernel_vaddr_pool s)) s) (\<lambda>_ s.
            let s = s\<lparr>kernel_vaddr_pool := (kernel_vaddr_pool s)\<lparr>vaddr_start := K_HEAP_START\<rparr>\<rparr>
            in Ok () (put_str (ln ''mem_pool_init done'') s)))))"

text \<open>The loop that marks a run of bits of a bitmap one by one.\<close>

function bitmap_set_run ::
    "bitmap \<Rightarrow> u32 \<Rightarrow> u8 \<Rightarrow> u32 \<Rightarrow> u32 \<Rightarrow> 'e machine_scheme \<Rightarrow> (unit, 'e machine_scheme) res" where
  "bitmap_set_run btmp idx value cnt pg_cnt s =
     (if cnt < pg_cnt
      then bind (bitmap_set btmp (idx + cnt) value s) (\<lambda>_ s.
           bitmap_set_run btmp idx value (cnt + 1) pg_cnt s)
      else Ok () s)"
  by pat_completeness auto
termination
  by (relation "measure (\<lambda>(_, _, _, cnt, pg_cnt, _). unat pg_cnt - unat cnt)")
    (auto simp: word_less_nat_alt unat_Suc_less)

declare bitmap_set_run.simps [simp del]

definition get_virtual_addr :: "pool_flags \<Rightarrow> u32 \<Rightarrow> 'e kernel_scheme \<Rightarrow> (u32, 'e kernel_scheme) res" where
  "get_virtual_addr pf pg_cnt s =
     (let pool = vpool_of pf s in
      bind (bitmap_scan (vaddr_bitmap pool) pg_cnt s) (\<lambda>bit_idx_start s.
      if bit_idx_start = - 1 then Ok NULL s
      else bind (bitmap_set_run (vaddr_bitmap pool) bit_idx_start 1 0 pg_cnt s) (\<lambda>_ s.
           let start = vaddr_start pool + bit_idx_start * PG_SIZE
           in if pf = PF_KERNEL then Ok start s
              else bind (ASSERT (start < 0xc0000000 - PG_SIZE)
                          (''kernel/memory.c'', 123, ''get_virtual_addr'',
                           ''(uint32_t)vaddr_start < (0xc0000000 - PG_SIZE)'') s) (\<lambda>_ s. Ok start s))))"

definition palloc :: "pool_flags \<Rightarrow> 'e kernel_scheme \<Rightarrow> (u32, 'e kernel_scheme) res" where
  "palloc pf s =
     (let m_pool = pool_of pf s in
      bind (bitmap_scan (mem_pool_bitmap m_pool) 1 s) (\<lambda>bit_idx s.
      if bit_idx = - 1 then Ok NULL s
      else bind (bitmap_set (mem_pool_bitmap m_pool) bit_idx 1 s) (\<lambda>_ s.
           Ok (phy_addr_start m_pool + bit_idx * PG_SIZE) s)))"

definition pfree :: "u32 \<Rightarrow> 'e kernel_scheme \<Rightarrow> (unit, 'e kernel_scheme) res" where
  "pfree pg_phy_addr s =
     (let m_pool = (if pg_phy_addr \<ge> phy_addr_start (user_mem_pool s) then user_mem_pool s else kernel_mem_pool s);
          bit_idx = (pg_phy_addr - phy_addr_start m_pool) div PG_SIZE
      in bitmap_set (mem_pool_bitmap m_pool) bit_idx 0 s)"

section \<open>Mapping\<close>

text \<open>\<open>memset\<close> over a page table seen through the paging unit.\<close>

fun clear_words :: "nat \<Rightarrow> u32 \<Rightarrow> 'e icu_scheme \<Rightarrow> (unit, 'e icu_scheme) res" where
  "clear_words 0 v s = Ok () s"
| "clear_words (Suc n) v s = bind (store_word v 0 s) (\<lambda>_ s. clear_words n (v + 4) s)"

definition page_table_map :: "u32 \<Rightarrow> u32 \<Rightarrow> 'e kernel_scheme \<Rightarrow> (unit, 'e kernel_scheme) res" where
  "page_table_map vaddr paddr s =
     (let pde = pde_ptr vaddr;
          pte = pte_ptr vaddr;
          site = (\<lambda>l. (''kernel/memory.c'', l, ''page_table_map'', ''!(*pte & 0x00000001)''))
      in bind (load_word pde s) (\<lambda>e s.
         if e AND 1 \<noteq> 0
         then bind (load_word pte s) (\<lambda>e s.
              bind (ASSERT (\<not> e AND 1 \<noteq> 0) (site 160) s) (\<lambda>_ s.
              bind (load_word pte s) (\<lambda>e s.
              if \<not> e AND 1 \<noteq> 0 then store_word pte (paddr OR PG_US_U OR PG_RW_W OR PG_P_1) s
              else bind (PANIC (''kernel/memory.c'', 165, ''page_table_map'', ''pte repeat'') s) (\<lambda>(_::unit) s.
                   store_word pte (paddr OR PG_US_U OR PG_RW_W OR PG_P_1) s))))
         else bind (palloc PF_KERNEL s) (\<lambda>pgt_paddr s.
              bind (store_word pde (pgt_paddr OR PG_US_U OR PG_RW_W OR PG_P_1) s) (\<lambda>_ s.
              bind (clear_words 1024 (pte AND 0xfffff000) s) (\<lambda>_ s.
              bind (load_word pte s) (\<lambda>e s.
              bind (ASSERT (\<not> e AND 1 \<noteq> 0) (site 176) s) (\<lambda>_ s.
              store_word pte (paddr OR PG_US_U OR PG_RW_W OR PG_P_1) s)))))))"

section \<open>Allocating and freeing pages\<close>

function malloc_page_loop ::
    "pool_flags \<Rightarrow> u32 \<Rightarrow> u32 \<Rightarrow> u32 \<Rightarrow> 'e kernel_scheme \<Rightarrow> (u32, 'e kernel_scheme) res" where
  "malloc_page_loop pf start cnt vaddr s =
     (if cnt > 0
      then bind (palloc pf s) (\<lambda>page_phyaddr s.
           if page_phyaddr = NULL then Ok NULL s
           else bind (page_table_map vaddr page_phyaddr s) (\<lambda>_ s.
                malloc_page_loop pf start (cnt - 1) (vaddr + PG_SIZE) s))
      else Ok start s)"
  by pat_completeness auto
termination
  by (relation "measure (\<lambda>(_, _, cnt, _, _). unat cnt)") (auto simp: unat_minus_one unat_gt_0)

declare malloc_page_loop.simps [simp del]

definition malloc_page :: "pool_flags \<Rightarrow> u32 \<Rightarrow> 'e kernel_scheme \<Rightarrow> (u32, 'e kernel_scheme) res" where
  "malloc_page pf pg_cnt s =
     bind (ASSERT (pg_cnt > 0 \<and> pg_cnt < 3840)
             (''kernel/memory.c'', 183, ''malloc_page'', ''pg_cnt > 0 && pg_cnt < 3840'') s) (\<lambda>_ s.
     bind (get_virtual_addr pf pg_cnt s) (\<lambda>start s.
     if start = NULL then Ok NULL s
     else malloc_page_loop pf start pg_cnt start s))"

text \<open>\<open>memset(v, 0, n * PG_SIZE)\<close>: the page at \<open>v\<close>, which lies in the frame \<open>p\<close>, is cleared.\<close>

definition clear_page :: "u32 \<Rightarrow> u32 \<Rightarrow> 'e kernel_scheme \<Rightarrow> 'e kernel_scheme" where
  "clear_page v p s =
     s\<lparr>mem := (\<lambda>a. if page_of a = page_of v then 0 else mem s a),
       phys := (\<lambda>a. if page_of a = page_of p then 0 else phys s a),
       node_prev := (\<lambda>a. if page_of a = page_of v then 0 else node_prev s a),
       node_next := (\<lambda>a. if page_of a = page_of v then 0 else node_next s a),
       thread_stacks := (\<lambda>a. if page_of a = page_of v then zero_thread_stack else thread_stacks s a),
       intr_stacks := (\<lambda>a. if page_of a = page_of v then zero_intr_stack else intr_stacks s a),
       tasks := (\<lambda>a. if page_of a = page_of v then zero_task else tasks s a),
       desc_block_size := (\<lambda>a. if page_of a = page_of v then 0 else desc_block_size s a),
       desc_blocks_per_arena := (\<lambda>a. if page_of a = page_of v then 0 else desc_blocks_per_arena s a),
       arenas := (\<lambda>a. if page_of a = page_of v
                        then \<lparr>arena_desc = 0, arena_cnt = 0, arena_large = 0\<rparr> else arenas s a)\<rparr>"

fun memset_pages_loop :: "nat \<Rightarrow> u32 \<Rightarrow> 'e kernel_scheme \<Rightarrow> (unit, 'e kernel_scheme) res" where
  "memset_pages_loop 0 v s = Ok () s"
| "memset_pages_loop (Suc n) v s =
     (case translate s v of None \<Rightarrow> page_fault v s
      | Some p \<Rightarrow> memset_pages_loop n (v + PG_SIZE) (clear_page v p s))"

definition memset_pages :: "u32 \<Rightarrow> u32 \<Rightarrow> 'e kernel_scheme \<Rightarrow> (unit, 'e kernel_scheme) res" where
  "memset_pages v pg_cnt s =
     bind (ASSERT (v \<noteq> NULL) (''lib/string.c'', 7, ''memset'', ''dst_ != NULL'') s) (\<lambda>_ s.
     memset_pages_loop (unat pg_cnt) v s)"

text \<open>The body shared by \<open>get_kernel_pages\<close> and \<open>get_user_pages\<close>, which differ in the pool only.\<close>

definition get_pool_pages :: "pool_flags \<Rightarrow> u32 \<Rightarrow> 'e kernel_scheme \<Rightarrow> (u32, 'e kernel_scheme) res" where
  "get_pool_pages pf pg_cnt s =
     bind (lock_acquire (pool_lock pf s) s) (\<lambda>_ s.
     bind (malloc_page pf pg_cnt s) (\<lambda>vaddr s.
     bind (if vaddr \<noteq> NULL then memset_pages vaddr pg_cnt s else Ok () s) (\<lambda>_ s.
     bind (lock_release (pool_lock pf s) s) (\<lambda>_ s.
     Ok vaddr s))))"

definition get_kernel_pages :: "u32 \<Rightarrow> 'e kernel_scheme \<Rightarrow> (u32, 'e kernel_scheme) res" where
  "get_kernel_pages pg_cnt s = get_pool_pages PF_KERNEL pg_cnt s"

definition get_user_pages :: "u32 \<Rightarrow> 'e kernel_scheme \<Rightarrow> (u32, 'e kernel_scheme) res" where
  "get_user_pages pg_cnt s = get_pool_pages PF_USER pg_cnt s"

text \<open>The assertion \<open>bit_idx >= 0\<close> of \<open>get_a_page\<close> compares a signed integer that holds a quotient
  below \<open>2 ^ 20\<close>.\<close>

definition get_a_page :: "pool_flags \<Rightarrow> u32 \<Rightarrow> 'e kernel_scheme \<Rightarrow> (u32, 'e kernel_scheme) res" where
  "get_a_page pf vaddr s =
     bind (lock_acquire (pool_lock pf s) s) (\<lambda>_ s.
     let cur = running_thread s;
         set = (\<lambda>line s. let bit_idx = (vaddr - vaddr_start (vpool_of pf s)) div PG_SIZE
                  in bind (ASSERT (sint bit_idx \<ge> 0) (''kernel/memory.c'', line, ''get_a_page'', ''bit_idx >= 0'') s)
                       (\<lambda>_ s. bitmap_set (vaddr_bitmap (vpool_of pf s)) bit_idx 1 s))
     in bind (if pgdir (tasks s cur) \<noteq> NULL \<and> pf = PF_USER then set 243 s
              else if pgdir (tasks s cur) = NULL \<and> pf = PF_KERNEL then set 247 s
              else PANIC (''kernel/memory.c'', 250, ''get_a_page'',
                ''get_a_page:not allow kernel alloc userspace or user alloc kernelspace by get_a_page'') s) (\<lambda>_ s.
        bind (palloc pf s) (\<lambda>page_phyaddr s.
        if page_phyaddr = NULL then Ok NULL s
        else bind (page_table_map vaddr page_phyaddr s) (\<lambda>_ s.
             bind (lock_release (pool_lock pf s) s) (\<lambda>_ s.
             Ok vaddr s)))))"

definition vaddr_remove :: "pool_flags \<Rightarrow> u32 \<Rightarrow> u32 \<Rightarrow> 'e kernel_scheme \<Rightarrow> (unit, 'e kernel_scheme) res" where
  "vaddr_remove pf vaddr pg_cnt s =
     (let pool = vpool_of pf s;
          bit_idx = (vaddr - vaddr_start pool) div PG_SIZE
      in bitmap_set_run (vaddr_bitmap pool) bit_idx 0 0 pg_cnt s)"

text \<open>The operand of \<open>invlpg\<close> is the variable \<open>vaddr\<close> itself, which is on the stack of the running thread, and not
  the address it holds.\<close>

definition page_table_pte_remove :: "u32 \<Rightarrow> 'e kernel_scheme \<Rightarrow> (unit, 'e kernel_scheme) res" where
  "page_table_pte_remove vaddr s =
     (let pte = pte_ptr vaddr in
      bind (load_word pte s) (\<lambda>e s.
      bind (store_word pte (e AND NOT PG_P_1) s) (\<lambda>_ s.
      Ok () (s\<lparr>invlpgs := invlpgs s @ [page_of (esp s)]\<rparr>))))"

function mfree_page_loop :: "u32 \<Rightarrow> u32 \<Rightarrow> 'e kernel_scheme \<Rightarrow> (unit, 'e kernel_scheme) res" where
  "mfree_page_loop page_cnt vaddr s =
     (if page_cnt > 0
      then bind (addr_v2p vaddr s) (\<lambda>pg_phy_addr s.
           bind (pfree pg_phy_addr s) (\<lambda>_ s.
           bind (page_table_pte_remove vaddr s) (\<lambda>_ s.
           mfree_page_loop (page_cnt - 1) (vaddr + PG_SIZE) s)))
      else Ok () s)"
  by pat_completeness auto
termination
  by (relation "measure (\<lambda>(cnt, _, _). unat cnt)") (auto simp: unat_minus_one unat_gt_0)

declare mfree_page_loop.simps [simp del]

definition mfree_page :: "pool_flags \<Rightarrow> u32 \<Rightarrow> u32 \<Rightarrow> 'e kernel_scheme \<Rightarrow> (unit, 'e kernel_scheme) res" where
  "mfree_page pf vaddr pg_cnt s =
     bind (addr_v2p vaddr s) (\<lambda>pg_phy_addr s.
     bind (ASSERT (pg_cnt \<ge> 1 \<and> vaddr mod PG_SIZE = 0)
             (''kernel/memory.c'', 446, ''mfree_page'', ''pg_cnt >= 1 && vaddr % PG_SIZE == 0'') s) (\<lambda>_ s.
     bind (mfree_page_loop pg_cnt vaddr s) (\<lambda>_ s.
     vaddr_remove pf vaddr pg_cnt s)))"

section \<open>Frames\<close>

lemma mark_unmark:
  assumes "\<not> bm_bit b m k"
  shows "mark_bit b k False (mark_bit b k True m) = m"
proof -
  let ?a = "bits b + of_nat (k div 8)"
  have "(m ?a OR push_bit (k mod 8) 1) AND NOT (push_bit (k mod 8) 1) = m ?a"
    using assms by (intro bit_word_eqI) (auto simp: bit_simps bm_bit_def)
  then show ?thesis by (simp add: mark_bit_def Let_def fun_upd_idem)
qed

lemma not_full_fit:
  assumes "wf_bitmap b" and "\<not> full b m"
  shows "\<exists>k. first_fit b 1 m = Some k \<and> k < nbits b \<and> \<not> bm_bit b m k"
proof -
  have "first_fit b 1 m \<noteq> None"
  proof
    assume "first_fit b 1 m = None"
    then have used: "bm.in_use b m = {..<nbits b}" by (rule bm.fit_one_None)
    obtain i where i: "i < btmp_bytes_len b" "m (bits b + i) \<noteq> 0xff" using assms(2) by (auto simp: full_def)
    have "bit (m (bits b + i)) n" if "n < 8" for n
    proof -
      have "unat i * 8 + n < nbits b" using i(1) that by (simp add: nbits_def word_less_nat_alt)
      then have "bm_bit b m (unat i * 8 + n)" using used by (auto simp: bm.in_use_def)
      then show ?thesis using that by (simp add: bm_bit_def)
    qed
    then have "m (bits b + i) = mask 8" by (intro bit_word_eqI) (auto simp: bit_simps)
    then show False using i(2) by (simp add: mask_eq_exp_minus_1)
  qed
  then obtain k where k: "first_fit b 1 m = Some k" by auto
  then show ?thesis using bm.fit_Some [OF k] by auto
qed

lemma nbits_bound: "wf_bitmap b \<Longrightarrow> nbits b < 2 ^ 32"
  by (simp add: wf_bitmap_def nbits_def)

lemma palloc_first_fit:
  assumes wf: "wf_bitmap b" and b: "b = mem_pool_bitmap (pool_of pf s)" and k: "first_fit b 1 (mem s) = Some k"
  shows "palloc pf s =
    Ok (phy_addr_start (pool_of pf s) + of_nat k * PG_SIZE) (s\<lparr>mem := mark_bit b k True (mem s)\<rparr>)"
proof -
  have nf: "\<not> full b (mem s)" using full_no_run [OF _ _ wf, of "mem s" 1 k] first_fit_Some(1) [OF k] by auto
  have "k < nbits b" using bm.fit_Some [OF k] by simp
  then have u: "unat (of_nat k :: u32) = k" using nbits_bound [OF wf] by (simp add: unat_of_nat_below)
  have "(of_nat k :: u32) \<noteq> - 1"
    using scan_result_minus_one [OF wf, of 1 "mem s"] k by (simp add: scan_result_def)
  then show ?thesis
    using bitmap_scan_eq [OF wf nf, of 1] k u
    by (simp add: palloc_def Let_def b [symmetric] scan_result_def bitmap_set_eq)
qed

text \<open>The pools as \<open>mem_pool_init\<close> lays them out: the frames of the kernel below those of the user
  pool, every frame address a 32-bit number.\<close>

definition frame :: "pool_flags \<Rightarrow> 'e kernel_scheme \<Rightarrow> nat \<Rightarrow> u32" where
  "frame pf s k = phy_addr_start (pool_of pf s) + of_nat k * PG_SIZE"

definition pool_bits :: "pool_flags \<Rightarrow> 'e kernel_scheme \<Rightarrow> bitmap" where
  "pool_bits pf s = mem_pool_bitmap (pool_of pf s)"

definition pools_ok :: "'e kernel_scheme \<Rightarrow> bool" where
  "pools_ok s \<longleftrightarrow>
     wf_bitmap (pool_bits PF_KERNEL s) \<and> wf_bitmap (pool_bits PF_USER s) \<and>
     bm_bytes (pool_bits PF_KERNEL s) \<inter> bm_bytes (pool_bits PF_USER s) = {} \<and>
     phy_addr_start (kernel_mem_pool s) \<noteq> 0 \<and>
     page_aligned (phy_addr_start (kernel_mem_pool s)) \<and> page_aligned (phy_addr_start (user_mem_pool s)) \<and>
     unat (phy_addr_start (kernel_mem_pool s)) + nbits (pool_bits PF_KERNEL s) * 4096
       \<le> unat (phy_addr_start (user_mem_pool s)) \<and>
     unat (phy_addr_start (user_mem_pool s)) + nbits (pool_bits PF_USER s) * 4096 \<le> 2 ^ 32"

lemma pools_okD:
  assumes "pools_ok s"
  shows "wf_bitmap (pool_bits pf s)" and "page_aligned (phy_addr_start (pool_of pf s))"
    and "unat (phy_addr_start (pool_of pf s)) + nbits (pool_bits pf s) * 4096 \<le> 2 ^ 32"
    and "phy_addr_start (pool_of pf s) \<noteq> 0"
proof -
  have "nbits (pool_bits PF_KERNEL s) > 0 \<or> unat (phy_addr_start (kernel_mem_pool s)) \<le> unat (phy_addr_start (user_mem_pool s))"
    using assms by (auto simp: pools_ok_def)
  then have "phy_addr_start (user_mem_pool s) \<noteq> 0"
    using assms by (auto simp: pools_ok_def unat_eq_0 simp flip: unat_eq_0)
  then show "wf_bitmap (pool_bits pf s)" "page_aligned (phy_addr_start (pool_of pf s))"
    "unat (phy_addr_start (pool_of pf s)) + nbits (pool_bits pf s) * 4096 \<le> 2 ^ 32"
    "phy_addr_start (pool_of pf s) \<noteq> 0"
    using assms by (cases pf; simp add: pools_ok_def pool_of_def)+
qed

lemma unat_frame:
  assumes "pools_ok s" and "k < nbits (pool_bits pf s)"
  shows "unat (frame pf s k) = unat (phy_addr_start (pool_of pf s)) + k * 4096"
proof -
  let ?p = "phy_addr_start (pool_of pf s)"
  have b: "unat ?p + k * 4096 < 2 ^ 32" using pools_okD(3) [OF assms(1), of pf] assms(2) by simp
  then have "unat (of_nat k :: u32) = k" by (intro unat_of_nat_below) simp
  then have m: "unat (of_nat k * 4096 :: u32) = k * 4096" using b by (subst unat_mult_below) simp_all
  show ?thesis unfolding frame_def using b m by (subst unat_add_below) simp_all
qed

lemma frame_props:
  assumes "pools_ok s" and "k < nbits (pool_bits pf s)"
  shows "page_aligned (frame pf s k)" and "frame pf s k \<noteq> 0"
    and "frame pf s k \<ge> phy_addr_start (user_mem_pool s) \<longleftrightarrow> pf = PF_USER"
    and "(frame pf s k - phy_addr_start (pool_of pf s)) div PG_SIZE = of_nat k"
proof -
  note u = unat_frame [OF assms]
  show "page_aligned (frame pf s k)"
    using pools_okD(2) [OF assms(1), of pf] by (simp add: page_aligned_def u)
  have "unat (phy_addr_start (pool_of pf s)) \<noteq> 0" using pools_okD(4) [OF assms(1), of pf] by (simp add: unat_eq_0)
  then show "frame pf s k \<noteq> 0" using u by (auto simp flip: unat_eq_0)
  show "frame pf s k \<ge> phy_addr_start (user_mem_pool s) \<longleftrightarrow> pf = PF_USER"
    using assms u by (cases pf) (auto simp: word_le_nat_alt pools_ok_def pool_of_def)
  have "k < 2 ^ 32" using assms(2) nbits_bound [OF pools_okD(1) [OF assms(1), of pf]] by simp
  then have "unat (of_nat k :: u32) = k" by (simp add: unat_of_nat_below)
  moreover have "unat (frame pf s k - phy_addr_start (pool_of pf s)) = k * 4096"
    using u by (subst unat_sub_le) (simp_all add: word_le_nat_alt)
  then have "unat ((frame pf s k - phy_addr_start (pool_of pf s)) div PG_SIZE) = k"
    by (simp add: unat_div)
  ultimately show "(frame pf s k - phy_addr_start (pool_of pf s)) div PG_SIZE = of_nat k"
    unfolding word_unat_eq_iff by (simp only:)
qed

lemma frame_inj:
  assumes "pools_ok s" and "j < nbits (pool_bits pf s)" and "k < nbits (pool_bits pf s)"
  shows "frame pf s j = frame pf s k \<longleftrightarrow> j = k"
proof
  assume "frame pf s j = frame pf s k"
  then have "unat (frame pf s j) = unat (frame pf s k)" by (rule arg_cong)
  then show "j = k" unfolding unat_frame [OF assms(1,2)] unat_frame [OF assms(1,3)] by simp
qed simp

lemma palloc_frame:
  assumes "pools_ok s" and "first_fit (pool_bits pf s) 1 (mem s) = Some k"
  shows "palloc pf s = Ok (frame pf s k) (s\<lparr>mem := mark_bit (pool_bits pf s) k True (mem s)\<rparr>)"
  using palloc_first_fit [OF pools_okD(1) [OF assms(1)] pool_bits_def] assms(2)
  by (simp add: frame_def)

lemma pfree_frame:
  assumes "pools_ok s" and "k < nbits (pool_bits pf s)"
  shows "pfree (frame pf s k) s = Ok () (s\<lparr>mem := mark_bit (pool_bits pf s) k False (mem s)\<rparr>)"
proof -
  note F = frame_props [OF assms]
  have m: "(if frame pf s k \<ge> phy_addr_start (user_mem_pool s) then user_mem_pool s else kernel_mem_pool s) =
      pool_of pf s"
    unfolding F(3) by (cases pf) (simp_all add: pool_of_def)
  have "unat (of_nat k :: u32) = k"
    using assms(2) nbits_bound [OF pools_okD(1) [OF assms(1), of pf]] by (simp add: unat_of_nat_below)
  then show ?thesis
    unfolding pfree_def Let_def m F(4) by (simp add: bitmap_set_eq pool_bits_def)
qed

lemma bitmap_set_run_eq:
  assumes "v = 0 \<or> v = 1" and "k + unat n < 2 ^ 32" and "unat i \<le> unat n"
  shows "bitmap_set_run b (of_nat k) v i n s =
    Ok () (s\<lparr>mem := bm.mark_run b (k + unat i) (unat n - unat i) (v = 1) (mem s)\<rparr>)"
  using assms(3)
proof (induction "unat n - unat i" arbitrary: i s)
  case 0
  then show ?case by (simp add: bitmap_set_run.simps word_less_nat_alt)
next
  case (Suc d)
  then have less: "i < n" by (simp add: word_less_nat_alt)
  note S = unat_Suc_less [OF less]
  have k: "unat (of_nat k :: u32) = k" using assms(2) by (intro unat_of_nat_below) simp
  have idx: "unat (of_nat k + i) = k + unat i"
    using assms(2) less k by (subst unat_add_below) (simp_all add: word_less_nat_alt)
  have d: "unat n - unat i = Suc d" "unat n - unat (i + 1) = d" using Suc.hyps(2) S by simp_all
  have "bitmap_set b (of_nat k + i) v s = Ok () (s\<lparr>mem := mark_bit b (k + unat i) (v = 1) (mem s)\<rparr>)"
    using assms(1) idx by (auto simp: bitmap_set_eq)
  moreover have "bitmap_set_run b (of_nat k) v (i + 1) n t =
      Ok () (t\<lparr>mem := bm.mark_run b (Suc (k + unat i)) d (v = 1) (mem t)\<rparr>)" for t :: "'a machine_scheme"
    using Suc.hyps(1) [of "i + 1" t] d S less by (simp add: word_less_nat_alt)
  ultimately show ?case
    unfolding d(1) using less by (subst bitmap_set_run.simps) (simp add: bm.mark_run_Suc_first)
qed

lemma bitmap_set_run_all:
  "v = 0 \<or> v = 1 \<Longrightarrow> k + unat n < 2 ^ 32 \<Longrightarrow>
   bitmap_set_run b (of_nat k) v 0 n s = Ok () (s\<lparr>mem := bm.mark_run b k (unat n) (v = 1) (mem s)\<rparr>)"
  using bitmap_set_run_eq [of v k n 0 b s] by simp

definition page :: "virtual_addr_pool \<Rightarrow> nat \<Rightarrow> u32" where
  "page pool k = vaddr_start pool + of_nat k * PG_SIZE"

lemma get_virtual_addr_kernel:
  assumes wf: "wf_bitmap b" and b: "b = vaddr_bitmap (kernel_vaddr_pool s)" and n: "n \<noteq> 0"
    and k: "first_fit b (unat n) (mem s) = Some k"
  shows "get_virtual_addr PF_KERNEL n s =
    Ok (page (kernel_vaddr_pool s) k) (s\<lparr>mem := bm.mark_run b k (unat n) True (mem s)\<rparr>)"
proof -
  have n': "0 < unat n" using n by (simp add: unat_gt_0)
  have nf: "\<not> full b (mem s)" using full_no_run [OF _ n' wf, of "mem s" k] first_fit_Some(1) [OF k] by auto
  have "k + unat n \<le> nbits b" using bm.fit_Some [OF k] by simp
  then have r: "k + unat n < 2 ^ 32" using nbits_bound [OF wf] by simp
  have "(of_nat k :: u32) \<noteq> - 1"
    using scan_result_minus_one [OF wf, of "unat n" "mem s"] k n' by (simp add: scan_result_def)
  then show ?thesis
    using bitmap_scan_eq [OF wf nf n] k bitmap_set_run_all [of 1 k n b s] r
    by (simp add: get_virtual_addr_def Let_def vpool_of_def b [symmetric] scan_result_def page_def)
qed

section \<open>Page tables\<close>

text \<open>The directory entry \<open>d\<close>, and a directory in which the entries of \<open>D\<close> point to page tables of their
  own, none of them the directory itself.\<close>

definition dir_entry :: "'e machine_scheme \<Rightarrow> u32 \<Rightarrow> u32" where
  "dir_entry s d = phys s (cr3 s + d * 4)"

definition ptabs :: "'e machine_scheme \<Rightarrow> u32 set \<Rightarrow> bool" where
  "ptabs s D \<longleftrightarrow> self_mapped s \<and> (\<forall>d\<in>D. unat d < 1024 \<and> present (dir_entry s d) \<and> page_of (dir_entry s d) \<noteq> cr3 s) \<and>
     inj_on (\<lambda>d. page_of (dir_entry s d)) D"

lemma pde_of_entry: "pde_of s v = dir_entry s (PDE_IDX v)"
  by (simp add: pde_of_def dir_entry_def)

lemma entry_addr_page:
  assumes "page_aligned c" and "unat d < 1024"
  shows "page_of (c + d * 4) = c"
proof -
  have "unat (d * 4) = unat d * 4" using assms(2) by (simp add: unat_mult_below)
  then show ?thesis using assms by (intro page_of_offset) simp_all
qed

lemma pte_slot_page: "page_of (pte_slot s v) = page_of (pde_of s v)"
  unfolding pte_slot_def using PTE_IDX_bound [of v] by (intro page_of_offset) (simp_all add: unat_idx4)

lemma pte_slot_offset: "pte_slot s v - page_of (pte_slot s v) = PTE_IDX v * 4"
  unfolding pte_slot_page by (simp add: pte_slot_def)

lemma page_of_eq_iff: "page_of u = page_of v \<longleftrightarrow> PDE_IDX u = PDE_IDX v \<and> PTE_IDX u = PTE_IDX v"
proof -
  have split: "a = b \<longleftrightarrow> a div 1024 = b div 1024 \<and> a mod 1024 = b mod 1024" for a b :: nat
    by (metis div_mult_mod_eq)
  have d: "unat w div 2 ^ 22 = unat w div 4096 div 1024" for w :: u32
    by (simp add: div_mult2_eq [symmetric])
  have "page_of u = page_of v \<longleftrightarrow> unat u div 4096 = unat v div 4096"
    by (simp add: word_unat_eq_iff unat_page_of)
  then show ?thesis
    unfolding word_unat_eq_iff unat_PDE_IDX unat_PTE_IDX d split [of "unat u div 4096"] .
qed

lemma slot_inj:
  assumes "ptabs s D" and "PDE_IDX u \<in> D" and "PDE_IDX v \<in> D"
  shows "pte_slot s u = pte_slot s v \<longleftrightarrow> page_of u = page_of v"
proof
  assume eq: "pte_slot s u = pte_slot s v"
  then have "page_of (pde_of s u) = page_of (pde_of s v)" using pte_slot_page by metis
  then have d: "PDE_IDX u = PDE_IDX v"
    using assms unfolding ptabs_def pde_of_entry by (auto dest: inj_onD)
  have "PTE_IDX u * 4 = PTE_IDX v * 4" using eq pte_slot_offset by metis
  then have "unat (PTE_IDX u) * 4 = unat (PTE_IDX v) * 4" using unat_idx4(2) by metis
  then have "PTE_IDX u = PTE_IDX v" by (simp add: word_unat_eq_iff)
  then show "page_of u = page_of v" using d by (simp add: page_of_eq_iff)
next
  assume "page_of u = page_of v"
  then show "pte_slot s u = pte_slot s v" by (simp add: page_of_eq_iff pte_slot_def pde_of_entry)
qed

text \<open>Writing a table entry leaves the directory alone and changes the translation of that page only.\<close>

lemma pte_write:
  assumes tabs: "ptabs s D" and v: "PDE_IDX v \<in> D"
    and t: "phys t = (phys s)(pte_slot s v := e)" "cr3 t = cr3 s"
  shows "ptabs t D" and "\<forall>d. unat d < 1024 \<longrightarrow> dir_entry t d = dir_entry s d"
    and "PDE_IDX u \<in> D \<Longrightarrow> page_of u \<noteq> page_of v \<Longrightarrow> translate t u = translate s u"
    and "page_of u = page_of v \<Longrightarrow> translate t u = (if present e then Some (page_of e + (u AND 0xfff)) else None)"
proof -
  have c: "page_aligned (cr3 s)" using tabs by (simp add: ptabs_def self_mapped_def)
  have "page_of (pte_slot s v) \<noteq> cr3 s"
    using tabs v unfolding pte_slot_page pde_of_entry by (simp add: ptabs_def)
  then have dir: "phys t a = phys s a" if "page_of a = cr3 s" for a
    using that t(1) by auto
  have entry: "dir_entry t d = dir_entry s d" if "unat d < 1024" for d
    using entry_addr_page [OF c that] dir t(2) by (simp add: dir_entry_def)
  have "page_of (cr3 s + 4092) = cr3 s" using c by (rule page_of_offset) simp
  then have "self_mapped t" using tabs t(2) dir by (simp add: ptabs_def self_mapped_def)
  moreover have "inj_on (\<lambda>d. page_of (dir_entry t d)) D = inj_on (\<lambda>d. page_of (dir_entry s d)) D"
    using tabs entry by (intro inj_on_cong) (simp add: ptabs_def)
  ultimately show "ptabs t D" using tabs entry t(2) by (simp add: ptabs_def)
  show "\<forall>d. unat d < 1024 \<longrightarrow> dir_entry t d = dir_entry s d" using entry by blast
  have pde: "pde_of t u = pde_of s u" for u
    unfolding pde_of_entry using entry [OF PDE_IDX_bound] .
  then have slot: "pte_slot t u = pte_slot s u" for u by (simp add: pte_slot_def)
  show "translate t u = translate s u" if "PDE_IDX u \<in> D" "page_of u \<noteq> page_of v"
    using slot_inj [OF tabs that(1) v] that(2) t(1) by (simp add: translate_def pde slot)
  have "present (pde_of s v)" using tabs v unfolding pde_of_entry by (simp add: ptabs_def)
  moreover have "pte_slot s u = pte_slot s v \<and> pde_of s u = pde_of s v" if "page_of u = page_of v"
    using that by (simp add: page_of_eq_iff pte_slot_def pde_of_entry)
  ultimately show "page_of u = page_of v \<Longrightarrow> translate t u = (if present e then Some (page_of e + (u AND 0xfff)) else None)"
    using t(1) by (simp add: translate_def pde slot)
qed

definition pte_for :: "u32 \<Rightarrow> u32" where
  "pte_for paddr = paddr OR PG_US_U OR PG_RW_W OR PG_P_1"

lemma pte_for_props:
  shows "present (pte_for p)" and "page_aligned p \<Longrightarrow> page_of (pte_for p) = p"
proof -
  have "bit (pte_for p AND 1) 0" by (simp add: pte_for_def PG_P_1_def bit_simps)
  then show "present (pte_for p)" by auto
  assume "page_aligned p"
  then have "page_of p = p" using page_of_offset [of p 0] by simp
  then have p: "p AND NOT (mask 12) = p" by (simp add: page_of_def field_masks)
  have "(PG_US_U OR PG_RW_W OR PG_P_1) AND NOT (mask 12) = 0"
    by (simp add: PG_US_U_def PG_RW_W_def PG_P_1_def mask_eq_exp_minus_1)
  moreover have "pte_for p AND NOT (mask 12) =
      (p AND NOT (mask 12)) OR ((PG_US_U OR PG_RW_W OR PG_P_1) AND NOT (mask 12))"
    by (simp add: pte_for_def bit.conj_disj_distrib2 or.assoc)
  ultimately show "page_of (pte_for p) = p" using p by (simp add: page_of_def field_masks)
qed

lemma unmapped_entry: "present (pde_of s v) \<Longrightarrow> translate s v = None \<longleftrightarrow> \<not> present (phys s (pte_slot s v))"
  by (simp add: translate_def)

lemma page_table_map_present:
  assumes tabs: "ptabs s D" and v: "PDE_IDX v \<in> D" "translate s v = None"
  shows "page_table_map v p s = Ok () (s\<lparr>phys := (phys s)(pte_slot s v := pte_for p)\<rparr>)"
proof -
  have self: "self_mapped s" and pde: "present (pde_of s v)"
    using tabs v(1) by (simp_all add: ptabs_def pde_of_entry)
  have "\<not> present (phys s (pte_slot s v))" using v(2) unmapped_entry [OF pde] by simp
  then show ?thesis
    using pde load_pde [OF self] load_pte [OF self pde] translate_pte_ptr [OF self, of v]
    by (simp add: page_table_map_def store_word_def pte_for_def)
qed

lemma page_table_map_effect:
  assumes tabs: "ptabs s D" and v: "PDE_IDX v \<in> D" "translate s v = None" "page_aligned v" and p: "page_aligned p"
  shows "\<exists>t. page_table_map v p s = Ok () t \<and> (\<exists>h. t = s\<lparr>phys := h\<rparr>) \<and> ptabs t D \<and> translate t v = Some p \<and>
    (\<forall>d. unat d < 1024 \<longrightarrow> dir_entry t d = dir_entry s d) \<and>
    (\<forall>a. a \<noteq> pte_slot s v \<longrightarrow> phys t a = phys s a) \<and>
    (\<forall>u. PDE_IDX u \<in> D \<longrightarrow> page_of u \<noteq> page_of v \<longrightarrow> translate t u = translate s u)"
proof -
  let ?t = "s\<lparr>phys := (phys s)(pte_slot s v := pte_for p)\<rparr>"
  note W = pte_write [OF tabs v(1), of ?t "pte_for p"]
  have "v AND 0xfff = 0"
    using v(3) by (simp add: page_aligned_def low12 flip: unat_eq_0)
  then have "translate ?t v = Some p" using W(4) [of v] pte_for_props p by simp
  moreover have "ptabs ?t D" "\<forall>u. PDE_IDX u \<in> D \<longrightarrow> page_of u \<noteq> page_of v \<longrightarrow> translate ?t u = translate s u"
    using W(1,3) by simp_all
  moreover have "\<forall>d. unat d < 1024 \<longrightarrow> dir_entry ?t d = dir_entry s d" by (rule W(2)) simp_all
  moreover have "\<forall>a. a \<noteq> pte_slot s v \<longrightarrow> phys ?t a = phys s a" by simp
  ultimately show ?thesis
    using page_table_map_present [OF tabs v(1,2), of p] by (intro exI [of _ ?t]) blast
qed


section \<open>Runs of virtual pages\<close>

definition vpool_ok :: "virtual_addr_pool \<Rightarrow> bool" where
  "vpool_ok vp \<longleftrightarrow> wf_bitmap (vaddr_bitmap vp) \<and> page_aligned (vaddr_start vp) \<and> vaddr_start vp \<noteq> 0 \<and>
     unat (vaddr_start vp) + nbits (vaddr_bitmap vp) * 4096 \<le> 2 ^ 32"

lemma page_props:
  assumes "vpool_ok vp" and "i < nbits (vaddr_bitmap vp)"
  shows "unat (page vp i) = unat (vaddr_start vp) + i * 4096" and "page_aligned (page vp i)"
    and "page_of (page vp i) = page vp i" and "page vp i \<noteq> 0"
    and "(page vp i - vaddr_start vp) div PG_SIZE = of_nat i"
proof -
  have b: "unat (vaddr_start vp) + i * 4096 < 2 ^ 32" using assms by (simp add: vpool_ok_def)
  then have i: "unat (of_nat i :: u32) = i" by (intro unat_of_nat_below) simp
  then have m: "unat (of_nat i * 4096 :: u32) = i * 4096" using b by (subst unat_mult_below) simp_all
  show u: "unat (page vp i) = unat (vaddr_start vp) + i * 4096"
    unfolding page_def using b m by (subst unat_add_below) simp_all
  then show al: "page_aligned (page vp i)" using assms(1) by (simp add: vpool_ok_def page_aligned_def)
  show "page_of (page vp i) = page vp i" using page_of_offset [OF al, of 0] by simp
  have "unat (vaddr_start vp) \<noteq> 0" using assms(1) by (simp add: vpool_ok_def unat_eq_0)
  then show "page vp i \<noteq> 0" using u by (auto simp flip: unat_eq_0)
  have "unat (of_nat i * 4096 div 4096 :: u32) = i" using m by (simp add: unat_div)
  then show "(page vp i - vaddr_start vp) div PG_SIZE = of_nat i"
    unfolding word_unat_eq_iff using i by (simp add: page_def)
qed

lemma page_inj:
  assumes "vpool_ok vp" and "i < nbits (vaddr_bitmap vp)" and "j < nbits (vaddr_bitmap vp)"
  shows "page vp i = page vp j \<longleftrightarrow> i = j"
proof
  assume "page vp i = page vp j"
  then have "unat (page vp i) = unat (page vp j)" by (rule arg_cong)
  then show "i = j" unfolding page_props(1) [OF assms(1,2)] page_props(1) [OF assms(1,3)] by simp
qed simp

lemma page_Suc: "page vp i + PG_SIZE = page vp (Suc i)"
  by (simp add: page_def algebra_simps)

lemma pools_ok_cong [simp]: "pools_ok (s\<lparr>mem := m\<rparr>) = pools_ok s" "pools_ok (s\<lparr>phys := h\<rparr>) = pools_ok s"
  "pools_ok (s\<lparr>invlpgs := l\<rparr>) = pools_ok s"
  by (simp_all add: pools_ok_def pool_bits_def pool_of_def)

lemma pool_cong [simp]:
  "pool_bits pf (s\<lparr>mem := m\<rparr>) = pool_bits pf s" "pool_bits pf (s\<lparr>phys := h\<rparr>) = pool_bits pf s"
  "frame pf (s\<lparr>mem := m\<rparr>) k = frame pf s k" "frame pf (s\<lparr>phys := h\<rparr>) k = frame pf s k"
  "pool_bits pf (s\<lparr>invlpgs := l\<rparr>) = pool_bits pf s" "frame pf (s\<lparr>invlpgs := l\<rparr>) k = frame pf s k"
  by (simp_all add: pool_bits_def frame_def pool_of_def)

lemma paging_mem_cong [simp]:
  "translate (s\<lparr>mem := m\<rparr>) v = translate s v" "ptabs (s\<lparr>mem := m\<rparr>) D = ptabs s D"
  "dir_entry (s\<lparr>mem := m\<rparr>) d = dir_entry s d" "pte_slot (s\<lparr>mem := m\<rparr>) v = pte_slot s v"
  "translate (s\<lparr>invlpgs := l\<rparr>) v = translate s v" "ptabs (s\<lparr>invlpgs := l\<rparr>) D = ptabs s D"
  "dir_entry (s\<lparr>invlpgs := l\<rparr>) d = dir_entry s d" "pte_slot (s\<lparr>invlpgs := l\<rparr>) v = pte_slot s v"
  by (simp_all add: translate_def pde_of_def pte_slot_def ptabs_def self_mapped_def dir_entry_def)

lemma in_use_mark:
  assumes "wf_bitmap b" and "k < nbits b"
  shows "bm.in_use b (mark_bit b k True m) = insert k (bm.in_use b m)"
    and "bm.in_use b (mark_bit b k False m) = bm.in_use b m - {k}"
  using mark_bit_same [OF assms] assms(2) by (auto simp: bm.in_use_def split: if_splits)

text \<open>The table entries of the pages \<open>j, ..., j + n - 1\<close> of \<open>vp\<close>.\<close>

definition run_slots :: "'e machine_scheme \<Rightarrow> virtual_addr_pool \<Rightarrow> nat \<Rightarrow> nat \<Rightarrow> u32 set" where
  "run_slots s vp j n = (\<lambda>i. pte_slot s (page vp (j + i))) ` {..<n}"

lemma run_slots_mem [simp]: "run_slots (s\<lparr>mem := m\<rparr>) vp j n = run_slots s vp j n"
  by (simp add: run_slots_def)

lemma pte_slot_dir: "\<forall>d. unat d < 1024 \<longrightarrow> dir_entry t d = dir_entry s d \<Longrightarrow> pte_slot t v = pte_slot s v"
  by (simp add: pte_slot_def pde_of_entry PDE_IDX_bound)

lemma run_slots_Cons:
  assumes "\<forall>d. unat d < 1024 \<longrightarrow> dir_entry t d = dir_entry s d"
  shows "run_slots s vp j (Suc n) = run_slots s vp j 1 \<union> run_slots t vp (Suc j) n"
proof -
  have "{..<Suc n} = insert 0 (Suc ` {..<n})" by (auto simp: less_Suc_eq_0_disj)
  then show ?thesis by (simp add: run_slots_def image_image pte_slot_dir [OF assms] lessThan_Suc)
qed

text \<open>Where only such entries are written, every address that does not use one of them keeps its translation.\<close>

lemma translate_other_slot:
  assumes "\<forall>d. unat d < 1024 \<longrightarrow> dir_entry t d = dir_entry s d" and "phys t (pte_slot s v) = phys s (pte_slot s v)"
  shows "translate t v = translate s v"
  using assms(2) assms(1) [rule_format, OF PDE_IDX_bound [of v]]
  by (simp add: translate_def pde_of_entry pte_slot_dir [OF assms(1)])

lemma run_slots_tables:
  assumes "\<forall>i<n. PDE_IDX (page vp (j + i)) \<in> D" and "a \<in> run_slots s vp j n"
  shows "page_of a \<in> page_of ` dir_entry s ` D"
  using assms by (auto simp: run_slots_def pte_slot_page pde_of_entry)

text \<open>The state \<open>t\<close> differs from \<open>s\<close> in that the pages \<open>j, j + 1, ...\<close> of \<open>vp\<close> are mapped to the frames
  \<open>fs\<close>, which were free in \<open>s\<close> and are in use in \<open>t\<close>.\<close>

definition mapped_run ::
    "pool_flags \<Rightarrow> u32 set \<Rightarrow> virtual_addr_pool \<Rightarrow> nat \<Rightarrow> nat list \<Rightarrow> 'e kernel_scheme \<Rightarrow> 'e kernel_scheme \<Rightarrow> bool" where
  "mapped_run pf D vp j fs s t \<longleftrightarrow>
     (\<exists>m h. t = s\<lparr>mem := m, phys := h\<rparr>) \<and> ptabs t D \<and> (\<forall>d. unat d < 1024 \<longrightarrow> dir_entry t d = dir_entry s d) \<and>
     (\<forall>a. a \<notin> run_slots s vp j (length fs) \<longrightarrow> phys t a = phys s a) \<and>
     distinct fs \<and> set fs \<subseteq> {..<nbits (pool_bits pf s)} - bm.in_use (pool_bits pf s) (mem s) \<and>
     bm.in_use (pool_bits pf s) (mem t) = bm.in_use (pool_bits pf s) (mem s) \<union> set fs \<and>
     (\<forall>a. a \<notin> bm_bytes (pool_bits pf s) \<longrightarrow> mem t a = mem s a) \<and>
     (\<forall>i<length fs. translate t (page vp (j + i)) = Some (frame pf s (fs ! i))) \<and>
     (\<forall>u. PDE_IDX u \<in> D \<longrightarrow> (\<forall>i<length fs. page_of u \<noteq> page vp (j + i)) \<longrightarrow> translate t u = translate s u)"

lemma mapped_run_Nil: "ptabs s D \<Longrightarrow> mapped_run pf D vp j [] s s"
  by (auto simp: mapped_run_def intro!: exI [of _ "mem s"] exI [of _ "phys s"])

lemma mapped_run_tables:
  assumes "mapped_run pf D vp j fs s t" and "\<forall>i<length fs. PDE_IDX (page vp (j + i)) \<in> D"
  shows "\<forall>a. page_of a \<notin> page_of ` dir_entry s ` D \<longrightarrow> phys t a = phys s a"
  using assms run_slots_tables [OF assms(2), of _ s] unfolding mapped_run_def by blast

lemma mapped_run_one:
  assumes ok: "pools_ok s" "vpool_ok vp" "ptabs s D" and j: "j < nbits (vaddr_bitmap vp)" "PDE_IDX (page vp j) \<in> D"
    "translate s (page vp j) = None" and f: "first_fit (pool_bits pf s) 1 (mem s) = Some f"
  shows "\<exists>t u. palloc pf s = Ok (frame pf s f) t \<and> page_table_map (page vp j) (frame pf s f) t = Ok () u \<and>
    frame pf s f \<noteq> NULL \<and> mapped_run pf D vp j [f] s u"
proof -
  let ?b = "pool_bits pf s"
  let ?t = "s\<lparr>mem := mark_bit ?b f True (mem s)\<rparr>"
  have f': "f < nbits ?b" "\<not> bm_bit ?b (mem s) f" using bm.fit_Some [OF f] by auto
  note P = page_props [OF ok(2) j(1)] and F = frame_props [OF ok(1) f'(1)]
  obtain u h where u: "page_table_map (page vp j) (frame pf s f) ?t = Ok () u" "u = ?t\<lparr>phys := h\<rparr>" "ptabs u D"
      "translate u (page vp j) = Some (frame pf s f)" "\<forall>d. unat d < 1024 \<longrightarrow> dir_entry u d = dir_entry s d"
      "\<forall>a. a \<noteq> pte_slot s (page vp j) \<longrightarrow> phys u a = phys s a"
      "\<forall>v. PDE_IDX v \<in> D \<longrightarrow> page_of v \<noteq> page vp j \<longrightarrow> translate u v = translate s v"
    using page_table_map_effect [of ?t D "page vp j" "frame pf s f"] ok(3) j P F(1) by auto
  have "mapped_run pf D vp j [f] s u"
    unfolding mapped_run_def using u(2-7) f' in_use_mark(1) [OF pools_okD(1) [OF ok(1)] f'(1)] mark_bit_frame [OF f'(1)]
    by (auto simp: bm.in_use_def run_slots_def)
  then show ?thesis using palloc_frame [OF ok(1) f] u(1) F(2) by blast
qed

lemma mapped_run_Cons:
  assumes one: "mapped_run pf D vp j [f] s t" and rest: "mapped_run pf D vp (Suc j) fs t u"
    and vp: "vpool_ok vp" "j + length fs < nbits (vaddr_bitmap vp)" and D: "PDE_IDX (page vp j) \<in> D"
      "\<forall>i<length fs. PDE_IDX (page vp (Suc j + i)) \<in> D"
  shows "mapped_run pf D vp j (f # fs) s u"
proof -
  obtain m h m' h' where t: "t = s\<lparr>mem := m, phys := h\<rparr>" and u: "u = t\<lparr>mem := m', phys := h'\<rparr>"
    using one rest by (auto simp: mapped_run_def)
  have b: "pool_bits pf t = pool_bits pf s" "frame pf t k = frame pf s k" for k by (simp_all add: t)
  have ne: "page vp j \<noteq> page vp (Suc j + i)" if "i < length fs" for i
    using page_inj [OF vp(1), of j "Suc j + i"] vp(2) that by simp
  have P: "page_of (page vp j) = page vp j" using page_props(3) [OF vp(1), of j] vp(2) by simp
  have first: "translate u (page vp j) = Some (frame pf s f)"
    using rest D(1) ne P one unfolding mapped_run_def by (auto simp: b)
  show ?thesis
    unfolding mapped_run_def
  proof (intro conjI)
    show "\<exists>m h. u = s\<lparr>mem := m, phys := h\<rparr>" using t u by auto
    have "\<forall>d. unat d < 1024 \<longrightarrow> dir_entry t d = dir_entry s d" using one by (simp add: mapped_run_def)
    from run_slots_Cons [OF this, of vp j "length fs"]
    show "\<forall>a. a \<notin> run_slots s vp j (length (f # fs)) \<longrightarrow> phys u a = phys s a"
      using one rest unfolding mapped_run_def by simp
    show "\<forall>i<length (f # fs). translate u (page vp (j + i)) = Some (frame pf s ((f # fs) ! i))"
      using first rest unfolding mapped_run_def b by (auto simp: less_Suc_eq_0_disj)
    show "\<forall>v. PDE_IDX v \<in> D \<longrightarrow> (\<forall>i<length (f # fs). page_of v \<noteq> page vp (j + i)) \<longrightarrow> translate u v = translate s v"
    proof (intro allI impI)
      fix v assume v: "PDE_IDX v \<in> D" "\<forall>i<length (f # fs). page_of v \<noteq> page vp (j + i)"
      have "page_of v \<noteq> page vp j" using v(2) by (metis add_0_right length_Cons zero_less_Suc)
      moreover have "\<forall>i<length fs. page_of v \<noteq> page vp (Suc j + i)"
        using v(2) by (metis Suc_less_eq add_Suc_shift length_Cons)
      ultimately show "translate u v = translate s v" using one rest v(1) unfolding mapped_run_def by simp
    qed
  qed (use one rest in \<open>auto simp: mapped_run_def b\<close>)
qed

lemma mapped_run_ahead:
  assumes one: "mapped_run pf D vp j [f] s u" and vp: "vpool_ok vp" "j + Suc n \<le> nbits (vaddr_bitmap vp)"
    and free: "\<forall>i<Suc n. PDE_IDX (page vp (j + i)) \<in> D \<and> translate s (page vp (j + i)) = None"
  shows "\<forall>i<n. PDE_IDX (page vp (Suc j + i)) \<in> D \<and> translate u (page vp (Suc j + i)) = None"
proof (intro allI impI conjI)
  fix i assume i: "i < n"
  show D: "PDE_IDX (page vp (Suc j + i)) \<in> D" using free i by (metis Suc_less_eq add_Suc_shift)
  have "page_of (page vp (Suc j + i)) = page vp (Suc j + i)" "page vp (Suc j + i) \<noteq> page vp j"
    using page_props(3) page_inj vp i by auto
  then have "translate u (page vp (Suc j + i)) = translate s (page vp (Suc j + i))"
    using one D unfolding mapped_run_def by auto
  then show "translate u (page vp (Suc j + i)) = None" using free i by (metis Suc_less_eq add_Suc_shift)
qed

lemma mapped_run_room:
  assumes one: "mapped_run pf D vp j [f] s u" and b: "b = pool_bits pf s"
    and room: "Suc n \<le> card ({..<nbits b} - bm.in_use b (mem s))"
  shows "n \<le> card ({..<nbits b} - bm.in_use b (mem u))"
proof -
  have f: "bm.in_use b (mem u) = insert f (bm.in_use b (mem s))" "f \<in> {..<nbits b} - bm.in_use b (mem s)"
    using one b by (auto simp: mapped_run_def)
  then have "{..<nbits b} - bm.in_use b (mem u) = ({..<nbits b} - bm.in_use b (mem s)) - {f}" by auto
  then show ?thesis using room f(2) by simp
qed

lemma malloc_page_loop_maps:
  assumes "pools_ok s" and "vpool_ok vp" and "ptabs s D" and "j + n \<le> nbits (vaddr_bitmap vp)"
    and "\<forall>i<n. PDE_IDX (page vp (j + i)) \<in> D \<and> translate s (page vp (j + i)) = None"
    and "n \<le> card ({..<nbits (pool_bits pf s)} - bm.in_use (pool_bits pf s) (mem s))" and "unat c = n"
  shows "\<exists>t fs. malloc_page_loop pf start c (page vp j) s = Ok start t \<and> length fs = n \<and> mapped_run pf D vp j fs s t"
  using assms
proof (induction n arbitrary: s j c)
  case 0
  then have "c = 0" by (simp add: unat_eq_0)
  then show ?case
    using mapped_run_Nil [OF 0(3)] by (intro exI [of _ s] exI [of _ "[]"]) (simp add: malloc_page_loop.simps)
next
  case (Suc n)
  let ?b = "pool_bits pf s"
  have c0: "c \<noteq> 0" using Suc.prems(7) by auto
  have c: "c \<noteq> 0" "unat (c - 1) = n" using Suc.prems(7) c0 unat_minus_one [OF c0] by simp_all
  have "first_fit ?b 1 (mem s) \<noteq> None"
    using bm.fit_one_None [of ?b "mem s"] Suc.prems(6) by (metis Diff_cancel card.empty not_less_eq_eq zero_le)
  then obtain f where f: "first_fit ?b 1 (mem s) = Some f" by auto
  have j: "j < nbits (vaddr_bitmap vp)" "PDE_IDX (page vp j) \<in> D" "translate s (page vp j) = None"
    using Suc.prems(4,5) by (auto dest: spec [of _ 0])
  obtain t u where tu: "palloc pf s = Ok (frame pf s f) t" "frame pf s f \<noteq> NULL"
      "page_table_map (page vp j) (frame pf s f) t = Ok () u" and one: "mapped_run pf D vp j [f] s u"
    using mapped_run_one [OF Suc.prems(1-3) j f] by blast
  obtain m h where u: "u = s\<lparr>mem := m, phys := h\<rparr>" using one by (auto simp: mapped_run_def)
  have b: "pool_bits pf u = ?b" "pools_ok u" using Suc.prems(1) by (simp_all add: u)
  note rest = mapped_run_ahead [OF one Suc.prems(2,4,5)]
  have room: "n \<le> card ({..<nbits (pool_bits pf u)} - bm.in_use (pool_bits pf u) (mem u))"
    unfolding b by (rule mapped_run_room [OF one refl Suc.prems(6)])
  have tabs: "ptabs u D" "Suc j + n \<le> nbits (vaddr_bitmap vp)"
    using one Suc.prems(4) by (simp_all add: mapped_run_def)
  obtain v fs where v: "malloc_page_loop pf start (c - 1) (page vp (Suc j)) u = Ok start v"
      "length fs = n" "mapped_run pf D vp (Suc j) fs u v"
    using Suc.IH [OF b(2) Suc.prems(2) tabs rest room c(2)] by blast
  have "mapped_run pf D vp j (f # fs) s v"
    using Suc.prems(4,5) v(2) j(2)
    by (intro mapped_run_Cons [OF one v(3) Suc.prems(2)]) (auto simp flip: add_Suc_shift)
  moreover have "malloc_page_loop pf start c (page vp j) s = Ok start v"
    using c(1) tu v(1) page_Suc [of vp j] by (subst malloc_page_loop.simps) (simp add: word_gt_0)
  ultimately show ?case using v(2) by (intro exI [of _ v] exI [of _ "f # fs"]) simp
qed


section \<open>The kernel's virtual memory\<close>

text \<open>
  The invariant of the kernel heap's pages: a page of the virtual pool is mapped just when its bit is
  set, to the frame \<open>fr i\<close>, which is marked in the kernel's physical pool, and two pages never share
  a frame. The page tables of the directory entries \<open>D\<close> cover the whole pool, as the loader
  builds them for the kernel's part of the address space.
\<close>

definition vm_rep :: "u32 set \<Rightarrow> (nat \<Rightarrow> nat) \<Rightarrow> 'e kernel_scheme \<Rightarrow> bool" where
  "vm_rep D fr s \<longleftrightarrow>
     (let vp = kernel_vaddr_pool s; vb = vaddr_bitmap vp; b = pool_bits PF_KERNEL s in
      pools_ok s \<and> vpool_ok vp \<and> ptabs s D \<and> bm_bytes vb \<inter> bm_bytes b = {} \<and>
      (\<forall>i<nbits vb. PDE_IDX (page vp i) \<in> D \<and>
         translate s (page vp i) = (if bm_bit vb (mem s) i then Some (frame PF_KERNEL s (fr i)) else None)) \<and>
      fr ` bm.in_use vb (mem s) \<subseteq> bm.in_use b (mem s) \<and> inj_on fr (bm.in_use vb (mem s)))"

lemma vm_repD:
  assumes "vm_rep D fr s" and "vp = kernel_vaddr_pool s" and "vb = vaddr_bitmap vp" and "b = pool_bits PF_KERNEL s"
  shows "pools_ok s" and "vpool_ok vp" and "ptabs s D" and "bm_bytes vb \<inter> bm_bytes b = {}"
    and "\<And>i. i < nbits vb \<Longrightarrow> PDE_IDX (page vp i) \<in> D"
    and "\<And>i. i < nbits vb \<Longrightarrow> bm_bit vb (mem s) i \<Longrightarrow> translate s (page vp i) = Some (frame PF_KERNEL s (fr i))"
    and "\<And>i. i < nbits vb \<Longrightarrow> \<not> bm_bit vb (mem s) i \<Longrightarrow> translate s (page vp i) = None"
    and "fr ` bm.in_use vb (mem s) \<subseteq> bm.in_use b (mem s)" and "inj_on fr (bm.in_use vb (mem s))"
    and "wf_bitmap vb" and "wf_bitmap b"
  using assms pools_okD(1) [of s PF_KERNEL] by (simp_all add: vm_rep_def Let_def vpool_ok_def)

lemma malloc_page_kernel:
  assumes rep: "vm_rep D fr s" and n: "n \<noteq> 0" "n < 3840"
    and vp: "vp = kernel_vaddr_pool s" "vb = vaddr_bitmap vp" "b = pool_bits PF_KERNEL s"
    and k: "first_fit vb (unat n) (mem s) = Some k"
    and room: "unat n \<le> card ({..<nbits b} - bm.in_use b (mem s))"
  shows "\<exists>t fs. malloc_page PF_KERNEL n s = Ok (page vp k) t \<and> length fs = unat n \<and>
    mapped_run PF_KERNEL D vp k fs (s\<lparr>mem := bm.mark_run vb k (unat n) True (mem s)\<rparr>) t"
proof -
  note R = vm_repD [OF rep vp]
  let ?u = "s\<lparr>mem := bm.mark_run vb k (unat n) True (mem s)\<rparr>"
  have kn: "k + unat n \<le> nbits vb" and free: "\<And>j. k \<le> j \<Longrightarrow> j < k + unat n \<Longrightarrow> \<not> bm_bit vb (mem s) j"
    using bm.fit_Some [OF k] by auto
  have pages: "\<forall>i<unat n. PDE_IDX (page vp (k + i)) \<in> D \<and> translate ?u (page vp (k + i)) = None"
    using R(5,7) kn free by simp
  have room': "unat n \<le> card ({..<nbits (pool_bits PF_KERNEL ?u)} - bm.in_use (pool_bits PF_KERNEL ?u) (mem ?u))"
    using room in_use_other [OF kn R(4)] vp(3) by simp
  have u: "pools_ok ?u" "ptabs ?u D" using R(1,3) by simp_all
  have "\<exists>t fs. malloc_page_loop PF_KERNEL (page vp k) n (page vp k) ?u = Ok (page vp k) t \<and>
      length fs = unat n \<and> mapped_run PF_KERNEL D vp k fs ?u t"
    by (rule malloc_page_loop_maps [OF u(1) R(2) u(2) kn [unfolded vp(2)] pages room' refl])
  moreover have "0 < unat n" using n(1) by (simp add: unat_gt_0)
  then have "k < nbits (vaddr_bitmap vp)" using kn unfolding vp(2) by linarith
  then have "page vp k \<noteq> 0" by (rule page_props(4) [OF R(2)])
  moreover have "get_virtual_addr PF_KERNEL n s = Ok (page vp k) ?u"
    using get_virtual_addr_kernel [OF R(10) _ n(1) k] vp by simp
  ultimately show ?thesis using n by (simp add: malloc_page_def word_gt_0)
qed

lemma vm_rep_mapped:
  assumes rep: "vm_rep D fr s" and vp: "vp = kernel_vaddr_pool s" "vb = vaddr_bitmap vp" "b = pool_bits PF_KERNEL s"
    and kn: "k + length fs \<le> nbits vb" and free: "{k..<k + length fs} \<inter> bm.in_use vb (mem s) = {}"
    and u: "u = s\<lparr>mem := bm.mark_run vb k (length fs) True (mem s)\<rparr>" and run: "mapped_run PF_KERNEL D vp k fs u t"
  defines "fr' \<equiv> \<lambda>i. if k \<le> i \<and> i < k + length fs then fs ! (i - k) else fr i"
  shows "vm_rep D fr' t" and "bm.in_use vb (mem t) = bm.in_use vb (mem s) \<union> {k..<k + length fs}"
    and "bm.in_use b (mem t) = bm.in_use b (mem s) \<union> set fs" and "set fs \<inter> bm.in_use b (mem s) = {}"
proof -
  note R = vm_repD [OF rep vp]
  obtain m h where t: "t = s\<lparr>mem := m, phys := h\<rparr>" using run u by (auto simp: mapped_run_def)
  have ub: "bm.in_use b (mem u) = bm.in_use b (mem s)" using in_use_other [OF kn R(4)] u by simp
  have "bm.in_use vb (mem t) = bm.in_use vb (mem u)"
    using run R(4) by (intro in_use_cong) (auto simp: mapped_run_def u vp(3))
  then show V: "bm.in_use vb (mem t) = bm.in_use vb (mem s) \<union> {k..<k + length fs}"
    using bm.in_use_mark_run(1) [OF R(10) kn] u by simp
  have M: "bm.in_use b (mem t) = bm.in_use b (mem s) \<union> set fs" "distinct fs"
      "set fs \<subseteq> {..<nbits b} - bm.in_use b (mem s)" "ptabs t D"
      "\<And>i. i < length fs \<Longrightarrow> translate t (page vp (k + i)) = Some (frame PF_KERNEL s (fs ! i))"
      "\<And>v. PDE_IDX v \<in> D \<Longrightarrow> (\<And>i. i < length fs \<Longrightarrow> page_of v \<noteq> page vp (k + i)) \<Longrightarrow> translate t v = translate s v"
    using run ub unfolding mapped_run_def u vp(3) by simp_all
  show "bm.in_use b (mem t) = bm.in_use b (mem s) \<union> set fs" "set fs \<inter> bm.in_use b (mem s) = {}"
    using M(1,3) by auto
  have bit: "bm_bit vb (mem t) i \<longleftrightarrow> bm_bit vb (mem s) i \<or> (k \<le> i \<and> i < k + length fs)" if "i < nbits vb" for i
    using V that by (auto simp: bm.in_use_def set_eq_iff)
  have tr: "translate t (page vp i) = (if bm_bit vb (mem t) i then Some (frame PF_KERNEL s (fr' i)) else None)"
    if i: "i < nbits vb" for i
  proof (cases "k \<le> i \<and> i < k + length fs")
    case True
    then have "i - k < length fs" "k + (i - k) = i" by auto
    then have "translate t (page vp i) = Some (frame PF_KERNEL s (fs ! (i - k)))" using M(5) [of "i - k"] by simp
    then show ?thesis using bit [OF i] True by (simp add: fr'_def)
  next
    case False
    have "page_of (page vp i) \<noteq> page vp (k + j)" if "j < length fs" for j
      using page_props(3) [OF R(2), of i] page_inj [OF R(2), of i "k + j"] i kn that False vp(2) by auto
    then have "translate t (page vp i) = translate s (page vp i)" using M(6) R(5) [OF i] by blast
    then show ?thesis using False bit [OF i] R(6,7) [OF i] by (auto simp: fr'_def)
  qed
  have im: "fr' ` {k..<k + length fs} = set fs"
  proof -
    have "map fr' [k..<k + length fs] = fs" by (rule nth_equalityI) (simp_all add: fr'_def)
    then show ?thesis by (metis set_map set_upt)
  qed
  let ?U = "bm.in_use vb (mem s)" and ?N = "{k..<k + length fs}"
  have old: "fr' i = fr i" if "i \<in> ?U" for i using free that by (auto simp: fr'_def)
  have "inj_on fr' ?N" using M(2) by (intro inj_onI) (auto simp: fr'_def nth_eq_iff_index_eq)
  moreover have "inj_on fr' ?U" using R(9) old by (simp cong: inj_on_cong)
  moreover have "fr' ` ?U = fr ` ?U" using old by (rule image_cong [OF refl])
  then have "fr' ` ?U \<inter> fr' ` ?N = {}" "fr' ` (?U \<union> ?N) \<subseteq> bm.in_use b (mem t)"
    using R(8) M(1,3) im unfolding image_Un by auto
  ultimately have "fr' ` bm.in_use vb (mem t) \<subseteq> bm.in_use b (mem t) \<and> inj_on fr' (bm.in_use vb (mem t))"
    unfolding V by (simp add: inj_on_Un) blast
  then show "vm_rep D fr' t"
    unfolding vm_rep_def Let_def using R(1-5) M(4) tr by (simp add: t vp)
qed

section \<open>Freeing pages\<close>

lemma pte_remove_effect:
  assumes tabs: "ptabs s D" and v: "PDE_IDX v \<in> D"
  shows "\<exists>t. page_table_pte_remove v s = Ok () t \<and>
    (\<exists>h. t = s\<lparr>phys := h, invlpgs := invlpgs s @ [running_thread s]\<rparr>) \<and> ptabs t D \<and> translate t v = None \<and>
    (\<forall>d. unat d < 1024 \<longrightarrow> dir_entry t d = dir_entry s d) \<and> (\<forall>a. a \<noteq> pte_slot s v \<longrightarrow> phys t a = phys s a) \<and>
    (\<forall>u. PDE_IDX u \<in> D \<longrightarrow> page_of u \<noteq> page_of v \<longrightarrow> translate t u = translate s u)"
proof -
  let ?e = "phys s (pte_slot s v) AND NOT PG_P_1"
  let ?t = "s\<lparr>phys := (phys s)(pte_slot s v := ?e), invlpgs := invlpgs s @ [running_thread s]\<rparr>"
  note W = pte_write [OF tabs v, of ?t ?e]
  have self: "self_mapped s" and pde: "present (pde_of s v)" using tabs v by (simp_all add: ptabs_def pde_of_entry)
  have "\<not> present ?e" by (simp add: PG_P_1_def and.assoc)
  then have "translate ?t v = None" using W(4) [of v] by simp
  moreover have "page_table_pte_remove v s = Ok () ?t"
    using pde load_pte [OF self pde] translate_pte_ptr [OF self, of v]
    by (simp add: page_table_pte_remove_def store_word_def Let_def running_thread_def page_of_def)
  moreover have "\<forall>a. a \<noteq> pte_slot s v \<longrightarrow> phys ?t a = phys s a" by simp
  moreover have "ptabs ?t D" "\<forall>d. unat d < 1024 \<longrightarrow> dir_entry ?t d = dir_entry s d"
      "\<forall>u. PDE_IDX u \<in> D \<longrightarrow> page_of u \<noteq> page_of v \<longrightarrow> translate ?t u = translate s u"
    using W(1-3) by simp_all
  ultimately show ?thesis by (intro exI [of _ ?t]) blast
qed

text \<open>The state \<open>t\<close> differs from \<open>s\<close> in that the pages \<open>j, j + 1, ...\<close> are no longer mapped and their frames
  \<open>fs\<close> are free.\<close>

definition unmapped_run ::
    "pool_flags \<Rightarrow> u32 set \<Rightarrow> virtual_addr_pool \<Rightarrow> nat \<Rightarrow> nat list \<Rightarrow> 'e kernel_scheme \<Rightarrow> 'e kernel_scheme \<Rightarrow> bool" where
  "unmapped_run pf D vp j fs s t \<longleftrightarrow>
     (\<exists>m h. t = s\<lparr>mem := m, phys := h, invlpgs := invlpgs s @ replicate (length fs) (running_thread s)\<rparr>) \<and>
     ptabs t D \<and> (\<forall>d. unat d < 1024 \<longrightarrow> dir_entry t d = dir_entry s d) \<and>
     (\<forall>a. a \<notin> run_slots s vp j (length fs) \<longrightarrow> phys t a = phys s a) \<and>
     bm.in_use (pool_bits pf s) (mem t) = bm.in_use (pool_bits pf s) (mem s) - set fs \<and>
     (\<forall>a. a \<notin> bm_bytes (pool_bits pf s) \<longrightarrow> mem t a = mem s a) \<and>
     (\<forall>i<length fs. translate t (page vp (j + i)) = None) \<and>
     (\<forall>u. PDE_IDX u \<in> D \<longrightarrow> (\<forall>i<length fs. page_of u \<noteq> page vp (j + i)) \<longrightarrow> translate t u = translate s u)"

lemma unmapped_run_one:
  assumes ok: "pools_ok s" "vpool_ok vp" "ptabs s D" and j: "j < nbits (vaddr_bitmap vp)" "PDE_IDX (page vp j) \<in> D"
    and f: "f < nbits (pool_bits pf s)" "translate s (page vp j) = Some (frame pf s f)"
  shows "\<exists>t u. addr_v2p (page vp j) s = Ok (frame pf s f) s \<and> pfree (frame pf s f) s = Ok () t \<and>
    page_table_pte_remove (page vp j) t = Ok () u \<and> unmapped_run pf D vp j [f] s u"
proof -
  let ?b = "pool_bits pf s"
  let ?t = "s\<lparr>mem := mark_bit ?b f False (mem s)\<rparr>"
  have "self_mapped s" using ok(3) by (simp add: ptabs_def)
  then have a: "addr_v2p (page vp j) s = Ok (frame pf s f) s" using f(2) by (rule addr_v2p_maps)
  have r: "running_thread ?t = running_thread s" by (simp add: running_thread_def)
  obtain u h where u: "page_table_pte_remove (page vp j) ?t = Ok () u"
      "u = ?t\<lparr>phys := h, invlpgs := invlpgs s @ [running_thread s]\<rparr>" "ptabs u D"
      "translate u (page vp j) = None" "\<forall>d. unat d < 1024 \<longrightarrow> dir_entry u d = dir_entry s d"
      "\<forall>a. a \<noteq> pte_slot s (page vp j) \<longrightarrow> phys u a = phys s a"
      "\<forall>v. PDE_IDX v \<in> D \<longrightarrow> page_of v \<noteq> page vp j \<longrightarrow> translate u v = translate s v"
    using pte_remove_effect [of ?t D "page vp j"] ok(3) j page_props(3) [OF ok(2) j(1)] r by auto
  have "unmapped_run pf D vp j [f] s u"
    unfolding unmapped_run_def using u(2-7) in_use_mark(2) [OF pools_okD(1) [OF ok(1)] f(1)] mark_bit_frame [OF f(1)]
    by (auto simp: run_slots_def)
  then show ?thesis using a pfree_frame [OF ok(1) f(1)] u(1) by blast
qed

lemma unmapped_run_Cons:
  assumes one: "unmapped_run pf D vp j [f] s t" and rest: "unmapped_run pf D vp (Suc j) fs t u"
    and vp: "vpool_ok vp" "j + length fs < nbits (vaddr_bitmap vp)" and D: "PDE_IDX (page vp j) \<in> D"
  shows "unmapped_run pf D vp j (f # fs) s u"
proof -
  obtain m h m' h' where t: "t = s\<lparr>mem := m, phys := h, invlpgs := invlpgs s @ [running_thread s]\<rparr>"
      and u: "u = t\<lparr>mem := m', phys := h', invlpgs := invlpgs t @ replicate (length fs) (running_thread t)\<rparr>"
    using one rest by (auto simp: unmapped_run_def)
  have b: "pool_bits pf t = pool_bits pf s" "running_thread t = running_thread s" by (simp_all add: t running_thread_def)
  have ne: "page vp j \<noteq> page vp (Suc j + i)" if "i < length fs" for i
    using page_inj [OF vp(1), of j "Suc j + i"] vp(2) that by simp
  have P: "page_of (page vp j) = page vp j" using page_props(3) [OF vp(1), of j] vp(2) by simp
  have first: "translate u (page vp j) = None"
    using rest D ne P one unfolding unmapped_run_def by auto
  show ?thesis
    unfolding unmapped_run_def
  proof (intro conjI)
    show "\<exists>m h. u = s\<lparr>mem := m, phys := h, invlpgs := invlpgs s @ replicate (length (f # fs)) (running_thread s)\<rparr>"
      using u unfolding b by (auto simp: t)
    have "\<forall>d. unat d < 1024 \<longrightarrow> dir_entry t d = dir_entry s d" using one by (simp add: unmapped_run_def)
    from run_slots_Cons [OF this, of vp j "length fs"]
    show "\<forall>a. a \<notin> run_slots s vp j (length (f # fs)) \<longrightarrow> phys u a = phys s a"
      using one rest unfolding unmapped_run_def by simp
    show "\<forall>i<length (f # fs). translate u (page vp (j + i)) = None"
      using first rest unfolding unmapped_run_def by (auto simp: less_Suc_eq_0_disj)
    show "\<forall>v. PDE_IDX v \<in> D \<longrightarrow> (\<forall>i<length (f # fs). page_of v \<noteq> page vp (j + i)) \<longrightarrow> translate u v = translate s v"
    proof (intro allI impI)
      fix v assume v: "PDE_IDX v \<in> D" "\<forall>i<length (f # fs). page_of v \<noteq> page vp (j + i)"
      have "page_of v \<noteq> page vp j" using v(2) by (metis add_0_right length_Cons zero_less_Suc)
      moreover have "\<forall>i<length fs. page_of v \<noteq> page vp (Suc j + i)"
        using v(2) by (metis Suc_less_eq add_Suc_shift length_Cons)
      ultimately show "translate u v = translate s v" using one rest v(1) unfolding unmapped_run_def by simp
    qed
  qed (use one rest in \<open>auto simp: unmapped_run_def b\<close>)
qed

lemma mfree_page_loop_unmaps:
  assumes "pools_ok s" and "vpool_ok vp" and "ptabs s D" and "j + length fs \<le> nbits (vaddr_bitmap vp)"
    and "\<forall>i<length fs. PDE_IDX (page vp (j + i)) \<in> D \<and> fs ! i < nbits (pool_bits pf s) \<and>
           translate s (page vp (j + i)) = Some (frame pf s (fs ! i))"
    and "unat c = length fs"
  shows "\<exists>t. mfree_page_loop c (page vp j) s = Ok () t \<and> unmapped_run pf D vp j fs s t"
  using assms
proof (induction fs arbitrary: s j c)
  case Nil
  then have "c = 0" by (simp add: unat_eq_0)
  then show ?case
    using Nil(3) by (auto simp: mfree_page_loop.simps unmapped_run_def intro!: exI [of _ "mem s"] exI [of _ "phys s"])
next
  case (Cons f fs)
  have c0: "c \<noteq> 0" using Cons.prems(6) by auto
  have c: "unat (c - 1) = length fs" using Cons.prems(6) c0 unat_minus_one [OF c0] by simp
  have j: "j < nbits (vaddr_bitmap vp)" "PDE_IDX (page vp j) \<in> D" "f < nbits (pool_bits pf s)"
      "translate s (page vp j) = Some (frame pf s f)"
    using Cons.prems(4,5) by (auto dest: spec [of _ 0])
  obtain t u where tu: "addr_v2p (page vp j) s = Ok (frame pf s f) s" "pfree (frame pf s f) s = Ok () t"
      "page_table_pte_remove (page vp j) t = Ok () u" and one: "unmapped_run pf D vp j [f] s u"
    using unmapped_run_one [OF Cons.prems(1-3) j] by blast
  obtain m h where u: "u = s\<lparr>mem := m, phys := h, invlpgs := invlpgs s @ [running_thread s]\<rparr>"
    using one by (auto simp: unmapped_run_def)
  have b: "pool_bits pf u = pool_bits pf s" "pools_ok u" "frame pf u k = frame pf s k" for k
    using Cons.prems(1) by (simp_all add: u)
  have rest: "\<forall>i<length fs. PDE_IDX (page vp (Suc j + i)) \<in> D \<and> fs ! i < nbits (pool_bits pf u) \<and>
      translate u (page vp (Suc j + i)) = Some (frame pf u (fs ! i))"
  proof (intro allI impI)
    fix i assume i: "i < length fs"
    have D: "PDE_IDX (page vp (Suc j + i)) \<in> D" "fs ! i < nbits (pool_bits pf s)"
        "translate s (page vp (Suc j + i)) = Some (frame pf s (fs ! i))"
      using Cons.prems(5) i by (auto dest!: spec [of _ "Suc i"])
    have "page_of (page vp (Suc j + i)) = page vp (Suc j + i)" "page vp (Suc j + i) \<noteq> page vp j"
      using page_props(3) page_inj Cons.prems(2,4) i by auto
    then have "translate u (page vp (Suc j + i)) = translate s (page vp (Suc j + i))"
      using one D(1) unfolding unmapped_run_def by auto
    then show "PDE_IDX (page vp (Suc j + i)) \<in> D \<and> fs ! i < nbits (pool_bits pf u) \<and>
        translate u (page vp (Suc j + i)) = Some (frame pf u (fs ! i))" using D b by simp
  qed
  have tabs: "ptabs u D" "Suc j + length fs \<le> nbits (vaddr_bitmap vp)"
    using one Cons.prems(4) by (simp_all add: unmapped_run_def)
  obtain v where v: "mfree_page_loop (c - 1) (page vp (Suc j)) u = Ok () v" "unmapped_run pf D vp (Suc j) fs u v"
    using Cons.IH [OF b(2) Cons.prems(2) tabs rest c] by blast
  have "unmapped_run pf D vp j (f # fs) s v"
    using Cons.prems(4) by (intro unmapped_run_Cons [OF one v(2) Cons.prems(2) _ j(2)]) simp
  moreover have "mfree_page_loop c (page vp j) s = Ok () v"
    using c0 tu v(1) page_Suc [of vp j] by (subst mfree_page_loop.simps) (simp add: word_gt_0)
  ultimately show ?case by blast
qed

lemma mfree_page_runs:
  assumes rep: "vm_rep D fr s" and vp: "vp = kernel_vaddr_pool s" "vb = vaddr_bitmap vp" "b = pool_bits PF_KERNEL s"
    and n: "n \<noteq> 0" "k + unat n \<le> nbits vb" "{k..<k + unat n} \<subseteq> bm.in_use vb (mem s)"
  shows "\<exists>u. mfree_page PF_KERNEL (page vp k) n s =
      Ok () (u\<lparr>mem := bm.mark_run vb k (unat n) False (mem u)\<rparr>) \<and>
    unmapped_run PF_KERNEL D vp k (map fr [k..<k + unat n]) s u"
proof -
  note R = vm_repD [OF rep vp]
  let ?fs = "map fr [k..<k + unat n]"
  have "0 < unat n" using n(1) by (simp add: unat_gt_0)
  then have kb: "k < nbits (vaddr_bitmap vp)" using n(2) unfolding vp(2) by linarith
  note P = page_props [OF R(2) kb]
  have used: "bm_bit vb (mem s) i \<and> i < nbits vb" if "k \<le> i" "i < k + unat n" for i
    using n(3) that by (auto simp: bm.in_use_def)
  have fs: "\<forall>i<length ?fs. PDE_IDX (page vp (k + i)) \<in> D \<and> ?fs ! i < nbits (pool_bits PF_KERNEL s) \<and>
      translate s (page vp (k + i)) = Some (frame PF_KERNEL s (?fs ! i))"
  proof (intro allI impI)
    fix i assume "i < length ?fs"
    then have i: "k + i < nbits vb" "bm_bit vb (mem s) (k + i)" "?fs ! i = fr (k + i)" using used [of "k + i"] by auto
    then have "fr (k + i) \<in> bm.in_use b (mem s)" using R(8) by (auto simp: bm.in_use_def)
    then show "PDE_IDX (page vp (k + i)) \<in> D \<and> ?fs ! i < nbits (pool_bits PF_KERNEL s) \<and>
        translate s (page vp (k + i)) = Some (frame PF_KERNEL s (?fs ! i))"
      using i R(5,6) vp(3) by (auto simp: bm.in_use_def)
  qed
  have len: "unat n = length ?fs" "k + length ?fs \<le> nbits (vaddr_bitmap vp)" using n(2) vp(2) by simp_all
  obtain u where u: "mfree_page_loop n (page vp k) s = Ok () u" "unmapped_run PF_KERNEL D vp k ?fs s u"
    using mfree_page_loop_unmaps [OF R(1-3) len(2) fs len(1)] by blast
  obtain m h l where um: "u = s\<lparr>mem := m, phys := h, invlpgs := l\<rparr>" using u(2) by (auto simp: unmapped_run_def)
  let ?t = "u\<lparr>mem := bm.mark_run vb k (unat n) False (mem u)\<rparr>"
  have "k + unat n < 2 ^ 32" using n(2) nbits_bound [OF R(10)] by simp
  then have vr: "vaddr_remove PF_KERNEL (page vp k) n u = Ok () ?t"
    using bitmap_set_run_all [of 0 k n vb u] P(5) vp(1,2) by (simp add: vaddr_remove_def vpool_of_def um Let_def)
  have "page vp k mod PG_SIZE = 0"
    using P(2) by (simp add: page_aligned_def unat_mod flip: unat_eq_0)
  moreover have "addr_v2p (page vp k) s = Ok (frame PF_KERNEL s (fr k)) s"
    using R(3,6) used [of k] \<open>0 < unat n\<close> by (intro addr_v2p_maps) (auto simp: ptabs_def)
  moreover have "1 \<le> n" using n(1) by (simp add: word_le_nat_alt unat_gt_0 Suc_le_eq)
  ultimately have "mfree_page PF_KERNEL (page vp k) n s = Ok () ?t"
    using u(1) vr by (simp add: mfree_page_def)
  then show ?thesis using u(2) by blast
qed

lemma vm_rep_unmapped:
  assumes rep: "vm_rep D fr s" and vp: "vp = kernel_vaddr_pool s" "vb = vaddr_bitmap vp" "b = pool_bits PF_KERNEL s"
    and kn: "k + n \<le> nbits vb" "{k..<k + n} \<subseteq> bm.in_use vb (mem s)"
    and run: "unmapped_run PF_KERNEL D vp k (map fr [k..<k + n]) s u"
    and t: "t = u\<lparr>mem := bm.mark_run vb k n False (mem u)\<rparr>"
  shows "vm_rep D fr t" and "bm.in_use vb (mem t) = bm.in_use vb (mem s) - {k..<k + n}"
    and "bm.in_use b (mem t) = bm.in_use b (mem s) - fr ` {k..<k + n}" and "\<exists>m h l. t = s\<lparr>phys := h, invlpgs := l, mem := m\<rparr>"
proof -
  note R = vm_repD [OF rep vp]
  obtain m h l where u: "u = s\<lparr>mem := m, phys := h, invlpgs := l\<rparr>" using run by (auto simp: unmapped_run_def)
  then show "\<exists>m h l. t = s\<lparr>phys := h, invlpgs := l, mem := m\<rparr>" using t by auto
  have U: "bm.in_use b (mem u) = bm.in_use b (mem s) - fr ` {k..<k + n}" "ptabs t D"
      "\<And>a. a \<notin> bm_bytes b \<Longrightarrow> mem u a = mem s a"
      "\<And>i. i < n \<Longrightarrow> translate t (page vp (k + i)) = None"
      "\<And>v. PDE_IDX v \<in> D \<Longrightarrow> (\<And>i. i < n \<Longrightarrow> page_of v \<noteq> page vp (k + i)) \<Longrightarrow> translate t v = translate s v"
    using run unfolding unmapped_run_def t vp(3) by simp_all
  show B: "bm.in_use b (mem t) = bm.in_use b (mem s) - fr ` {k..<k + n}"
    using U(1) in_use_other [OF kn(1) R(4)] t by simp
  have "bm.in_use vb (mem u) = bm.in_use vb (mem s)"
    using U(3) R(4) by (intro in_use_cong) auto
  then show V: "bm.in_use vb (mem t) = bm.in_use vb (mem s) - {k..<k + n}"
    using bm.in_use_mark_run(2) [OF R(10) kn(1)] t by simp
  have bit: "bm_bit vb (mem t) i \<longleftrightarrow> bm_bit vb (mem s) i \<and> \<not> (k \<le> i \<and> i < k + n)" if "i < nbits vb" for i
    using V that by (auto simp: bm.in_use_def set_eq_iff)
  have tr: "translate t (page vp i) = (if bm_bit vb (mem t) i then Some (frame PF_KERNEL s (fr i)) else None)"
    if i: "i < nbits vb" for i
  proof (cases "k \<le> i \<and> i < k + n")
    case True
    then have "i - k < n" "k + (i - k) = i" by auto
    then have "translate t (page vp i) = None" using U(4) [of "i - k"] by simp
    then show ?thesis using bit [OF i] True by simp
  next
    case False
    have "page_of (page vp i) \<noteq> page vp (k + j)" if "j < n" for j
      using page_props(3) [OF R(2), of i] page_inj [OF R(2), of i "k + j"] i kn(1) that False vp(2) by auto
    then have "translate t (page vp i) = translate s (page vp i)" using U(5) R(5) [OF i] by blast
    then show ?thesis using False bit [OF i] R(6,7) [OF i] by auto
  qed
  have "fr ` (bm.in_use vb (mem s) - {k..<k + n}) \<inter> fr ` {k..<k + n} = {}"
    using R(9) kn(2) by (auto simp: inj_on_def)
  then have "fr ` bm.in_use vb (mem t) \<subseteq> bm.in_use b (mem t)" "inj_on fr (bm.in_use vb (mem t))"
    unfolding V B using R(8,9) by (auto intro: inj_on_subset)
  then show "vm_rep D fr t"
    unfolding vm_rep_def Let_def using R(1-5) U(2) tr by (simp add: t u vp)
qed

section \<open>Properties\<close>

text \<open>A kernel heap of eight pages of which the third is in use.\<close>

definition demo_vpool :: virtual_addr_pool where
  "demo_vpool = \<lparr>vaddr_bitmap = \<lparr>btmp_bytes_len = 1, bits = 0xc009a002\<rparr>, vaddr_start = 0xc0100000\<rparr>"

definition demo_vm :: kernel where
  "demo_vm = demo_base\<lparr>
     mem := (\<lambda>_. 0)(0xc009a000 := 4, 0xc009a002 := 4),
     kernel_mem_pool := \<lparr>mem_pool_bitmap = \<lparr>btmp_bytes_len = 1, bits = 0xc009a000\<rparr>,
       phy_addr_start = 0x200000, pool_size = 0x8000\<rparr>,
     user_mem_pool := \<lparr>mem_pool_bitmap = \<lparr>btmp_bytes_len = 1, bits = 0xc009a001\<rparr>,
       phy_addr_start = 0x208000, pool_size = 0x8000\<rparr>,
     kernel_vaddr_pool := demo_vpool\<rparr>"

lemma demo_vm_pools:
  "pool_bits PF_KERNEL demo_vm = \<lparr>btmp_bytes_len = 1, bits = 0xc009a000\<rparr>"
  "pool_bits PF_USER demo_vm = \<lparr>btmp_bytes_len = 1, bits = 0xc009a001\<rparr>"
  "kernel_vaddr_pool demo_vm = demo_vpool" "cr3 demo_vm = 0x100000" "phys demo_vm = demo_phys"
  "mem demo_vm = (\<lambda>_. 0)(0xc009a000 := 4, 0xc009a002 := 4)"
  "phy_addr_start (kernel_mem_pool demo_vm) = 0x200000" "phy_addr_start (user_mem_pool demo_vm) = 0x208000"
  by (simp_all add: demo_vm_def pool_bits_def pool_of_def)

lemma one_byte: "in_range a (Suc 0) x \<longleftrightarrow> x = a"
  by (auto simp: in_range_def unat_eq_0)

lemma demo_vm_pools_ok: "pools_ok demo_vm"
  by (simp add: pools_ok_def demo_vm_pools wf_bitmap_def bm_bytes_def one_byte page_aligned_def nbits_def)

lemma demo_vpool_ok: "vpool_ok demo_vpool"
  by (simp add: vpool_ok_def demo_vpool_def wf_bitmap_def page_aligned_def nbits_def)

lemma demo_vm_tabs: "ptabs demo_vm {768}"
  by (simp add: ptabs_def self_mapped_def dir_entry_def demo_vm_pools demo_phys_def page_aligned_def page_of_def)

lemma less8: "(\<forall>i<8. P i) \<longleftrightarrow> P 0 \<and> P 1 \<and> P 2 \<and> P 3 \<and> P 4 \<and> P 5 \<and> P 6 \<and> P (7::nat)"
proof -
  have "i < 8 \<longleftrightarrow> i = 0 \<or> i = 1 \<or> i = 2 \<or> i = 3 \<or> i = 4 \<or> i = 5 \<or> i = 6 \<or> i = 7" for i :: nat
    by arith
  then show ?thesis by metis
qed

lemma bit_4: "i < 8 \<Longrightarrow> bit (4 :: u8) i \<longleftrightarrow> i = 2"
  using less8 [of "\<lambda>i. bit (4 :: u8) i \<longleftrightarrow> i = 2"] by simp

lemma demo_bits:
  "i < 8 \<Longrightarrow> bm_bit (vaddr_bitmap demo_vpool) (mem demo_vm) i \<longleftrightarrow> i = 2"
  "i < 8 \<Longrightarrow> bm_bit (pool_bits PF_KERNEL demo_vm) (mem demo_vm) i \<longleftrightarrow> i = 2"
  using bit_4 [of i] by (simp_all add: bm_bit_def demo_vm_pools demo_vpool_def)

lemma demo_pages:
  "\<forall>i<8. PDE_IDX (page demo_vpool i) = 768 \<and>
     translate demo_vm (page demo_vpool i) = (if i = 2 then Some (frame PF_KERNEL demo_vm i) else None)"
  unfolding less8
  by (simp add: page_def demo_vpool_def PDE_IDX_def PTE_IDX_def translate_def pde_of_def pte_slot_def demo_vm_pools
      demo_phys_def page_of_def frame_def pool_of_def)

lemma demo_nbits: "nbits (vaddr_bitmap demo_vpool) = 8" "nbits (pool_bits PF_KERNEL demo_vm) = 8"
  by (simp_all add: nbits_def demo_vpool_def demo_vm_pools)

lemma demo_in_use:
  "bm.in_use (vaddr_bitmap demo_vpool) (mem demo_vm) = {2}"
  "bm.in_use (pool_bits PF_KERNEL demo_vm) (mem demo_vm) = {2}"
  using demo_bits by (auto simp: bm.in_use_def demo_nbits)

lemma demo_vm_rep: "vm_rep {768} (\<lambda>i. i) demo_vm"
proof -
  have "bm_bytes (vaddr_bitmap demo_vpool) \<inter> bm_bytes (pool_bits PF_KERNEL demo_vm) = {}"
    by (simp add: bm_bytes_def one_byte demo_vpool_def demo_vm_pools)
  then show ?thesis
    using demo_vm_pools_ok demo_vpool_ok demo_vm_tabs demo_pages demo_in_use demo_bits(1)
    by (simp add: vm_rep_def Let_def demo_vm_pools(3) demo_nbits)
qed

text \<open>\<open>palloc\<close> hands out a page frame of its pool that was free, page-aligned and not \<open>NULL\<close>, and
  \<open>pfree\<close> finds the pool by the address and gives exactly that frame back: the machine is again
  in the state before the allocation.\<close>

theorem palloc_pfree_roundtrip:
  assumes "pools_ok s" and "\<not> full (pool_bits pf s) (mem s)"
  shows "\<exists>k t. k < nbits (pool_bits pf s) \<and> \<not> bm_bit (pool_bits pf s) (mem s) k \<and>
    palloc pf s = Ok (frame pf s k) t \<and> page_aligned (frame pf s k) \<and> frame pf s k \<noteq> NULL \<and>
    bm_bit (pool_bits pf s) (mem t) k \<and> pfree (frame pf s k) t = Ok () s"
proof -
  let ?b = "pool_bits pf s"
  note wf = pools_okD(1) [OF assms(1), of pf]
  obtain k where k: "first_fit ?b 1 (mem s) = Some k" "k < nbits ?b" "\<not> bm_bit ?b (mem s) k"
    using not_full_fit [OF wf assms(2)] by auto
  let ?t = "s\<lparr>mem := mark_bit ?b k True (mem s)\<rparr>"
  have "pfree (frame pf s k) ?t = Ok () s"
    using pfree_frame [of ?t k pf] assms(1) k(2) mark_unmark [OF k(3)] by simp
  moreover have "bm_bit ?b (mem ?t) k" using mark_bit_same [OF wf k(2) k(2)] by simp
  ultimately show ?thesis
    using palloc_frame [OF assms(1) k(1)] k(2,3) frame_props(1,2) [OF assms(1) k(2)] by blast
qed

lemma demo_vm_not_full: "\<not> full (pool_bits PF_KERNEL demo_vm) (mem demo_vm)"
  unfolding full_def by (simp add: demo_vm_pools)

theorem palloc_pfree_roundtrip_witness:
  "\<exists>k t. k < nbits (pool_bits PF_KERNEL demo_vm) \<and> \<not> bm_bit (pool_bits PF_KERNEL demo_vm) (mem demo_vm) k \<and>
     palloc PF_KERNEL demo_vm = Ok (frame PF_KERNEL demo_vm k) t \<and> page_aligned (frame PF_KERNEL demo_vm k) \<and>
     frame PF_KERNEL demo_vm k \<noteq> NULL \<and> bm_bit (pool_bits PF_KERNEL demo_vm) (mem t) k \<and>
     pfree (frame PF_KERNEL demo_vm k) t = Ok () demo_vm"
  by (rule palloc_pfree_roundtrip [OF demo_vm_pools_ok demo_vm_not_full])

lemma malloc_page_fresh_run:
  assumes "vm_rep D fr s" and "n \<noteq> 0" and "n < 3840" and "vp = kernel_vaddr_pool s"
    and "first_fit (vaddr_bitmap vp) (unat n) (mem s) = Some k"
    and "b = pool_bits PF_KERNEL s" and "unat n \<le> card ({..<nbits b} - bm.in_use b (mem s))"
  shows "\<exists>t fr'. malloc_page PF_KERNEL n s = Ok (page vp k) t \<and> vm_rep D fr' t \<and>
    bm.in_use (vaddr_bitmap vp) (mem t) = bm.in_use (vaddr_bitmap vp) (mem s) \<union> {k..<k + unat n} \<and>
    {k..<k + unat n} \<inter> bm.in_use (vaddr_bitmap vp) (mem s) = {} \<and>
    bm.in_use b (mem t) = bm.in_use b (mem s) \<union> fr' ` {k..<k + unat n} \<and>
    fr' ` {k..<k + unat n} \<inter> bm.in_use b (mem s) = {} \<and> (\<forall>i. i \<notin> {k..<k + unat n} \<longrightarrow> fr' i = fr i) \<and>
    (\<exists>m h. t = s\<lparr>mem := m, phys := h\<rparr>) \<and> (\<forall>d. unat d < 1024 \<longrightarrow> dir_entry t d = dir_entry s d) \<and>
    (\<forall>a. a \<notin> run_slots s vp k (unat n) \<longrightarrow> phys t a = phys s a)"
proof -
  obtain t fs where t: "malloc_page PF_KERNEL n s = Ok (page vp k) t" "length fs = unat n"
      "mapped_run PF_KERNEL D vp k fs (s\<lparr>mem := bm.mark_run (vaddr_bitmap vp) k (unat n) True (mem s)\<rparr>) t"
    using malloc_page_kernel [OF assms(1-4) refl assms(6,5,7)] by blast
  have free: "{k..<k + length fs} \<inter> bm.in_use (vaddr_bitmap vp) (mem s) = {}"
    using bm.fit_fresh [OF assms(5)] t(2) by auto
  have kn: "k + length fs \<le> nbits (vaddr_bitmap vp)" using bm.fit_Some [OF assms(5)] t(2) by simp
  let ?fr = "\<lambda>i. if k \<le> i \<and> i < k + length fs then fs ! (i - k) else fr i"
  note M = vm_rep_mapped [OF assms(1,4) refl assms(6) kn free refl t(3) [folded t(2)]]
  have same: "\<exists>m h. t = s\<lparr>mem := m, phys := h\<rparr>" "\<forall>d. unat d < 1024 \<longrightarrow> dir_entry t d = dir_entry s d"
      "\<forall>a. a \<notin> run_slots s vp k (length fs) \<longrightarrow> phys t a = phys s a"
    using t(3) unfolding mapped_run_def by auto
  have "map ?fr [k..<k + length fs] = fs" by (rule nth_equalityI) simp_all
  from arg_cong [OF this, of set] have im: "?fr ` {k..<k + length fs} = set fs" by (simp only: set_map set_upt)
  have "bm.in_use b (mem t) = bm.in_use b (mem s) \<union> ?fr ` {k..<k + length fs}"
    "?fr ` {k..<k + length fs} \<inter> bm.in_use b (mem s) = {}" unfolding im by (rule M(3), rule M(4))
  moreover have "\<forall>i. i \<notin> {k..<k + length fs} \<longrightarrow> ?fr i = fr i" by simp
  ultimately show ?thesis
    unfolding t(2) [symmetric] using t(1) M(1,2) free same by (intro exI [of _ t] exI [of _ ?fr] conjI)
qed

text \<open>The pages of a free run are not mapped, and each has its own table entry among those of \<open>D\<close>.\<close>

lemma free_run_unmapped:
  assumes rep: "vm_rep D fr s" and vp: "vp = kernel_vaddr_pool s"
    and k: "first_fit (vaddr_bitmap vp) (unat n) (mem s) = Some k" and i: "i < unat n"
  shows "translate s (page vp (k + i)) = None" "PDE_IDX (page vp (k + i)) \<in> D"
    "present (pde_of s (page vp (k + i)))" "page_of (page vp (k + i)) = page vp (k + i)" "k + i < nbits (vaddr_bitmap vp)"
proof -
  note R = vm_repD [OF rep vp refl refl]
  have ki: "k + i < nbits (vaddr_bitmap vp)" "\<not> bm_bit (vaddr_bitmap vp) (mem s) (k + i)"
    using bm.fit_Some [OF k] i by auto
  then show "translate s (page vp (k + i)) = None" "PDE_IDX (page vp (k + i)) \<in> D" "k + i < nbits (vaddr_bitmap vp)"
    using R(5,7) by blast+
  then show "present (pde_of s (page vp (k + i)))" "page_of (page vp (k + i)) = page vp (k + i)"
    using R(3) page_props(3) [OF R(2)] by (simp_all add: ptabs_def pde_of_entry)
qed

text \<open>Mapping such a run and removing the mapping again restores every translation: an address that uses one of the entries is
  not mapped before and not mapped after.\<close>

lemma translate_restored:
  assumes rep: "vm_rep D fr s" and vp: "vp = kernel_vaddr_pool s" and k: "first_fit (vaddr_bitmap vp) (unat n) (mem s) = Some k"
    and t: "\<forall>d. unat d < 1024 \<longrightarrow> dir_entry t d = dir_entry s d" "\<forall>a. a \<notin> run_slots s vp k (unat n) \<longrightarrow> phys t a = phys s a"
    and u: "\<forall>d. unat d < 1024 \<longrightarrow> dir_entry u d = dir_entry t d" "\<forall>a. a \<notin> run_slots t vp k (unat n) \<longrightarrow> phys u a = phys t a"
      "\<forall>i<unat n. translate u (page vp (k + i)) = None"
  shows "translate u v = translate s v"
proof -
  note free = free_run_unmapped [OF rep vp k]
  have dir: "\<forall>d. unat d < 1024 \<longrightarrow> dir_entry u d = dir_entry s d" using t(1) u(1) by simp
  have slots: "run_slots t vp k (unat n) = run_slots s vp k (unat n)"
    by (simp add: run_slots_def pte_slot_dir [OF t(1)])
  show ?thesis
  proof (cases "pte_slot s v \<in> run_slots s vp k (unat n)")
    case False
    then show ?thesis using t(2) u(2) slots by (intro translate_other_slot [OF dir]) simp
  next
    case True
    then obtain i where i: "i < unat n" "pte_slot s v = pte_slot s (page vp (k + i))" by (auto simp: run_slots_def)
    have "pde_of u w = pde_of s w" for w unfolding pde_of_entry using dir [rule_format, OF PDE_IDX_bound] .
    then have "\<not> present (phys s (pte_slot s v))" "\<not> present (phys u (pte_slot s v))"
      using free(1,3) [OF i(1)] u(3) i(1) unfolding i(2) by (auto simp: translate_def pte_slot_dir [OF dir] split: if_splits)
    then show ?thesis by (simp add: translate_def pte_slot_dir [OF dir])
  qed
qed

text \<open>C6: \<open>malloc_page\<close> for the kernel returns a run of \<open>n\<close> virtual pages that were unused and not mapped, each mapped to a
  frame that was free, no two pages of the heap to the same frame. Every address that is not looked up through
  one of the table entries of these pages keeps its translation; in particular, every other page of the tables
  in \<open>D\<close> does. The pools stay where they are, and the invariant of the kernel's virtual memory holds again.\<close>

theorem malloc_page_maps_fresh:
  assumes "vm_rep D fr s" and "n \<noteq> 0" and "n < 3840" and "vp = kernel_vaddr_pool s"
    and "first_fit (vaddr_bitmap vp) (unat n) (mem s) = Some k"
    and "b = pool_bits PF_KERNEL s" and "unat n \<le> card ({..<nbits b} - bm.in_use b (mem s))"
  shows "\<exists>t fr'. malloc_page PF_KERNEL n s = Ok (page vp k) t \<and> vm_rep D fr' t \<and>
    kernel_vaddr_pool t = vp \<and> pool_bits PF_KERNEL t = b \<and>
    bm.in_use (vaddr_bitmap vp) (mem t) = bm.in_use (vaddr_bitmap vp) (mem s) \<union> {k..<k + unat n} \<and>
    {k..<k + unat n} \<inter> bm.in_use (vaddr_bitmap vp) (mem s) = {} \<and>
    bm.in_use b (mem t) = bm.in_use b (mem s) \<union> fr' ` {k..<k + unat n} \<and>
    fr' ` {k..<k + unat n} \<inter> bm.in_use b (mem s) = {} \<and> inj_on fr' {k..<k + unat n} \<and>
    (\<forall>i<unat n. translate s (page vp (k + i)) = None \<and>
       translate t (page vp (k + i)) = Some (frame PF_KERNEL s (fr' (k + i)))) \<and>
    (\<forall>v. (\<forall>i<unat n. pte_slot s v \<noteq> pte_slot s (page vp (k + i))) \<longrightarrow> translate t v = translate s v) \<and>
    (\<forall>v. PDE_IDX v \<in> D \<longrightarrow> (\<forall>i<unat n. page_of v \<noteq> page vp (k + i)) \<longrightarrow> translate t v = translate s v)"
proof -
  let ?vb = "vaddr_bitmap vp" and ?run = "{k..<k + unat n}"
  obtain t fr' m h where t: "malloc_page PF_KERNEL n s = Ok (page vp k) t" "vm_rep D fr' t"
      "bm.in_use ?vb (mem t) = bm.in_use ?vb (mem s) \<union> ?run" "?run \<inter> bm.in_use ?vb (mem s) = {}"
      "bm.in_use b (mem t) = bm.in_use b (mem s) \<union> fr' ` ?run" "fr' ` ?run \<inter> bm.in_use b (mem s) = {}"
      "t = s\<lparr>mem := m, phys := h\<rparr>" "\<forall>d. unat d < 1024 \<longrightarrow> dir_entry t d = dir_entry s d"
      "\<forall>a. a \<notin> run_slots s vp k (unat n) \<longrightarrow> phys t a = phys s a"
    using malloc_page_fresh_run [OF assms] by (elim exE conjE) (rule that)
  note free = free_run_unmapped [OF assms(1,4,5)]
  have p: "kernel_vaddr_pool t = vp" "pool_bits PF_KERNEL t = b" "frame PF_KERNEL t i = frame PF_KERNEL s i" for i
    using t(7) assms(4,6) by auto
  note T = vm_repD [OF t(2) p(1) [symmetric] refl refl]
  have run: "?run \<subseteq> bm.in_use ?vb (mem t)" using t(3) by blast
  have new: "translate t (page vp (k + i)) = Some (frame PF_KERNEL s (fr' (k + i)))" if "i < unat n" for i
  proof -
    have "k + i \<in> bm.in_use ?vb (mem t)" using run that by auto
    then show ?thesis using T(6) [OF free(5) [OF that]] p(3) by (simp add: bm.in_use_def)
  qed
  have old: "translate t v = translate s v" if "\<forall>i<unat n. pte_slot s v \<noteq> pte_slot s (page vp (k + i))" for v
  proof -
    have "pte_slot s v \<notin> run_slots s vp k (unat n)" using that by (auto simp: run_slots_def)
    then show ?thesis using t(9) by (intro translate_other_slot [OF t(8)]) blast
  qed
  have ne: "pte_slot s v \<noteq> pte_slot s (page vp (k + i))"
    if "PDE_IDX v \<in> D" "\<forall>i<unat n. page_of v \<noteq> page vp (k + i)" "i < unat n" for v i
    using slot_inj [OF vm_repD(3) [OF assms(1) refl refl refl] that(1) free(2) [OF that(3)]] free(4) [OF that(3)] that(2,3) by auto
  have "\<forall>i<unat n. translate s (page vp (k + i)) = None \<and>
       translate t (page vp (k + i)) = Some (frame PF_KERNEL s (fr' (k + i)))" using free(1) new by simp
  moreover have "\<forall>v. (\<forall>i<unat n. pte_slot s v \<noteq> pte_slot s (page vp (k + i))) \<longrightarrow> translate t v = translate s v"
    using old by simp
  moreover have "\<forall>v. PDE_IDX v \<in> D \<longrightarrow> (\<forall>i<unat n. page_of v \<noteq> page vp (k + i)) \<longrightarrow> translate t v = translate s v"
    using old ne by simp
  ultimately show ?thesis
    using t(1-6) p(1,2) inj_on_subset [OF T(9) run] by (intro exI [of _ t] exI [of _ fr'] conjI)
qed

lemma demo_fit: "first_fit (vaddr_bitmap demo_vpool) 2 (mem demo_vm) = Some 0"
proof (rule first_fitI)
  show "free_run (vaddr_bitmap demo_vpool) (mem demo_vm) 2 0"
    using demo_bits(1) by (auto simp: free_run_def demo_nbits)
qed simp

lemma demo_room:
  "unat (2 :: u32) \<le> card ({..<nbits (pool_bits PF_KERNEL demo_vm)} -
     bm.in_use (pool_bits PF_KERNEL demo_vm) (mem demo_vm))"
  by (simp add: demo_nbits demo_in_use)

theorem malloc_page_maps_fresh_witness:
  "\<exists>t fr'. malloc_page PF_KERNEL 2 demo_vm = Ok (page demo_vpool 0) t \<and> vm_rep {768} fr' t \<and>
     bm.in_use (vaddr_bitmap demo_vpool) (mem t) = {0, 1, 2} \<and> translate demo_vm 0xc0101000 = None \<and>
     translate t 0xc0101000 = Some (frame PF_KERNEL demo_vm (fr' 1))"
proof -
  from malloc_page_maps_fresh [OF demo_vm_rep _ _ demo_vm_pools(3) [symmetric] _ refl demo_room, of 0] obtain t fr' where
    t: "malloc_page PF_KERNEL 2 demo_vm = Ok (page demo_vpool 0) t" "vm_rep {768} fr' t"
      "bm.in_use (vaddr_bitmap demo_vpool) (mem t) = bm.in_use (vaddr_bitmap demo_vpool) (mem demo_vm) \<union> {0..<0 + unat (2 :: u32)}"
      "\<forall>i<unat (2 :: u32). translate demo_vm (page demo_vpool (0 + i)) = None \<and>
         translate t (page demo_vpool (0 + i)) = Some (frame PF_KERNEL demo_vm (fr' (0 + i)))"
    using demo_fit by auto
  have "{0..<0 + unat (2 :: u32)} = {0, 1}" by auto
  then have "bm.in_use (vaddr_bitmap demo_vpool) (mem t) = {0, 1, 2}" using t(3) demo_in_use(1) by auto
  moreover have "page demo_vpool (0 + 1) = 0xc0101000" by (simp add: page_def demo_vpool_def)
  ultimately show ?thesis using t(1,2) t(4) [rule_format, of 1] by auto
qed



section \<open>The layout of the pools\<close>

definition cleared :: "bitmap \<Rightarrow> bytes \<Rightarrow> bytes" where
  "cleared b m = memset_loop (unat (btmp_bytes_len b)) (bits b) 0 m"

lemma cleared_apply: "cleared b m a = (if a \<in> bm_bytes b then 0 else m a)"
  by (simp add: cleared_def memset_loop_eq bm_bytes_def)

lemma bitmap_init_eq: "wf_bitmap b \<Longrightarrow> bitmap_init b s = Ok () (s\<lparr>mem := cleared b (mem s)\<rparr>)"
  by (simp add: bitmap_init_def memset_def cleared_def wf_bitmap_def)

lemma in_use_cleared: "bm.in_use b (cleared b m) = {}"
  using byte_in_bm_bytes [of _ b] by (auto simp: bm.in_use_def bm_bit_def cleared_apply)

lemma in_use_cleared_other: "bm_bytes b \<inter> bm_bytes c = {} \<Longrightarrow> bm.in_use c (cleared b m) = bm.in_use c m"
  by (rule in_use_cong) (auto simp: cleared_apply)

lemma pool_sizes:
  fixes all_mem :: u32
  assumes "0x200000 \<le> unat all_mem" "unat all_mem \<le> 0x15600000"
  defines "fp \<equiv> (unat all_mem - 0x200000) div 4096"
  defines "free_pages \<equiv> (all_mem - 0x200000) div 4096"
  shows "unat free_pages = fp" and "unat (free_pages div 2) = fp div 2"
    and "unat (free_pages - free_pages div 2) = fp - fp div 2"
    and "unat (free_pages div 2 div 8) = fp div 2 div 8"
    and "unat ((free_pages - free_pages div 2) div 8) = (fp - fp div 2) div 8"
    and "unat (0x200000 + free_pages div 2 * 4096) = 0x200000 + fp div 2 * 4096" and "fp \<le> 87040"
proof -
  have "unat (all_mem - 0x200000) = unat all_mem - 0x200000"
    using assms(1) by (subst unat_sub_le) (simp_all add: word_le_nat_alt)
  then show f: "unat free_pages = fp" by (simp add: free_pages_def fp_def unat_div)
  then show h: "unat (free_pages div 2) = fp div 2" by (simp add: unat_div)
  show s: "unat (free_pages - free_pages div 2) = fp - fp div 2"
    using f h by (subst unat_sub_le) (simp_all add: word_le_nat_alt)
  show "unat (free_pages div 2 div 8) = fp div 2 div 8" using h by (simp add: unat_div)
  show "unat ((free_pages - free_pages div 2) div 8) = (fp - fp div 2) div 8" using s by (simp add: unat_div)
  have "unat all_mem - 0x200000 \<le> 356515840" using assms(2) by simp
  then show b: "fp \<le> 87040" unfolding fp_def using div_le_mono [of _ 356515840 4096] by simp
  have m: "unat (free_pages div 2 * 4096) = fp div 2 * 4096"
    using h b by (subst unat_mult_below) simp_all
  show "unat (0x200000 + free_pages div 2 * 4096) = 0x200000 + fp div 2 * 4096"
    using m b by (subst unat_add_below) simp_all
qed

lemma in_range_unat:
  fixes d a :: u32
  assumes "unat d + n \<le> 2 ^ 32"
  shows "in_range d n a \<longleftrightarrow> unat d \<le> unat a \<and> unat a < unat d + n"
proof (cases "d \<le> a")
  case True
  then show ?thesis by (auto simp: in_range_def unat_sub_le word_le_nat_alt)
next
  case False
  then have "unat a < unat d" by (simp add: word_le_nat_alt)
  have "unat (a - d) = unat a + 2 ^ 32 - unat d"
    using False by (simp add: unat_sub_if_size word_size word_le_nat_alt)
  then show ?thesis using \<open>unat a < unat d\<close> assms by (auto simp: in_range_def)
qed

lemma bm_bytes_apart:
  assumes "wf_bitmap b" and "wf_bitmap c" and "unat (bits b) + unat (btmp_bytes_len b) \<le> unat (bits c)"
  shows "bm_bytes b \<inter> bm_bytes c = {}"
  using assms by (auto simp: bm_bytes_def in_range_unat wf_bitmap_def)

text \<open>The state after \<open>mem_pool_init\<close>, apart from the bytes of the bitmaps, the locks and the screen.\<close>

lemma mem_pool_init_runs:
  fixes all_mem :: u32
  defines "fp \<equiv> (all_mem - 0x200000) div 4096"
  defines "kb \<equiv> \<lparr>btmp_bytes_len = fp div 2 div 8, bits = 0xc009a000\<rparr>"
    and "ub \<equiv> \<lparr>btmp_bytes_len = (fp - fp div 2) div 8, bits = 0xc009a000 + fp div 2 div 8\<rparr>"
    and "vb \<equiv> \<lparr>btmp_bytes_len = fp div 2 div 8, bits = 0xc009a000 + fp div 2 div 8 + (fp - fp div 2) div 8\<rparr>"
  assumes wf: "wf_bitmap kb" "wf_bitmap ub" "wf_bitmap vb"
    and apart: "bm_bytes kb \<inter> bm_bytes ub = {}" "bm_bytes kb \<inter> bm_bytes vb = {}" "bm_bytes ub \<inter> bm_bytes vb = {}"
  shows "\<exists>t. mem_pool_init all_mem s = Ok () t \<and>
    kernel_mem_pool t = \<lparr>mem_pool_bitmap = kb, phy_addr_start = 0x200000, pool_size = fp div 2 * 4096\<rparr> \<and>
    user_mem_pool t = \<lparr>mem_pool_bitmap = ub, phy_addr_start = 0x200000 + fp div 2 * 4096,
      pool_size = (fp - fp div 2) * 4096\<rparr> \<and>
    kernel_vaddr_pool t = \<lparr>vaddr_bitmap = vb, vaddr_start = 0xc0100000\<rparr> \<and>
    bm.in_use kb (mem t) = {} \<and> bm.in_use ub (mem t) = {} \<and> bm.in_use vb (mem t) = {} \<and>
    (\<forall>a\<in>bm_bytes vb. mem t a = 0)"
proof -
  have sym: "bm_bytes ub \<inter> bm_bytes kb = {}" "bm_bytes vb \<inter> bm_bytes kb = {}" "bm_bytes vb \<inter> bm_bytes ub = {}"
    using apart by blast+
  show ?thesis
    unfolding mem_pool_init_def Let_def
    by (simp add: MEM_BITMAP_BASE_def K_HEAP_START_def cleared_apply bitmap_init_eq wf sym in_use_cleared in_use_cleared_other fp_def [symmetric]
        kb_def [symmetric] ub_def [symmetric] vb_def [symmetric] put_str_def put_int_def put_char_def)
qed

lemma bitmaps_layout:
  fixes k u :: u32
  assumes "unat k \<le> 8192" and "unat u \<le> 8192"
  defines "kb \<equiv> \<lparr>btmp_bytes_len = k, bits = 0xc009a000\<rparr>" and "ub \<equiv> \<lparr>btmp_bytes_len = u, bits = 0xc009a000 + k\<rparr>"
    and "vb \<equiv> \<lparr>btmp_bytes_len = k, bits = 0xc009a000 + k + u\<rparr>"
  shows "wf_bitmap kb" and "wf_bitmap ub" and "wf_bitmap vb"
    and "bm_bytes kb \<inter> bm_bytes ub = {}" and "bm_bytes kb \<inter> bm_bytes vb = {}" and "bm_bytes ub \<inter> bm_bytes vb = {}"
    and "unat (bits vb) + unat (btmp_bytes_len vb) = 0xc009a000 + 2 * unat k + unat u"
proof -
  have ku: "unat (0xc009a000 + k) = 0xc009a000 + unat k"
    using assms(1) by (subst unat_add_below) simp_all
  have vu: "unat (0xc009a000 + k + u) = 0xc009a000 + unat k + unat u"
    using assms(1,2) ku by (subst unat_add_below) simp_all
  have nz: "0xc009a000 + k \<noteq> 0" "0xc009a000 + k + u \<noteq> 0" using ku vu by (metis unat_0 add_is_0 zero_neq_numeral)+
  show kb: "wf_bitmap kb" and ub: "wf_bitmap ub" and vb: "wf_bitmap vb"
    using assms(1,2) ku vu nz by (simp_all add: wf_bitmap_def kb_def ub_def vb_def)
  show "bm_bytes kb \<inter> bm_bytes ub = {}" "bm_bytes kb \<inter> bm_bytes vb = {}" "bm_bytes ub \<inter> bm_bytes vb = {}"
    by (rule bm_bytes_apart [OF kb ub] bm_bytes_apart [OF kb vb] bm_bytes_apart [OF ub vb];
        simp add: kb_def ub_def vb_def ku vu)+
  show "unat (bits vb) + unat (btmp_bytes_len vb) = 0xc009a000 + 2 * unat k + unat u"
    using vu by (simp add: vb_def)
qed

lemma mem_pool_layout:
  fixes all_mem :: u32
  assumes "0x200000 \<le> unat all_mem" and "unat all_mem \<le> 0x15600000"
  shows "\<exists>t. mem_pool_init all_mem s = Ok () t \<and> pools_ok t \<and> vpool_ok (kernel_vaddr_pool t) \<and>
    bm_bytes (pool_bits PF_KERNEL t) \<inter> bm_bytes (vaddr_bitmap (kernel_vaddr_pool t)) = {} \<and>
    bm_bytes (pool_bits PF_USER t) \<inter> bm_bytes (vaddr_bitmap (kernel_vaddr_pool t)) = {} \<and>
    unat (bits (vaddr_bitmap (kernel_vaddr_pool t))) + unat (btmp_bytes_len (vaddr_bitmap (kernel_vaddr_pool t)))
      \<le> 0xc009e000 \<and>
    unat (phy_addr_start (user_mem_pool t)) + nbits (pool_bits PF_USER t) * 4096 \<le> unat all_mem \<and>
    bm.in_use (pool_bits PF_KERNEL t) (mem t) = {} \<and> bm.in_use (pool_bits PF_USER t) (mem t) = {} \<and>
    bm.in_use (vaddr_bitmap (kernel_vaddr_pool t)) (mem t) = {}"
proof -
  obtain n where n: "n = (unat all_mem - 0x200000) div 4096" by simp
  obtain fp where fp: "fp = (all_mem - 0x200000) div 4096" by simp
  note P = pool_sizes [OF assms, folded n fp]
  obtain k u where k: "k = fp div 2 div 8" and u: "u = (fp - fp div 2) div 8" by simp
  have ku: "unat k = n div 2 div 8" "unat u = (n - n div 2) div 8" using P(4,5) k u by simp_all
  have b: "unat k \<le> 5440" "unat u \<le> 5440" unfolding ku using P(7) by linarith+
  have "unat k \<le> 8192" "unat u \<le> 8192" using b by simp_all
  note L = bitmaps_layout [OF this]
  obtain t where t: "mem_pool_init all_mem s = Ok () t"
      "kernel_mem_pool t = \<lparr>mem_pool_bitmap = \<lparr>btmp_bytes_len = k, bits = 0xc009a000\<rparr>,
         phy_addr_start = 0x200000, pool_size = fp div 2 * 4096\<rparr>"
      "user_mem_pool t = \<lparr>mem_pool_bitmap = \<lparr>btmp_bytes_len = u, bits = 0xc009a000 + k\<rparr>,
         phy_addr_start = 0x200000 + fp div 2 * 4096, pool_size = (fp - fp div 2) * 4096\<rparr>"
      "kernel_vaddr_pool t = \<lparr>vaddr_bitmap = \<lparr>btmp_bytes_len = k, bits = 0xc009a000 + k + u\<rparr>, vaddr_start = 0xc0100000\<rparr>"
      "bm.in_use \<lparr>btmp_bytes_len = k, bits = 0xc009a000\<rparr> (mem t) = {}"
      "bm.in_use \<lparr>btmp_bytes_len = u, bits = 0xc009a000 + k\<rparr> (mem t) = {}"
      "bm.in_use \<lparr>btmp_bytes_len = k, bits = 0xc009a000 + k + u\<rparr> (mem t) = {}"
    using mem_pool_init_runs [of all_mem s, folded fp, folded k u, OF L(1-6)] by blast
  have div: "(0x200000 + n div 2 * 4096) mod 4096 = 0" by (simp add: mod_add_eq [symmetric])
  have sz: "8 * (n div 2 div 8) \<le> n div 2" "8 * ((n - n div 2) div 8) \<le> n - n div 2" by simp_all
  have "n * 4096 \<le> unat all_mem - 0x200000" unfolding n by simp
  then have top: "0x200000 + n * 4096 \<le> unat all_mem" using assms(1) by linarith
  have fit: "0x200000 + n div 2 * 4096 + 32768 * ((n - n div 2) div 8) \<le> unat all_mem"
  proof -
    have "h \<le> n \<Longrightarrow> 8 * q \<le> n - h \<Longrightarrow> 0x200000 + n * 4096 \<le> A \<Longrightarrow> 0x200000 + h * 4096 + 32768 * q \<le> A"
      for h q A :: nat by linarith
    from this [OF div_le_dividend sz(2) top] show ?thesis .
  qed
  have "n div 2 * 4096 + 32768 * ((n - n div 2) div 8) \<le> 4292870144"
    using fit assms(2) by linarith
  then have "pools_ok t"
    using L(1-4) P(6,7) sz ku div
    by (simp add: pools_ok_def pool_bits_def pool_of_def t page_aligned_def nbits_def)
  moreover have "vpool_ok (kernel_vaddr_pool t)"
    using L(3) b by (simp add: vpool_ok_def t page_aligned_def nbits_def)
  moreover have "unat (phy_addr_start (user_mem_pool t)) + nbits (pool_bits PF_USER t) * 4096 \<le> unat all_mem"
    using P(6) ku fit by (simp add: pool_bits_def pool_of_def t nbits_def)
  ultimately show ?thesis
    using L(5-7) b t by (intro exI [of _ t]) (simp add: pool_bits_def pool_of_def)
qed


text \<open>C33: with between 2 MB and 342 MB of memory \<open>mem_pool_init\<close> lays out the pools as the allocator needs
  them: the frames of the user pool follow those of the kernel pool and end inside the memory, the
  three bitmaps do not overlap, are clear and end below the main thread's task structure at
  \<open>0xc009e000\<close>.\<close>

theorem mem_pool_init_layout:
  assumes "0x200000 \<le> unat all_mem" and "unat all_mem \<le> 0x15600000"
  shows "\<exists>t. mem_pool_init all_mem s = Ok () t \<and> pools_ok t \<and> vpool_ok (kernel_vaddr_pool t) \<and>
    bm_bytes (pool_bits PF_KERNEL t) \<inter> bm_bytes (vaddr_bitmap (kernel_vaddr_pool t)) = {} \<and>
    bm_bytes (pool_bits PF_USER t) \<inter> bm_bytes (vaddr_bitmap (kernel_vaddr_pool t)) = {} \<and>
    unat (bits (vaddr_bitmap (kernel_vaddr_pool t))) + unat (btmp_bytes_len (vaddr_bitmap (kernel_vaddr_pool t)))
      \<le> 0xc009e000 \<and>
    unat (phy_addr_start (user_mem_pool t)) + nbits (pool_bits PF_USER t) * 4096 \<le> unat all_mem \<and>
    bm.in_use (pool_bits PF_KERNEL t) (mem t) = {} \<and> bm.in_use (pool_bits PF_USER t) (mem t) = {} \<and>
    bm.in_use (vaddr_bitmap (kernel_vaddr_pool t)) (mem t) = {}"
  using assms by (rule mem_pool_layout)

theorem mem_pool_init_layout_witness:
  "\<exists>t. mem_pool_init 0x2000000 demo_vm = Ok () t \<and> pools_ok t \<and>
     unat (phy_addr_start (user_mem_pool t)) + nbits (pool_bits PF_USER t) * 4096 \<le> 0x2000000 \<and>
     bm.in_use (pool_bits PF_KERNEL t) (mem t) = {}"
proof -
  have "0x200000 \<le> unat (0x2000000 :: u32)" "unat (0x2000000 :: u32) \<le> 0x15600000" by simp_all
  from mem_pool_init_layout [OF this, of demo_vm] show ?thesis by auto
qed

text \<open>With 512 MB the bitmap of the kernel's virtual pages lies across the page of the main thread's
  task structure and stack, which starts at \<open>0xc009e000\<close>: \<open>mem_pool_init\<close> clears the top of the stack
  it runs on.\<close>

theorem mem_pool_init_overruns:
  "\<exists>t. mem_pool_init 0x20000000 s = Ok () t \<and> 0xc009efff \<in> bm_bytes (vaddr_bitmap (kernel_vaddr_pool t)) \<and>
       mem t 0xc009efff = 0"
proof -
  let ?fp = "(0x20000000 - 0x200000) div 4096 :: u32"
  have k: "?fp div 2 div 8 = 8160" "(?fp - ?fp div 2) div 8 = 8160" by simp_all
  have b: "unat (8160 :: u32) \<le> 8192" by simp
  note L = bitmaps_layout [OF b b]
  let ?vb = "\<lparr>btmp_bytes_len = 8160, bits = 0xc009a000 + 8160 + 8160\<rparr> :: bitmap"
  obtain t where t: "mem_pool_init 0x20000000 s = Ok () t" "vaddr_bitmap (kernel_vaddr_pool t) = ?vb"
      "\<forall>a\<in>bm_bytes ?vb. mem t a = 0"
    using mem_pool_init_runs [of "0x20000000" s, unfolded k, OF L(1-6)] by auto
  moreover have "0xc009efff \<in> bm_bytes ?vb" by (simp add: bm_bytes_def in_range_def)
  ultimately show ?thesis by auto
qed

end
