(* ===== verification/Heap.thy ===== *)
theory Heap
  imports Memory
begin

text \<open>
  The block allocator of \<open>kernel/memory.c\<close>: \<open>block_desc_init\<close>, \<open>arena2block\<close>, \<open>block2arena\<close>,
  \<open>sys_malloc\<close> and \<open>sys_free\<close>, and \<open>mem_init\<close>, which sets up the whole memory system.

  A request of at most 1024 bytes is served from one of seven size classes. Each class has a
  descriptor with a list of its free blocks; a page taken from the pool of the caller, an arena,
  starts with a 12-byte header and is cut into the blocks of one class. A larger request gets whole
  pages with the header in front. The descriptor at address \<open>d\<close> has its free list at \<open>d + 8\<close>; the
  seven descriptors are 24 bytes apart.
\<close>

section \<open>Descriptors and blocks\<close>

definition MEM_BLOCK_DESC_CNT :: nat where "MEM_BLOCK_DESC_CNT = 7"

abbreviation (input) free_list :: "u32 \<Rightarrow> u32" where "free_list d \<equiv> d + 8"

abbreviation (input) sizeof_arena :: u32 where "sizeof_arena \<equiv> 12"

definition desc_at :: "u32 \<Rightarrow> u32 \<Rightarrow> u32" where "desc_at descs i = descs + 24 * i"

definition u_block_descs :: "u32 \<Rightarrow> u32" where "u_block_descs t = t + 68"

function block_desc_init_loop :: "u32 \<Rightarrow> u16 \<Rightarrow> u16 \<Rightarrow> 'e kernel_scheme \<Rightarrow> 'e kernel_scheme" where
  "block_desc_init_loop descs desc_idx block_size s =
     (if unat desc_idx < MEM_BLOCK_DESC_CNT
      then let d = desc_at descs (ucast desc_idx);
               s = s\<lparr>desc_block_size := (desc_block_size s)(d := ucast block_size)\<rparr>;
               s = s\<lparr>desc_blocks_per_arena :=
                      (desc_blocks_per_arena s)(d := (PG_SIZE - sizeof_arena) div ucast block_size)\<rparr>;
               s = list_init (free_list d) s
           in block_desc_init_loop descs (desc_idx + 1) (block_size * 2) s
      else s)"
  by pat_completeness auto
termination
proof (relation "measure (\<lambda>(_, i, _, _). 7 - unat i)")
  fix descs :: u32 and i m :: u16 and d x y z and s :: "'e kernel_scheme"
  assume "unat i < MEM_BLOCK_DESC_CNT"
  then have "unat i < 7" "unat (i + 1) = Suc (unat i)"
    using unat_Suc_less [of i 7] by (simp_all add: MEM_BLOCK_DESC_CNT_def word_less_nat_alt)
  then show "((descs, i + 1, m * 2, z), descs, i, m, s) \<in> measure (\<lambda>(_, i, _, _). 7 - unat i)" by simp
qed simp

declare block_desc_init_loop.simps [simp del]

definition block_desc_init :: "u32 \<Rightarrow> 'e kernel_scheme \<Rightarrow> 'e kernel_scheme" where
  "block_desc_init desc_array s = block_desc_init_loop desc_array 0 16 s"

definition mem_init :: "'e kernel_scheme \<Rightarrow> (unit, 'e kernel_scheme) res" where
  "mem_init s =
     (let s = put_str (ln ''mem_init start'') s in
      bind (load_word 0xb00 s) (\<lambda>mem_bytes_total s.
      bind (mem_pool_init mem_bytes_total s) (\<lambda>_ s.
      let s = block_desc_init (addr_of s K_block_descs) s
      in Ok () (put_str (ln ''mem_init done'') s))))"

definition arena2block :: "u32 \<Rightarrow> u32 \<Rightarrow> 'e kernel_scheme \<Rightarrow> u32" where
  "arena2block a idx s = a + sizeof_arena + idx * desc_block_size s (arena_desc (arenas s a))"

definition block2arena :: "u32 \<Rightarrow> u32" where
  "block2arena b = b AND 0xfffff000"

definition upd_arena :: "u32 \<Rightarrow> (arena \<Rightarrow> arena) \<Rightarrow> 'e kernel_scheme \<Rightarrow> 'e kernel_scheme" where
  "upd_arena a f s = s\<lparr>arenas := (arenas s)(a := f (arenas s a))\<rparr>"

section \<open>Allocation\<close>

text \<open>The search for the size class; the index ends at 7 if no class is large enough.\<close>

function find_desc :: "u32 \<Rightarrow> u32 \<Rightarrow> u8 \<Rightarrow> 'e kernel_scheme \<Rightarrow> u8" where
  "find_desc descs sz desc_idx s =
     (if unat desc_idx < MEM_BLOCK_DESC_CNT
      then if sz \<le> desc_block_size s (desc_at descs (ucast desc_idx)) then desc_idx
           else find_desc descs sz (desc_idx + 1) s
      else desc_idx)"
  by pat_completeness auto
termination
proof (relation "measure (\<lambda>(_, _, i, _). 7 - unat i)")
  fix sz descs :: u32 and i :: u8 and s :: "'e kernel_scheme"
  assume "unat i < MEM_BLOCK_DESC_CNT"
  then have "unat i < 7" "unat (i + 1) = Suc (unat i)"
    using unat_Suc_less [of i 7] by (simp_all add: MEM_BLOCK_DESC_CNT_def word_less_nat_alt)
  then show "((descs, sz, i + 1, s), descs, sz, i, s) \<in> measure (\<lambda>(_, _, i, _). 7 - unat i)" by simp
qed simp

declare find_desc.simps [simp del]

text \<open>The loop that puts the blocks of a new arena into the free list. Its bound is the field \<open>cnt\<close> of the
  arena header, which the list routines do not change.\<close>

function fill_free_list :: "u32 \<Rightarrow> u32 \<Rightarrow> u32 \<Rightarrow> 'e kernel_scheme \<Rightarrow> (unit, 'e kernel_scheme) res" where
  "fill_free_list a cnt block_idx s =
     (if block_idx < cnt
      then let b = arena2block a block_idx s;
               fl = free_list (arena_desc (arenas s a))
           in bind (node_find fl b s) (\<lambda>found s.
              bind (ASSERT (\<not> found) (''kernel/memory.c'', 379, ''sys_malloc'',
                      ''!node_find(&a->desc->free_list, &b->free_block)'') s) (\<lambda>_ s.
              fill_free_list a cnt (block_idx + 1) (list_append fl b s)))
      else Ok () s)"
  by pat_completeness auto
termination
  by (relation "measure (\<lambda>(_, cnt, i, _). unat cnt - unat i)")
    (auto simp: word_less_nat_alt unat_Suc_less)

declare fill_free_list.simps [simp del]

definition new_arena :: "pool_flags \<Rightarrow> u32 \<Rightarrow> 'e kernel_scheme \<Rightarrow> (u32, 'e kernel_scheme) res" where
  "new_arena pf d s =
     bind (malloc_page pf 1 s) (\<lambda>a s.
     if a = NULL then Ok NULL s
     else bind (memset_pages a 1 s) (\<lambda>_ s.
          let s = upd_arena a (\<lambda>x. x\<lparr>arena_desc := d\<rparr>) s;
              s = upd_arena a (\<lambda>x. x\<lparr>arena_cnt := desc_blocks_per_arena s d\<rparr>) s;
              s = upd_arena a (\<lambda>x. x\<lparr>arena_large := 0\<rparr>) s;
              (old_status, s) = intr_disable s
          in bind (fill_free_list a (arena_cnt (arenas s a)) 0 s) (\<lambda>_ s.
             Ok a (snd (set_intr_status old_status s)))))"

definition malloc_large :: "pool_flags \<Rightarrow> u32 \<Rightarrow> 'e kernel_scheme \<Rightarrow> (u32, 'e kernel_scheme) res" where
  "malloc_large pf sz s =
     (let pg_cnt = (sz + sizeof_arena + PG_SIZE - 1) div PG_SIZE in
      bind (malloc_page pf pg_cnt s) (\<lambda>a s.
      if a \<noteq> NULL
      then bind (memset_pages a pg_cnt s) (\<lambda>_ s.
           let s = upd_arena a (\<lambda>x. x\<lparr>arena_desc := NULL\<rparr>) s;
               s = upd_arena a (\<lambda>x. x\<lparr>arena_cnt := pg_cnt\<rparr>) s;
               s = upd_arena a (\<lambda>x. x\<lparr>arena_large := 1\<rparr>) s
           in bind (lock_release (pool_lock pf s) s) (\<lambda>_ s. Ok (a + sizeof_arena) s))
      else bind (lock_release (pool_lock pf s) s) (\<lambda>_ s. Ok NULL s)))"

text \<open>Taking the first free block of a class. \<open>elem2entry(struct mem_block, free_block, ...)\<close> is the
  identity, the node being the only field.\<close>

definition take_block :: "pool_flags \<Rightarrow> u32 \<Rightarrow> 'e kernel_scheme \<Rightarrow> (u32, 'e kernel_scheme) res" where
  "take_block pf d s =
     (let (b, s) = list_pop (free_list d) s;
          a = block2arena b;
          s = upd_arena a (\<lambda>x. x\<lparr>arena_cnt := arena_cnt x - 1\<rparr>) s
      in bind (lock_release (pool_lock pf s) s) (\<lambda>_ s. Ok b s))"

definition malloc_small :: "pool_flags \<Rightarrow> u32 \<Rightarrow> u32 \<Rightarrow> 'e kernel_scheme \<Rightarrow> (u32, 'e kernel_scheme) res" where
  "malloc_small pf descs sz s =
     (let d = desc_at descs (ucast (find_desc descs sz 0 s)) in
      if list_empty (free_list d) s
      then bind (new_arena pf d s) (\<lambda>a s.
           if a = NULL then bind (lock_release (pool_lock pf s) s) (\<lambda>_ s. Ok NULL s)
           else take_block pf d s)
      else take_block pf d s)"

text \<open>The comparison \<open>size < 0\<close> of the code is false: \<open>size\<close> is unsigned.\<close>

definition sys_malloc :: "u32 \<Rightarrow> 'e kernel_scheme \<Rightarrow> (u32, 'e kernel_scheme) res" where
  "sys_malloc sz s =
     (let cur_thread = running_thread s;
          pf = (if pgdir (tasks s cur_thread) = NULL then PF_KERNEL else PF_USER);
          descs = (if pgdir (tasks s cur_thread) = NULL then addr_of s K_block_descs
                   else u_block_descs cur_thread)
      in if sz > pool_size (pool_of pf s) then Ok NULL s
         else bind (lock_acquire (pool_lock pf s) s) (\<lambda>_ s.
              if sz > 1024 then malloc_large pf sz s else malloc_small pf descs sz s))"

section \<open>Freeing\<close>

function empty_arena :: "u32 \<Rightarrow> u32 \<Rightarrow> u32 \<Rightarrow> 'e kernel_scheme \<Rightarrow> (unit, 'e kernel_scheme) res" where
  "empty_arena a cnt block_idx s =
     (if block_idx < cnt
      then let b = arena2block a block_idx s;
               fl = free_list (arena_desc (arenas s a))
           in bind (node_find fl b s) (\<lambda>found s.
              bind (ASSERT found (''kernel/memory.c'', 501, ''sys_free'',
                      ''node_find(&a->desc->free_list, &b->free_block)'') s) (\<lambda>_ s.
              empty_arena a cnt (block_idx + 1) (list_remove b s)))
      else Ok () s)"
  by pat_completeness auto
termination
  by (relation "measure (\<lambda>(_, cnt, i, _). unat cnt - unat i)")
    (auto simp: word_less_nat_alt unat_Suc_less)

declare empty_arena.simps [simp del]

definition free_block :: "pool_flags \<Rightarrow> u32 \<Rightarrow> u32 \<Rightarrow> 'e kernel_scheme \<Rightarrow> (unit, 'e kernel_scheme) res" where
  "free_block pf a b s =
     (let s = list_append (free_list (arena_desc (arenas s a))) b s;
          s = upd_arena a (\<lambda>x. x\<lparr>arena_cnt := arena_cnt x + 1\<rparr>) s
      in bind (ASSERT (arena_large (arenas s a) = 0 \<or> arena_large (arenas s a) = 1)
                 (''kernel/memory.c'', 495, ''sys_free'', ''a->large == 0 || a->large == 1'') s) (\<lambda>_ s.
         if arena_cnt (arenas s a) = desc_blocks_per_arena s (arena_desc (arenas s a))
         then bind (empty_arena a (desc_blocks_per_arena s (arena_desc (arenas s a))) 0 s) (\<lambda>_ s.
              mfree_page pf a 1 s)
         else Ok () s))"

definition sys_free :: "u32 \<Rightarrow> 'e kernel_scheme \<Rightarrow> (unit, 'e kernel_scheme) res" where
  "sys_free ptr s =
     bind (ASSERT (ptr \<noteq> NULL) (''kernel/memory.c'', 464, ''sys_free'', ''ptr != NULL'') s) (\<lambda>_ s.
     if ptr = NULL then Ok () s
     else let kernel_thread = (pgdir (tasks s (running_thread s)) = NULL);
              pf = (if kernel_thread then PF_KERNEL else PF_USER)
          in bind (if kernel_thread
                   then ASSERT (ptr \<ge> K_HEAP_START) (''kernel/memory.c'', 473, ''sys_free'',
                          ''(uint32_t)ptr >= K_HEAP_START'') s
                   else Ok () s) (\<lambda>_ s.
             bind (lock_acquire (pool_lock pf s) s) (\<lambda>_ s.
             let a = block2arena ptr
             in bind (if arena_desc (arenas s a) = NULL \<and> arena_large (arenas s a) = 1
                      then mfree_page pf a (arena_cnt (arenas s a)) s
                      else free_block pf a ptr s) (\<lambda>_ s.
                lock_release (pool_lock pf s) s))))"

section \<open>Size classes\<close>

definition bsz :: "nat \<Rightarrow> nat" where "bsz i = 16 * 2 ^ i"

definition bpa :: "nat \<Rightarrow> nat" where "bpa i = 4084 div bsz i"

definition cls :: "'e kernel_scheme \<Rightarrow> nat \<Rightarrow> u32" where
  "cls s i = desc_at (addr_of s K_block_descs) (of_nat i)"

definition blk :: "u32 \<Rightarrow> nat \<Rightarrow> nat \<Rightarrow> u32" where
  "blk a i j = a + of_nat (12 + j * bsz i)"

lemma bsz_bounds: "16 \<le> bsz i" "i < 7 \<Longrightarrow> bsz i \<le> 1024"
proof -
  show "16 \<le> bsz i" by (simp add: bsz_def)
  assume "i < 7"
  then have "(2::nat) ^ i \<le> 2 ^ 6" by (intro power_increasing) auto
  then show "bsz i \<le> 1024" by (simp add: bsz_def)
qed

lemma bpa_bounds: "bpa i \<le> 255" "i < 7 \<Longrightarrow> 3 \<le> bpa i"
proof -
  have "4084 div bsz i \<le> 4084 div 16" using bsz_bounds(1) by (intro div_le_mono2) auto
  then show "bpa i \<le> 255" by (simp add: bpa_def)
  assume "i < 7"
  then have "4084 div 1024 \<le> 4084 div bsz i"
    using bsz_bounds(1) [of i] bsz_bounds(2) [of i] by (intro div_le_mono2) simp_all
  then show "3 \<le> bpa i" by (simp add: bpa_def)
qed

lemma blk_room: "j < bpa i \<Longrightarrow> 12 + j * bsz i + bsz i \<le> 4096"
proof -
  assume "j < bpa i"
  then have "Suc j * bsz i \<le> bpa i * bsz i" by (intro mult_le_mono1) simp
  also have "\<dots> \<le> 4084" by (simp add: bpa_def)
  finally show ?thesis by simp
qed

lemma blk_offset: "j < bpa i \<Longrightarrow> 12 + j * bsz i < 4096"
  using blk_room [of j i] bsz_bounds(1) [of i] by simp

lemma unat_blk: "page_aligned a \<Longrightarrow> j < bpa i \<Longrightarrow> unat (blk a i j) = unat a + (12 + j * bsz i)"
proof -
  assume a: "page_aligned a" and "j < bpa i"
  then have o: "12 + j * bsz i < 4096" by (intro blk_offset)
  then have "unat (of_nat (12 + j * bsz i) :: u32) = 12 + j * bsz i" by (intro unat_of_nat_below) simp
  moreover have "unat a + (12 + j * bsz i) < 2 ^ 32" by (rule page_aligned_room [OF a o])
  ultimately show ?thesis unfolding blk_def by (subst unat_add_below) simp_all
qed

lemma page_of_blk: "page_aligned a \<Longrightarrow> j < bpa i \<Longrightarrow> page_of (blk a i j) = a"
  unfolding blk_def using blk_offset [of j i]
  by (intro page_of_offset) (simp_all add: unat_of_nat_below del: of_nat_add of_nat_mult)

lemma block2arena_blk: "page_aligned a \<Longrightarrow> j < bpa i \<Longrightarrow> block2arena (blk a i j) = a"
  using page_of_blk by (simp add: block2arena_def page_of_def)

lemma blk_inj: "page_aligned a \<Longrightarrow> j < bpa i \<Longrightarrow> k < bpa i \<Longrightarrow> blk a i j = blk a i k \<longleftrightarrow> j = k"
proof
  assume a: "page_aligned a" "j < bpa i" "k < bpa i" and "blk a i j = blk a i k"
  then have "unat (blk a i j) = unat (blk a i k)" by simp
  then have "j * bsz i = k * bsz i" unfolding unat_blk [OF a(1,2)] unat_blk [OF a(1,3)] by simp
  then show "j = k" using bsz_bounds(1) [of i] by simp
qed simp

lemma arena2block_blk:
  assumes "arena_desc (arenas s a) = d" and "desc_block_size s d = of_nat (bsz i)"
  shows "arena2block a (of_nat j) s = blk a i j"
  using assms by (simp add: arena2block_def blk_def)

lemma list_init_heap [simp]:
  "desc_block_size (list_init l s) = desc_block_size s" "arenas (list_init l s) = arenas s"
  "desc_blocks_per_arena (list_init l s) = desc_blocks_per_arena s"
  by (simp_all add: list_init_def set_prev_def set_next_def Let_def)

text \<open>The descriptors after \<open>block_desc_init\<close>.\<close>

definition desc_ok :: "'e kernel_scheme \<Rightarrow> u32 \<Rightarrow> nat \<Rightarrow> bool" where
  "desc_ok s d i \<longleftrightarrow> desc_block_size s d = of_nat (bsz i) \<and> desc_blocks_per_arena s d = of_nat (bpa i)"

lemma offset_eq: "m < 2 ^ 32 \<Longrightarrow> n < 2 ^ 32 \<Longrightarrow> (a :: u32) + of_nat m = a + of_nat n \<longleftrightarrow> m = n"
  using of_nat_eq_word_iff [of m n, where ?'a = 32] by simp

lemma desc_foot: "foot (free_list (desc_at descs (of_nat i))) [] =
    {descs + of_nat (24 * i + 8), descs + of_nat (24 * i + 16)}"
  by (simp add: span_def desc_at_def algebra_simps)

lemma desc_foot_apart:
  assumes "i < 7" and "j < 7" and "i \<noteq> j"
  shows "foot (free_list (desc_at descs (of_nat i))) [] \<inter> foot (free_list (desc_at descs (of_nat j))) [] = {}"
    and "desc_at descs (of_nat i) \<noteq> desc_at descs (of_nat j)"
proof -
  have ne: "24 * i + 8 \<noteq> 24 * j + 16" "24 * j + 8 \<noteq> 24 * i + 16" by presburger+
  show "foot (free_list (desc_at descs (of_nat i))) [] \<inter> foot (free_list (desc_at descs (of_nat j))) [] = {}"
    unfolding desc_foot using assms ne
    by (auto simp: of_nat_eq_word_iff simp del: of_nat_add of_nat_mult)
  have "descs + of_nat (24 * i) \<noteq> descs + of_nat (24 * j)"
    using assms by (subst offset_eq) simp_all
  then show "desc_at descs (of_nat i) \<noteq> desc_at descs (of_nat j)" by (simp add: desc_at_def)
qed

lemma block_desc_init_loop_ok:
  assumes "n \<le> 7" and "\<And>i. i < n \<Longrightarrow> desc_ok s (desc_at descs (of_nat i)) i"
    and "\<And>i. i < n \<Longrightarrow> dll s (free_list (desc_at descs (of_nat i))) []"
    and "t = block_desc_init_loop descs (of_nat n) (of_nat (bsz n)) s" and "j < 7"
  shows "desc_ok t (desc_at descs (of_nat j)) j \<and> dll t (free_list (desc_at descs (of_nat j))) []"
  using assms
proof (induction "7 - n" arbitrary: n s)
  case 0
  then have "n = 7" by simp
  then have "t = s" using 0 by (simp add: block_desc_init_loop.simps [of descs 7] MEM_BLOCK_DESC_CNT_def)
  then show ?case using 0 \<open>n = 7\<close> by simp
next
  case (Suc x)
  then have n: "n < 7" by simp
  let ?d = "desc_at descs (of_nat n)"
  let ?u = "s\<lparr>desc_block_size := (desc_block_size s)(?d := of_nat (bsz n)),
     desc_blocks_per_arena := (desc_blocks_per_arena s)(?d := of_nat (bpa n))\<rparr>"
  have un: "unat (of_nat n :: u16) = n" using n by (intro unat_of_nat_below) simp
  have b: "bsz n < 2 ^ 16" "bsz n < 2 ^ 32" using bsz_bounds(2) [OF n] by simp_all
  have uc: "ucast (of_nat m :: u16) = (of_nat m :: u32)" if "m < 2 ^ 16" for m
    using that by (simp add: word_unat_eq_iff unat_of_nat take_bit_nat_eq_self unsigned_ucast_eq)
  have "unat ((4084 :: u32) div of_nat (bsz n)) = unat (of_nat (bpa n) :: u32)"
    using b bpa_bounds(1) [of n] by (simp add: unat_div bpa_def unat_of_nat_below)
  then have bp: "(4084 :: u32) div of_nat (bsz n) = of_nat (bpa n)" unfolding word_unat_eq_iff .
  have "block_desc_init_loop descs (of_nat n) (of_nat (bsz n)) s =
      block_desc_init_loop descs (of_nat (Suc n)) (of_nat (bsz (Suc n))) (list_init (free_list ?d) ?u)"
    using n un b bp uc [of n] uc [of "bsz n"]
    by (subst block_desc_init_loop.simps)
      (simp add: MEM_BLOCK_DESC_CNT_def Let_def bsz_def add.commute mult.commute)
  moreover have old: "desc_ok (list_init (free_list ?d) ?u) (desc_at descs (of_nat i)) i \<and>
      dll (list_init (free_list ?d) ?u) (free_list (desc_at descs (of_nat i))) []" if "i < Suc n" for i
  proof (cases "i = n")
    case True
    then show ?thesis by (simp add: desc_ok_def list_init_dll)
  next
    case False
    then have i: "i < n" using that by simp
    have "dll ?u (free_list (desc_at descs (of_nat i))) []" using Suc.prems(3) [OF i] by (simp add: dll_def)
    then have "dll (list_init (free_list ?d) ?u) (free_list (desc_at descs (of_nat i))) []"
      using desc_foot_apart(1) [of i n descs] i n by (intro list_init_frame) (auto simp: span_def)
    then show ?thesis
      using Suc.prems(2) [OF i] desc_foot_apart(2) [of i n descs] i n
      by (simp add: desc_ok_def)
  qed
  ultimately show ?case
    using Suc.hyps(1) [of "Suc n" "list_init (free_list ?d) ?u"] Suc.hyps(2) Suc.prems(1,4,5) n by simp
qed

lemma find_desc_class:
  assumes "\<And>i. i < 7 \<Longrightarrow> desc_ok s (desc_at descs (of_nat i)) i" and "unat sz \<le> 1024"
    and "n < 7" and "\<And>j. j < n \<Longrightarrow> bsz j < unat sz"
  obtains i where "i < 7" "find_desc descs sz (of_nat n) s = of_nat i" "unat sz \<le> bsz i"
    "\<And>j. j < i \<Longrightarrow> bsz j < unat sz"
  using assms(3,4)
proof (induction "6 - n" arbitrary: n thesis rule: less_induct)
  case less
  have un: "unat (of_nat n :: u8) = n" using less.prems(2) by (intro unat_of_nat_below) simp
  have uc: "ucast (of_nat n :: u8) = (of_nat n :: u32)"
    using less.prems(2) by (simp add: word_unat_eq_iff unat_of_nat take_bit_nat_eq_self unsigned_ucast_eq)
  have ub: "unat (of_nat (bsz n) :: u32) = bsz n"
    using bsz_bounds(2) [OF less.prems(2)] by (intro unat_of_nat_below) simp
  have step: "find_desc descs sz (of_nat n) s =
      (if unat sz \<le> bsz n then of_nat n else find_desc descs sz (of_nat (Suc n)) s)"
    using less.prems(2) un uc ub assms(1) [of n]
    by (subst find_desc.simps) (simp add: MEM_BLOCK_DESC_CNT_def desc_ok_def word_le_nat_alt add.commute)
  show ?case
  proof (cases "unat sz \<le> bsz n")
    case True
    then show ?thesis using less.prems step by (intro less.prems(1) [of n]) auto
  next
    case False
    then have "n \<noteq> 6" using assms(2) by (auto simp: bsz_def)
    then have n: "Suc n < 7" "6 - Suc n < 6 - n" using less.prems(2) by auto
    have lt: "bsz j < unat sz" if "j < Suc n" for j using that False less.prems(3) [of j] by (cases "j = n") auto
    show ?thesis
      by (rule less.hyps [OF n(2) _ n(1) lt]) (use less.prems(1) step False in auto)
  qed
qed

lemma list_ops_heap [simp]:
  "desc_block_size (list_append l x s) = desc_block_size s" "desc_block_size (list_remove x s) = desc_block_size s"
  "desc_blocks_per_arena (list_append l x s) = desc_blocks_per_arena s"
  "desc_blocks_per_arena (list_remove x s) = desc_blocks_per_arena s"
  "arenas (list_append l x s) = arenas s" "arenas (list_remove x s) = arenas s"
  "desc_block_size (snd (list_pop l s)) = desc_block_size s" "arenas (snd (list_pop l s)) = arenas s"
  "desc_blocks_per_arena (snd (list_pop l s)) = desc_blocks_per_arena s"
  by (simp_all add: list_ops_upd)

lemma blk_fresh:
  assumes "page_aligned a" and "n \<le> bpa i" and "j < n"
  shows "blk a i j \<notin> set (map (blk a i) [Suc j..<n])"
proof
  assume "blk a i j \<in> set (map (blk a i) [Suc j..<n])"
  then obtain k where "j < k" "k < n" "blk a i j = blk a i k"
    unfolding set_map set_upt by (metis atLeastLessThan_iff imageE less_eq_Suc_le)
  then show False using blk_inj [OF assms(1), of j i k] assms(2,3) by simp
qed

lemma fill_free_list_appends:
  assumes "arena_desc (arenas s a) = d" and "desc_ok s d i" and "page_aligned a"
    and "dll s (free_list d) xs" and "j \<le> n" and "n \<le> bpa i"
    and "set (map (blk a i) [j..<n]) \<inter> foot (free_list d) xs = {}"
  shows "fill_free_list a (of_nat n) (of_nat j) s =
    Ok () (fold (list_append (free_list d)) (map (blk a i) [j..<n]) s)"
  using assms
proof (induction "n - j" arbitrary: j s xs)
  case 0
  then show ?case by (simp add: fill_free_list.simps)
next
  case (Suc x)
  then have j: "j < n" by simp
  have n: "n < 2 ^ 32" using Suc.prems(6) bpa_bounds(1) [of i] by simp
  have lt: "(of_nat j :: u32) < of_nat n"
    using j n by (simp add: word_less_nat_alt unat_of_nat_below)
  let ?b = "blk a i j" and ?l = "free_list d"
  have b: "arena2block a (of_nat j) s = ?b"
    using Suc.prems(1,2) by (intro arena2block_blk) (auto simp: desc_ok_def)
  have split: "[j..<n] = j # [Suc j..<n]" using j by (rule upt_conv_Cons)
  have bx: "?b \<notin> foot ?l xs" using Suc.prems(7) split by auto
  have d': "dll (list_append ?l ?b s) ?l (xs @ [?b])" using kl.append_rep [OF Suc.prems(4) bx] .
  have "?b \<notin> set (map (blk a i) [Suc j..<n])" by (rule blk_fresh [OF Suc.prems(3,6) j])
  then have apart: "set (map (blk a i) [Suc j..<n]) \<inter> foot ?l (xs @ [?b]) = {}"
    using Suc.prems(7) unfolding split foot_simps by auto
  have "fill_free_list a (of_nat n) (of_nat (Suc j)) (list_append ?l ?b s) =
      Ok () (fold (list_append ?l) (map (blk a i) [Suc j..<n]) (list_append ?l ?b s))"
    using Suc.prems Suc.hyps(2) j d' apart by (intro Suc.hyps(1)) (auto simp: desc_ok_def)
  moreover have "node_find ?l ?b s = Ok False s" using node_find_dll [OF Suc.prems(4), of ?b] bx by (auto simp: span_def)
  ultimately show ?case
    using lt Suc.prems(1) b split by (subst fill_free_list.simps) (simp add: Let_def add.commute)
qed

lemma empty_arena_removes:
  assumes "arena_desc (arenas s a) = d" and "desc_ok s d i" and "page_aligned a"
    and "dll s (free_list d) xs" and "j \<le> n" and "n \<le> bpa i"
    and "set (map (blk a i) [j..<n]) \<subseteq> set xs"
  shows "empty_arena a (of_nat n) (of_nat j) s = Ok () (fold list_remove (map (blk a i) [j..<n]) s)"
  using assms
proof (induction "n - j" arbitrary: j s xs)
  case 0
  then show ?case by (simp add: empty_arena.simps)
next
  case (Suc x)
  then have j: "j < n" by simp
  have n: "n < 2 ^ 32" using Suc.prems(6) bpa_bounds(1) [of i] by simp
  have lt: "(of_nat j :: u32) < of_nat n"
    using j n by (simp add: word_less_nat_alt unat_of_nat_below)
  let ?b = "blk a i j" and ?l = "free_list d"
  have b: "arena2block a (of_nat j) s = ?b"
    using Suc.prems(1,2) by (intro arena2block_blk) (auto simp: desc_ok_def)
  have split: "[j..<n] = j # [Suc j..<n]" using j by (rule upt_conv_Cons)
  have bx: "?b \<in> set xs" using Suc.prems(7) split by auto
  then obtain us vs where uv: "xs = us @ ?b # vs" by (meson split_list)
  have d': "dll (list_remove ?b s) ?l (us @ vs)" using kl.remove_rep Suc.prems(4) uv by simp
  have "?b \<notin> set (map (blk a i) [Suc j..<n])" by (rule blk_fresh [OF Suc.prems(3,6) j])
  then have apart: "set (map (blk a i) [Suc j..<n]) \<subseteq> set (us @ vs)"
    using Suc.prems(7) unfolding split uv by (simp only: list.map set_append list.set) blast
  have "empty_arena a (of_nat n) (of_nat (Suc j)) (list_remove ?b s) =
      Ok () (fold list_remove (map (blk a i) [Suc j..<n]) (list_remove ?b s))"
    using Suc.prems Suc.hyps(2) j d' apart by (intro Suc.hyps(1)) (auto simp: desc_ok_def)
  moreover have "node_find ?l ?b s = Ok True s" using node_find_dll [OF Suc.prems(4), of ?b] bx by simp
  ultimately show ?case
    using lt Suc.prems(1) b split by (subst empty_arena.simps) (simp add: Let_def add.commute)
qed

section \<open>Clearing pages\<close>

text \<open>Every object in the virtual pages \<open>P\<close> and every word of the frames \<open>F\<close> behind them is cleared.\<close>

definition clear_pages :: "u32 set \<Rightarrow> u32 set \<Rightarrow> 'e kernel_scheme \<Rightarrow> 'e kernel_scheme" where
  "clear_pages P F s =
     s\<lparr>mem := (\<lambda>a. if page_of a \<in> P then 0 else mem s a),
       phys := (\<lambda>a. if page_of a \<in> F then 0 else phys s a),
       node_prev := (\<lambda>a. if page_of a \<in> P then 0 else node_prev s a),
       node_next := (\<lambda>a. if page_of a \<in> P then 0 else node_next s a),
       thread_stacks := (\<lambda>a. if page_of a \<in> P then zero_thread_stack else thread_stacks s a),
       intr_stacks := (\<lambda>a. if page_of a \<in> P then zero_intr_stack else intr_stacks s a),
       tasks := (\<lambda>a. if page_of a \<in> P then zero_task else tasks s a),
       desc_block_size := (\<lambda>a. if page_of a \<in> P then 0 else desc_block_size s a),
       desc_blocks_per_arena := (\<lambda>a. if page_of a \<in> P then 0 else desc_blocks_per_arena s a),
       arenas := (\<lambda>a. if page_of a \<in> P
                        then \<lparr>arena_desc = 0, arena_cnt = 0, arena_large = 0\<rparr> else arenas s a)\<rparr>"

lemma clear_page_eq: "clear_page v p s = clear_pages {page_of v} {page_of p} s"
  by (simp add: clear_page_def clear_pages_def)

lemma clear_pages_union: "clear_pages P F (clear_pages Q G s) = clear_pages (Q \<union> P) (G \<union> F) s"
  by (simp add: clear_pages_def fun_eq_iff)

lemma clear_pages_fields [simp]:
  "addr_of (clear_pages P F s) = addr_of s" "esp (clear_pages P F s) = esp s" "cr3 (clear_pages P F s) = cr3 s"
  "eflags (clear_pages P F s) = eflags s" "sema_value (clear_pages P F s) = sema_value s"
  "lock_holder (clear_pages P F s) = lock_holder s" "lock_repeat (clear_pages P F s) = lock_repeat s"
  "kernel_mem_pool (clear_pages P F s) = kernel_mem_pool s" "user_mem_pool (clear_pages P F s) = user_mem_pool s"
  "kernel_vaddr_pool (clear_pages P F s) = kernel_vaddr_pool s" "next_pid (clear_pages P F s) = next_pid s"
  "main_thread (clear_pages P F s) = main_thread s" "running_thread (clear_pages P F s) = running_thread s"
  "get_intr_status (clear_pages P F s) = get_intr_status s"
  "pool_bits pf (clear_pages P F s) = pool_bits pf s" "frame pf (clear_pages P F s) = frame pf s"
  by (simp_all add: clear_pages_def running_thread_def get_intr_status_def pool_bits_def frame_def [abs_def] pool_of_def)

lemma clear_pages_outside:
  "page_of a \<notin> P \<Longrightarrow> mem (clear_pages P F s) a = mem s a"
  "page_of a \<notin> P \<Longrightarrow> tasks (clear_pages P F s) a = tasks s a"
  "page_of a \<notin> P \<Longrightarrow> arenas (clear_pages P F s) a = arenas s a"
  "page_of a \<notin> P \<Longrightarrow> desc_block_size (clear_pages P F s) a = desc_block_size s a"
  "page_of a \<notin> P \<Longrightarrow> desc_blocks_per_arena (clear_pages P F s) a = desc_blocks_per_arena s a"
  "page_of a \<notin> P \<Longrightarrow> node_next (clear_pages P F s) a = node_next s a"
  "page_of a \<notin> P \<Longrightarrow> node_prev (clear_pages P F s) a = node_prev s a"
  "page_of a \<notin> F \<Longrightarrow> phys (clear_pages P F s) a = phys s a"
  by (simp_all add: clear_pages_def)

lemma clear_pages_inside:
  "page_of a \<in> P \<Longrightarrow> tasks (clear_pages P F s) a = zero_task"
  "page_of a \<in> P \<Longrightarrow> mem (clear_pages P F s) a = 0"
  "page_of a \<in> F \<Longrightarrow> phys (clear_pages P F s) a = 0"
  by (simp_all add: clear_pages_def)

lemma clear_pages_dll:
  assumes "dll s l xs" and "\<And>a. a \<in> foot l xs \<Longrightarrow> page_of a \<notin> P"
  shows "dll (clear_pages P F s) l xs"
  using assms by (intro dll_cong [THEN iffD1, OF _ _ assms(1)]) (simp_all add: clear_pages_outside)

text \<open>The frames of the kernel's pool hold neither the directory nor one of the page tables \<open>D\<close>, and the
  bitmaps lie below the heap.\<close>

definition frames_apart :: "u32 set \<Rightarrow> 'e kernel_scheme \<Rightarrow> bool" where
  "frames_apart D s \<longleftrightarrow> (\<forall>k<nbits (pool_bits PF_KERNEL s). frame PF_KERNEL s k \<noteq> cr3 s \<and>
     (\<forall>d\<in>D. frame PF_KERNEL s k \<noteq> page_of (dir_entry s d)))"

definition below_heap :: "'e kernel_scheme \<Rightarrow> u32 set \<Rightarrow> bool" where
  "below_heap s A \<longleftrightarrow> (\<forall>a\<in>A. unat a < unat (vaddr_start (kernel_vaddr_pool s)))"

abbreviation (input) bitmaps :: "'e kernel_scheme \<Rightarrow> u32 set" where
  "bitmaps s \<equiv> bm_bytes (vaddr_bitmap (kernel_vaddr_pool s)) \<union> bm_bytes (pool_bits PF_KERNEL s)"

lemma below_heap_page:
  assumes "vpool_ok (kernel_vaddr_pool s)" and "below_heap s A" and "a \<in> A"
    and "i < nbits (vaddr_bitmap (kernel_vaddr_pool s))"
  shows "page_of a \<noteq> page (kernel_vaddr_pool s) i"
proof
  assume "page_of a = page (kernel_vaddr_pool s) i"
  then have "unat (page_of a) = unat (vaddr_start (kernel_vaddr_pool s)) + i * 4096"
    using page_props(1) [OF assms(1,4)] by simp
  moreover have "unat (page_of a) \<le> unat a" by (simp add: unat_page_of)
  moreover have "unat a < unat (vaddr_start (kernel_vaddr_pool s))" using assms(2,3) by (simp add: below_heap_def)
  ultimately show False by linarith
qed

lemma tables_kept:
  assumes tabs: "ptabs s D" and c: "cr3 t = cr3 s"
    and p: "\<forall>a. page_of a = cr3 s \<or> page_of a \<in> page_of ` dir_entry s ` D \<longrightarrow> phys t a = phys s a"
  shows "ptabs t D" and "unat d < 1024 \<Longrightarrow> dir_entry t d = dir_entry s d"
    and "PDE_IDX v \<in> D \<Longrightarrow> translate t v = translate s v"
proof -
  have al: "page_aligned (cr3 s)" using tabs by (simp add: ptabs_def self_mapped_def)
  show entry: "dir_entry t d = dir_entry s d" if "unat d < 1024" for d
    using entry_addr_page [OF al that] p c by (simp add: dir_entry_def)
  have "page_of (cr3 s + 4092) = cr3 s" using al by (rule page_of_offset) simp
  then have "self_mapped t" using tabs p c by (simp add: ptabs_def self_mapped_def)
  moreover have "inj_on (\<lambda>d. page_of (dir_entry t d)) D = inj_on (\<lambda>d. page_of (dir_entry s d)) D"
    using tabs entry by (intro inj_on_cong) (simp add: ptabs_def)
  ultimately show "ptabs t D" using tabs entry c by (simp add: ptabs_def)
  show "translate t v = translate s v" if v: "PDE_IDX v \<in> D"
  proof -
    have pde: "pde_of t v = pde_of s v" unfolding pde_of_entry using entry [OF PDE_IDX_bound] .
    then have slot: "pte_slot t v = pte_slot s v" by (simp add: pte_slot_def)
    have "phys t (pte_slot s v) = phys s (pte_slot s v)"
      using p v pte_slot_page [of s v] by (simp add: pde_of_entry)
    then show ?thesis by (simp add: translate_def pde slot)
  qed
qed

lemma vm_rep_cleared:
  assumes rep: "vm_rep D fr s" and fa: "frames_apart D s" and bm: "below_heap s (bitmaps s)"
    and P: "P \<subseteq> page (kernel_vaddr_pool s) ` {..<nbits (vaddr_bitmap (kernel_vaddr_pool s))}"
    and F: "F \<subseteq> frame PF_KERNEL s ` {..<nbits (pool_bits PF_KERNEL s)}"
  shows "vm_rep D fr (clear_pages P F s)" and "frames_apart D (clear_pages P F s)"
    and "bm.in_use (vaddr_bitmap (kernel_vaddr_pool s)) (mem (clear_pages P F s)) =
      bm.in_use (vaddr_bitmap (kernel_vaddr_pool s)) (mem s)"
    and "bm.in_use (pool_bits PF_KERNEL s) (mem (clear_pages P F s)) = bm.in_use (pool_bits PF_KERNEL s) (mem s)"
    and "PDE_IDX v \<in> D \<Longrightarrow> translate (clear_pages P F s) v = translate s v"
proof -
  let ?t = "clear_pages P F s" and ?vp = "kernel_vaddr_pool s"
  note R = vm_repD [OF rep refl refl refl]
  have out: "page_of a \<notin> P" if "a \<in> bitmaps s" for a
    using below_heap_page [OF R(2) bm that] P by blast
  have ph: "\<forall>a. page_of a = cr3 s \<or> page_of a \<in> page_of ` dir_entry s ` D \<longrightarrow> phys ?t a = phys s a"
    using fa F by (intro allI impI clear_pages_outside(8)) (auto simp: frames_apart_def)
  note K = tables_kept [OF R(3) clear_pages_fields(3) ph]
  show tr: "PDE_IDX v \<in> D \<Longrightarrow> translate ?t v = translate s v" for v by (rule K(3))
  have m: "mem ?t a = mem s a" if "a \<in> bitmaps s" for a using out [OF that] by (rule clear_pages_outside(1))
  show V: "bm.in_use (vaddr_bitmap ?vp) (mem ?t) = bm.in_use (vaddr_bitmap ?vp) (mem s)"
    using m by (intro in_use_cong) auto
  show B: "bm.in_use (pool_bits PF_KERNEL s) (mem ?t) = bm.in_use (pool_bits PF_KERNEL s) (mem s)"
    using m by (intro in_use_cong) auto
  have "bm_bit (vaddr_bitmap ?vp) (mem ?t) i = bm_bit (vaddr_bitmap ?vp) (mem s) i" if "i < nbits (vaddr_bitmap ?vp)" for i
    using V that by (auto simp: bm.in_use_def set_eq_iff)
  moreover have "pools_ok ?t" using R(1) by (simp add: pools_ok_def)
  ultimately show "vm_rep D fr ?t"
    unfolding vm_rep_def Let_def using R(2-9) tr V B K(1) by simp
  have "dir_entry ?t d = dir_entry s d" if "d \<in> D" for d using R(3) that by (intro K(2)) (simp add: ptabs_def)
  then show "frames_apart D ?t" using fa by (simp add: frames_apart_def)
qed

lemma memset_run:
  assumes "vm_rep D fr s" and "frames_apart D s" and "below_heap s (bitmaps s)"
    and "vp = kernel_vaddr_pool s" and "k + n \<le> nbits (vaddr_bitmap vp)"
    and "{k..<k + n} \<subseteq> bm.in_use (vaddr_bitmap vp) (mem s)"
  shows "memset_pages_loop n (page vp k) s =
    Ok () (clear_pages (page vp ` {k..<k + n}) (frame PF_KERNEL s ` fr ` {k..<k + n}) s)"
  using assms
proof (induction n arbitrary: k s)
  case 0
  then show ?case by (simp add: clear_pages_def)
next
  case (Suc n)
  let ?f = "frame PF_KERNEL s" and ?vb = "vaddr_bitmap vp"
  note R = vm_repD [OF Suc.prems(1,4) refl refl]
  have "k \<in> bm.in_use ?vb (mem s)" using Suc.prems(6) by auto
  then have k: "k < nbits ?vb" "bm_bit ?vb (mem s) k" "fr k \<in> bm.in_use (pool_bits PF_KERNEL s) (mem s)"
    using R(8) by (auto simp: bm.in_use_def)
  then have fk: "fr k < nbits (pool_bits PF_KERNEL s)" by (auto simp: bm.in_use_def)
  let ?t = "clear_pages {page vp k} {?f (fr k)} s"
  have PF: "{page vp k} \<subseteq> page (kernel_vaddr_pool s) ` {..<nbits (vaddr_bitmap (kernel_vaddr_pool s))}"
      "{?f (fr k)} \<subseteq> ?f ` {..<nbits (pool_bits PF_KERNEL s)}"
    using k(1) fk Suc.prems(4) by auto
  note C = vm_rep_cleared [OF Suc.prems(1-3) PF]
  have "page_of (?f (fr k)) = ?f (fr k)"
    using frame_props(1) [OF R(1) fk] page_of_offset [of "?f (fr k)" 0] by simp
  then have "clear_page (page vp k) (?f (fr k)) s = ?t"
    using page_props(3) [OF R(2) k(1)] by (simp add: clear_page_eq)
  moreover have "translate s (page vp k) = Some (?f (fr k))" using R(6) k by simp
  ultimately have "memset_pages_loop (Suc n) (page vp k) s = memset_pages_loop n (page vp (Suc k)) ?t"
    using page_Suc [of vp k] by simp
  also have "\<dots> = Ok () (clear_pages (page vp ` {Suc k..<Suc k + n}) (frame PF_KERNEL ?t ` fr ` {Suc k..<Suc k + n}) ?t)"
    using Suc.prems(3-6) C(3)
    by (intro Suc.IH [OF C(1,2)]) (auto simp: below_heap_def)
  also have "\<dots> = Ok () (clear_pages (page vp ` {k..<k + Suc n}) (?f ` fr ` {k..<k + Suc n}) s)"
  proof -
    have "{k..<k + Suc n} = insert k {Suc k..<Suc k + n}" by auto
    then show ?thesis by (simp add: clear_pages_union)
  qed
  finally show ?case .
qed

section \<open>The heap invariant\<close>

text \<open>
  A chunk is a run of heap pages with an arena header: the single page of an arena of class \<open>i\<close>, or the
  \<open>n\<close> pages of a large request. \<open>A\<close> maps the index of the first page of each chunk to the chunk, and
  \<open>fl i\<close> is the sequence of the free blocks of class \<open>i\<close>.
\<close>

datatype chunk = Small nat | Large nat

fun npages :: "chunk \<Rightarrow> nat" where
  "npages (Small i) = 1"
| "npages (Large n) = n"

fun chunk_wf :: "chunk \<Rightarrow> bool" where
  "chunk_wf (Small i) \<longleftrightarrow> i < 7"
| "chunk_wf (Large n) \<longleftrightarrow> 0 < n \<and> n < 3840"

definition run :: "chunk \<Rightarrow> nat \<Rightarrow> nat set" where "run c k = {k..<k + npages c}"

definition used :: "(nat \<Rightarrow> chunk option) \<Rightarrow> nat set" where
  "used A = {p. \<exists>k c. A k = Some c \<and> p \<in> run c k}"

abbreviation (input) kvp :: "'e kernel_scheme \<Rightarrow> virtual_addr_pool" where "kvp s \<equiv> kernel_vaddr_pool s"
abbreviation (input) kvb :: "'e kernel_scheme \<Rightarrow> bitmap" where "kvb s \<equiv> vaddr_bitmap (kernel_vaddr_pool s)"
abbreviation (input) klock :: "'e kernel_scheme \<Rightarrow> u32" where "klock s \<equiv> addr_of s Kernel_pool_lock"
abbreviation (input) kwait :: "'e kernel_scheme \<Rightarrow> u32" where "kwait s \<equiv> waiters (semaphore (addr_of s Kernel_pool_lock))"

definition free_in :: "u32 \<Rightarrow> nat \<Rightarrow> u32 list \<Rightarrow> nat set" where
  "free_in a i bs = {j. j < bpa i \<and> blk a i j \<in> set bs}"

fun header :: "'e kernel_scheme \<Rightarrow> (nat \<Rightarrow> u32 list) \<Rightarrow> u32 \<Rightarrow> chunk \<Rightarrow> arena" where
  "header s fl a (Small i) = \<lparr>arena_desc = cls s i, arena_cnt = of_nat (card (free_in a i (fl i))), arena_large = 0\<rparr>"
| "header s fl a (Large n) = \<lparr>arena_desc = NULL, arena_cnt = of_nat n, arena_large = 1\<rparr>"

definition heap_lists :: "(nat \<Rightarrow> chunk option) \<Rightarrow> (nat \<Rightarrow> u32 list) \<Rightarrow> 'e kernel_scheme \<Rightarrow> bool" where
  "heap_lists A fl s \<longleftrightarrow> (\<forall>i<7. desc_ok s (cls s i) i \<and> dll s (free_list (cls s i)) (fl i) \<and>
     (\<forall>b\<in>set (fl i). \<exists>k j. A k = Some (Small i) \<and> j < bpa i \<and> b = blk (page (kvp s) k) i j))"

definition heap_chunks :: "(nat \<Rightarrow> chunk option) \<Rightarrow> (nat \<Rightarrow> u32 list) \<Rightarrow> 'e kernel_scheme \<Rightarrow> bool" where
  "heap_chunks A fl s \<longleftrightarrow>
     (\<forall>k c. A k = Some c \<longrightarrow> chunk_wf c \<and> run c k \<subseteq> bm.in_use (kvb s) (mem s) \<and>
        arenas s (page (kvp s) k) = header s fl (page (kvp s) k) c) \<and>
     (\<forall>k m c d. A k = Some c \<longrightarrow> A m = Some d \<longrightarrow> k \<noteq> m \<longrightarrow> run c k \<inter> run d m = {})"

definition heap_env :: "u32 set \<Rightarrow> (nat \<Rightarrow> chunk option) \<Rightarrow> 'e kernel_scheme \<Rightarrow> bool" where
  "heap_env D A s \<longleftrightarrow>
     (\<exists>fr. vm_rep D fr s) \<and> frames_apart D s \<and> below_heap s (bitmaps s) \<and> vaddr_start (kvp s) = K_HEAP_START \<and>
     dll s (kwait s) [] \<and> below_heap s (foot (kwait s) []) \<and>
     (\<forall>i<7. below_heap s (insert (cls s i) (foot (free_list (cls s i)) [])) \<and> cls s i \<noteq> NULL \<and>
            foot (kwait s) [] \<inter> foot (free_list (cls s i)) [] = {}) \<and>
     running_thread s \<noteq> NULL \<and> pgdir (tasks s (running_thread s)) = NULL \<and>
     (\<forall>i<nbits (kvb s). page (kvp s) i = running_thread s \<longrightarrow> i \<in> bm.in_use (kvb s) (mem s) - used A)"

definition heap_core :: "u32 set \<Rightarrow> (nat \<Rightarrow> chunk option) \<Rightarrow> (nat \<Rightarrow> u32 list) \<Rightarrow> 'e kernel_scheme \<Rightarrow> bool" where
  "heap_core D A fl s \<longleftrightarrow> heap_env D A s \<and> heap_lists A fl s \<and> heap_chunks A fl s"

definition lock_idle :: "u32 \<Rightarrow> 'e kernel_scheme \<Rightarrow> bool" where
  "lock_idle L s \<longleftrightarrow> sema_value s (semaphore L) = 1 \<and> lock_holder s L \<noteq> running_thread s \<and> lock_repeat s L = 0"

definition heap_inv :: "u32 set \<Rightarrow> (nat \<Rightarrow> chunk option) \<Rightarrow> (nat \<Rightarrow> u32 list) \<Rightarrow> 'e kernel_scheme \<Rightarrow> bool" where
  "heap_inv D A fl s \<longleftrightarrow> heap_core D A fl s \<and> lock_idle (klock s) s"

text \<open>The memory handed out and not yet given back: start and length of each piece.\<close>

definition live :: "(nat \<Rightarrow> chunk option) \<Rightarrow> (nat \<Rightarrow> u32 list) \<Rightarrow> 'e kernel_scheme \<Rightarrow> (u32 \<times> nat) set" where
  "live A fl s =
     {(blk (page (kvp s) k) i j, bsz i) | k i j. A k = Some (Small i) \<and> j < bpa i \<and> blk (page (kvp s) k) i j \<notin> set (fl i)} \<union>
     {(page (kvp s) k + sizeof_arena, n * 4096 - 12) | k n. A k = Some (Large n)}"

subsection \<open>Consequences\<close>

lemma heap_listsD:
  assumes "heap_lists A fl s" and "i < 7"
  shows "desc_ok s (cls s i) i" and "dll s (free_list (cls s i)) (fl i)"
    and "b \<in> set (fl i) \<Longrightarrow> \<exists>k j. A k = Some (Small i) \<and> j < bpa i \<and> b = blk (page (kvp s) k) i j"
  using assms by (simp_all add: heap_lists_def)

lemma heap_chunksD:
  assumes "heap_chunks A fl s" and "A k = Some c"
  shows "chunk_wf c" and "run c k \<subseteq> bm.in_use (kvb s) (mem s)"
    and "arenas s (page (kvp s) k) = header s fl (page (kvp s) k) c"
    and "A m = Some d \<Longrightarrow> m \<noteq> k \<Longrightarrow> run c k \<inter> run d m = {}"
  using assms by (simp_all add: heap_chunks_def)

lemma chunk_first:
  assumes "heap_chunks A fl s" and "A k = Some c"
  shows "k \<in> run c k" and "k < nbits (kvb s)" and "k \<in> bm.in_use (kvb s) (mem s)"
    and "k + npages c \<le> nbits (kvb s)" and "k \<in> used A"
proof -
  note C = heap_chunksD [OF assms]
  have n: "0 < npages c" using C(1) by (cases c) auto
  then show "k \<in> run c k" by (simp add: run_def)
  then show "k \<in> bm.in_use (kvb s) (mem s)" using C(2) by blast
  then show "k < nbits (kvb s)" by (simp add: bm.in_use_def)
  show "k \<in> used A" using assms(2) \<open>k \<in> run c k\<close> by (auto simp: used_def)
  have "k + npages c - 1 \<in> run c k" using n by (auto simp: run_def)
  then have "k + npages c - 1 < nbits (kvb s)" using C(2) by (auto simp: bm.in_use_def)
  then show "k + npages c \<le> nbits (kvb s)" using n by linarith
qed

lemma heap_env_vm:
  assumes "heap_env D A s"
  obtains fr where "vm_rep D fr s" "frames_apart D s" "below_heap s (bitmaps s)"
  using assms by (auto simp: heap_env_def)

lemma heap_env_vpool: "heap_env D A s \<Longrightarrow> vpool_ok (kvp s)"
  using vm_repD(2) by (metis heap_env_vm)

lemma heap_coreD:
  assumes "heap_core D A fl s"
  shows "heap_env D A s" and "heap_lists A fl s" and "heap_chunks A fl s" and "vpool_ok (kvp s)"
  using assms heap_env_vpool by (auto simp: heap_core_def)

lemma heap_core_page:
  assumes "heap_core D A fl s" and "A k = Some c"
  shows "page_aligned (page (kvp s) k)" and "page_of (page (kvp s) k) = page (kvp s) k" and "page (kvp s) k \<noteq> NULL"
  using page_props [OF heap_coreD(4) [OF assms(1)] chunk_first(2) [OF heap_coreD(3) [OF assms(1)] assms(2)]] by simp_all

lemma heap_node_page:
  assumes H: "heap_core D A fl s" and i: "i < 7" and a: "a \<in> foot (free_list (cls s i)) (fl i)"
    and m: "m < nbits (kvb s)" and p: "page_of a = page (kvp s) m"
  shows "A m = Some (Small i) \<and> a \<in> set (fl i)"
proof -
  note C = heap_coreD [OF H]
  have "a \<notin> foot (free_list (cls s i)) []"
  proof
    assume "a \<in> foot (free_list (cls s i)) []"
    then show False using below_heap_page [OF C(4) _ _ m, of "insert (cls s i) (foot (free_list (cls s i)) [])" a] C(1) i p
      by (auto simp: heap_env_def)
  qed
  then have b: "a \<in> set (fl i)" using a by (auto simp: span_def)
  obtain k j where kj: "A k = Some (Small i)" "j < bpa i" "a = blk (page (kvp s) k) i j"
    using heap_listsD(3) [OF C(2) i b] by blast
  then have "page_of a = page (kvp s) k" using page_of_blk heap_core_page(1) [OF H kj(1)] by simp
  then have "k = m" using p page_inj [OF C(4) chunk_first(2) [OF C(3) kj(1)] m] by simp
  then show ?thesis using kj(1) b by simp
qed

lemma free_lists_apart:
  assumes H: "heap_core D A fl s" and ij: "i < 7" "j < 7" "i \<noteq> j"
  shows "foot (free_list (cls s i)) (fl i) \<inter> foot (free_list (cls s j)) (fl j) = {}"
proof -
  note C = heap_coreD [OF H]
  have "a \<notin> foot (free_list (cls s j)) (fl j)" if b: "a \<in> set (fl i)" for a
  proof
    assume aj: "a \<in> foot (free_list (cls s j)) (fl j)"
    obtain k m where k: "A k = Some (Small i)" "m < bpa i" "a = blk (page (kvp s) k) i m"
      using heap_listsD(3) [OF C(2) ij(1) b] by blast
    have "page_of a = page (kvp s) k" using page_of_blk heap_core_page(1) [OF H k(1)] k by simp
    from heap_node_page [OF H ij(2) aj chunk_first(2) [OF C(3) k(1)] this] show False using k(1) ij by simp
  qed
  moreover have "a \<notin> foot (free_list (cls s i)) (fl i)" if b: "a \<in> set (fl j)" for a
  proof
    assume ai: "a \<in> foot (free_list (cls s i)) (fl i)"
    obtain k m where k: "A k = Some (Small j)" "m < bpa j" "a = blk (page (kvp s) k) j m"
      using heap_listsD(3) [OF C(2) ij(2) b] by blast
    have "page_of a = page (kvp s) k" using page_of_blk heap_core_page(1) [OF H k(1)] k by simp
    from heap_node_page [OF H ij(1) ai chunk_first(2) [OF C(3) k(1)] this] show False using k(1) ij by simp
  qed
  moreover have "foot (free_list (cls s i)) [] \<inter> foot (free_list (cls s j)) [] = {}"
    unfolding cls_def by (rule desc_foot_apart(1) [OF ij])
  ultimately show ?thesis by (auto simp: span_def)
qed

lemma free_list_kwait:
  assumes H: "heap_core D A fl s" and i: "i < 7"
  shows "foot (free_list (cls s i)) (fl i) \<inter> foot (kwait s) [] = {}"
proof -
  note C = heap_coreD [OF H]
  have "a \<notin> foot (kwait s) []" if b: "a \<in> set (fl i)" for a
  proof
    assume w: "a \<in> foot (kwait s) []"
    obtain k m where k: "A k = Some (Small i)" "m < bpa i" "a = blk (page (kvp s) k) i m"
      using heap_listsD(3) [OF C(2) i b] by blast
    have "page_of a = page (kvp s) k" using page_of_blk heap_core_page(1) [OF H k(1)] k by simp
    then show False using below_heap_page [OF C(4) _ w chunk_first(2) [OF C(3) k(1)]] C(1) by (simp add: heap_env_def)
  qed
  then show ?thesis using C(1) i by (auto simp: heap_env_def span_def)
qed

subsection \<open>Changing one free list\<close>

lemma vm_rep_cong:
  assumes "vm_rep D fr s" and "mem t = mem s" and "phys t = phys s" and "cr3 t = cr3 s"
    and "kernel_mem_pool t = kernel_mem_pool s" and "user_mem_pool t = user_mem_pool s"
    and "kernel_vaddr_pool t = kernel_vaddr_pool s"
  shows "vm_rep D fr t"
proof -
  have b: "pool_bits pf t = pool_bits pf s" "frame pf t = frame pf s" for pf
    using assms(5,6) by (simp_all add: pool_bits_def pool_of_def frame_def fun_eq_iff)
  have "pools_ok t = pools_ok s" using assms(5,6) b by (simp add: pools_ok_def)
  moreover have "ptabs t D = ptabs s D" using assms(3,4) by (simp add: ptabs_def self_mapped_def dir_entry_def)
  moreover have "translate t v = translate s v" for v
    using assms(3,4) by (simp add: translate_def pde_of_def pte_slot_def)
  ultimately show ?thesis using assms(1) unfolding vm_rep_def Let_def assms(2,7) b by simp
qed

lemma cls_cong: "addr_of t = addr_of s \<Longrightarrow> cls t = cls s"
  by (simp add: cls_def fun_eq_iff)

lemma below_heap_cong: "kernel_vaddr_pool t = kernel_vaddr_pool s \<Longrightarrow> below_heap t = below_heap s"
  by (simp add: below_heap_def fun_eq_iff)

lemma frames_apart_cong:
  assumes "phys t = phys s" and "cr3 t = cr3 s" and "kernel_mem_pool t = kernel_mem_pool s"
  shows "frames_apart D t = frames_apart D s"
  using assms by (simp add: frames_apart_def pool_bits_def pool_of_def frame_def dir_entry_def)

lemma heap_env_cong:
  assumes "heap_env D A s" and "mem t = mem s" and "phys t = phys s" and "cr3 t = cr3 s"
    and "kernel_mem_pool t = kernel_mem_pool s" and "user_mem_pool t = user_mem_pool s"
    and "kernel_vaddr_pool t = kernel_vaddr_pool s" and "addr_of t = addr_of s" and "esp t = esp s"
    and "tasks t = tasks s" and "dll t (kwait s) []"
  shows "heap_env D A t"
proof -
  have b: "pool_bits pf t = pool_bits pf s" for pf using assms(5,6) by (simp add: pool_bits_def pool_of_def)
  have "\<exists>fr. vm_rep D fr t" using assms vm_rep_cong by (metis heap_env_def)
  moreover have "running_thread t = running_thread s" using assms(9) by (rule running_thread_cong)
  ultimately show ?thesis
    using assms frames_apart_cong [OF assms(3-5), of D] cls_cong [OF assms(8)] below_heap_cong [OF assms(7)] b
    by (simp add: heap_env_def)
qed

lemma heap_core_relist:
  assumes H: "heap_core D A fl s" and i: "i < 7" and k: "A k = Some (Small i)" and a: "a = page (kvp s) k"
    and t: "t = s\<lparr>node_next := nn, node_prev := np, arenas := (arenas s)(a := header s (fl(i := bs)) a (Small i))\<rparr>"
    and d: "\<And>j. j < 7 \<Longrightarrow> dll t (free_list (cls s j)) ((fl(i := bs)) j)" "dll t (kwait s) []"
    and bs: "\<And>b. b \<in> set bs \<Longrightarrow> \<exists>k j. A k = Some (Small i) \<and> j < bpa i \<and> b = blk (page (kvp s) k) i j"
    and others: "\<And>m. A m = Some (Small i) \<Longrightarrow> m \<noteq> k \<Longrightarrow> free_in (page (kvp s) m) i bs = free_in (page (kvp s) m) i (fl i)"
  shows "heap_core D A (fl(i := bs)) t"
proof -
  note C = heap_coreD [OF H]
  have cls: "cls t = cls s" by (rule cls_cong) (simp add: t)
  have ok: "desc_ok t = desc_ok s" by (simp add: t desc_ok_def fun_eq_iff)
  have "heap_env D A t" by (rule heap_env_cong [OF C(1)]) (use t d(2) in simp_all)
  moreover have "heap_lists A (fl(i := bs)) t"
    unfolding heap_lists_def cls ok using C(2) d(1) bs by (simp add: heap_lists_def t)
  moreover have "heap_chunks A (fl(i := bs)) t"
  proof -
    have hd: "arenas t (page (kvp s) m) = header t (fl(i := bs)) (page (kvp s) m) c" if m: "A m = Some c" for m c
    proof (cases "m = k")
      case True
      then have "c = Small i" using m k by simp
      then show ?thesis using True a cls by (simp add: t)
    next
      case False
      then have "page (kvp s) m \<noteq> a"
        using page_inj [OF C(4) chunk_first(2) [OF C(3) m] chunk_first(2) [OF C(3) k]] a by simp
      then have "arenas t (page (kvp s) m) = header s fl (page (kvp s) m) c"
        using heap_chunksD(3) [OF C(3) m] by (simp add: t)
      moreover have "header t (fl(i := bs)) (page (kvp s) m) c = header s fl (page (kvp s) m) c"
        using others [of m] False m cls by (cases c) auto
      ultimately show ?thesis by simp
    qed
    have "kvp t = kvp s" "mem t = mem s" by (simp_all add: t)
    then show ?thesis using C(3) hd unfolding heap_chunks_def by simp
  qed
  ultimately show ?thesis by (simp add: heap_core_def)
qed

lemma free_in_Cons: "page_aligned a \<Longrightarrow> j < bpa i \<Longrightarrow> b = blk a i j \<Longrightarrow> free_in a i (b # bs) = insert j (free_in a i bs)"
  using blk_inj [of a _ i j] by (auto simp: free_in_def)

lemma free_in_other: "page_aligned a \<Longrightarrow> page_of b \<noteq> a \<Longrightarrow> free_in a i (b # bs) = free_in a i bs"
  using page_of_blk [of a _ i] by (auto simp: free_in_def)

lemma free_in_append: "free_in a i (bs @ [b]) = free_in a i (b # bs)"
  by (auto simp: free_in_def)

lemma card_free_in: "card (free_in a i bs) \<le> bpa i" "finite (free_in a i bs)"
proof -
  have "free_in a i bs \<subseteq> {..<bpa i}" by (auto simp: free_in_def)
  then show "finite (free_in a i bs)" "card (free_in a i bs) \<le> bpa i"
    using card_mono [of "{..<bpa i}"] finite_subset by (fastforce, fastforce)
qed

lemma block_of_class:
  assumes "heap_core D A fl s" and "A k = Some (Small i)" and "j < bpa i" and "b = blk (page (kvp s) k) i j"
    and "A m = Some c" and "m \<noteq> k"
  shows "page_of b \<noteq> page (kvp s) m" and "block2arena b = page (kvp s) k"
proof -
  have "page_of b = page (kvp s) k" using page_of_blk heap_core_page(1) [OF assms(1,2)] assms(3,4) by simp
  then show "page_of b \<noteq> page (kvp s) m" "block2arena b = page (kvp s) k"
    using page_inj [OF heap_coreD(4) [OF assms(1)] chunk_first(2) [OF heap_coreD(3) [OF assms(1)] assms(2)]
        chunk_first(2) [OF heap_coreD(3) [OF assms(1)] assms(5)]] assms(6)
    by (simp_all add: block2arena_def page_of_def)
qed

lemma pop_core:
  assumes H: "heap_core D A fl s" and i: "i < 7" and fl: "fl i = b # bs"
    and t: "t = upd_arena (block2arena b) (\<lambda>x. x\<lparr>arena_cnt := arena_cnt x - 1\<rparr>) (snd (list_pop (free_list (cls s i)) s))"
  shows "fst (list_pop (free_list (cls s i)) s) = b" and "heap_core D A (fl(i := bs)) t"
    and "\<exists>k j. A k = Some (Small i) \<and> j < bpa i \<and> b = blk (page (kvp s) k) i j"
proof -
  note C = heap_coreD [OF H] and L = heap_listsD [OF heap_coreD(2) [OF H]]
  have dl: "dll s (free_list (cls s i)) (b # bs)" using L(2) [OF i] fl by simp
  show "fst (list_pop (free_list (cls s i)) s) = b" by (rule kl.pop_fst [OF dl])
  show ex: "\<exists>k j. A k = Some (Small i) \<and> j < bpa i \<and> b = blk (page (kvp s) k) i j"
    using L(3) [OF i, of b] fl by simp
  then obtain k j where k: "A k = Some (Small i)" "j < bpa i" "b = blk (page (kvp s) k) i j" by blast
  let ?a = "page (kvp s) k"
  note al = heap_core_page(1) [OF H k(1)]
  have ba: "block2arena b = ?a" using block2arena_blk [OF al k(2)] k(3) by simp
  have "b \<notin> set bs" using dll_distinct [OF dl] by simp
  then have "j \<notin> free_in ?a i bs" using k(3) by (auto simp: free_in_def)
  then have "card (free_in ?a i (fl i)) = Suc (card (free_in ?a i bs))"
    using free_in_Cons [OF al k(2,3)] fl card_free_in(2) by simp
  then have hd: "(arenas s ?a)\<lparr>arena_cnt := arena_cnt (arenas s ?a) - 1\<rparr> = header s (fl(i := bs)) ?a (Small i)"
    using heap_chunksD(3) [OF C(3) k(1)] by simp
  obtain nn np where pop: "snd (list_pop (free_list (cls s i)) s) = s\<lparr>node_next := nn, node_prev := np\<rparr>"
    by (simp add: list_ops_upd)
  have tt: "t = s\<lparr>node_next := nn, node_prev := np, arenas := (arenas s)(?a := header s (fl(i := bs)) ?a (Small i))\<rparr>"
    unfolding t ba pop hd [symmetric] by (simp add: upd_arena_def)
  have dt: "dll t l xs = dll (snd (list_pop (free_list (cls s i)) s)) l xs" for l xs
    unfolding tt pop by (simp add: dll_def)
  have apart: "foot (free_list (cls s i)) bs \<inter> foot l xs = {}"
    if "foot (free_list (cls s i)) (fl i) \<inter> foot l xs = {}" for l xs
    using that fl by (auto simp: span_def)
  show "heap_core D A (fl(i := bs)) t"
  proof (rule heap_core_relist [OF H i k(1) refl tt])
    show "dll t (free_list (cls s m)) ((fl(i := bs)) m)" if m: "m < 7" for m
      unfolding dt using kl.pop_rep [OF dl] kl.pop_frame [OF dl L(2) [OF m]] apart free_lists_apart [OF H i m] by auto
    show "dll t (kwait s) []"
      unfolding dt using kl.pop_frame [OF dl _ apart [OF free_list_kwait [OF H i]]] C(1) by (simp add: heap_env_def)
    show "\<exists>k j. A k = Some (Small i) \<and> j < bpa i \<and> c = blk (page (kvp s) k) i j" if "c \<in> set bs" for c
      using L(3) [OF i, of c] that fl by simp
    show "free_in (page (kvp s) m) i bs = free_in (page (kvp s) m) i (fl i)" if m: "A m = Some (Small i)" "m \<noteq> k" for m
      using free_in_other [OF heap_core_page(1) [OF H m(1)] block_of_class(1) [OF H k m]] fl by simp
  qed
qed

lemma append_core:
  assumes H: "heap_core D A fl s" and k: "A k = Some (Small i)" "j < bpa i" "b = blk (page (kvp s) k) i j"
    and new: "b \<notin> set (fl i)"
    and t: "t = upd_arena (page (kvp s) k) (\<lambda>x. x\<lparr>arena_cnt := arena_cnt x + 1\<rparr>) (list_append (free_list (cls s i)) b s)"
  shows "heap_core D A (fl(i := fl i @ [b])) t"
proof -
  note C = heap_coreD [OF H] and L = heap_listsD [OF heap_coreD(2) [OF H]]
  have i: "i < 7" using heap_chunksD(1) [OF C(3) k(1)] by simp
  let ?a = "page (kvp s) k" and ?l = "free_list (cls s i)"
  note al = heap_core_page(1) [OF H k(1)]
  have pb: "page_of b = ?a" using page_of_blk [OF al k(2)] k(3) by simp
  note kb = chunk_first(2) [OF C(3) k(1)]
  have bl: "b \<notin> foot ?l (fl i)" using heap_node_page [OF H i _ kb pb] new by blast
  have "j \<notin> free_in ?a i (fl i)" using new k(3) by (auto simp: free_in_def)
  then have "card (free_in ?a i (fl i @ [b])) = Suc (card (free_in ?a i (fl i)))"
    using free_in_Cons [OF al k(2,3)] card_free_in(2) by (simp add: free_in_append)
  then have hd: "(arenas s ?a)\<lparr>arena_cnt := arena_cnt (arenas s ?a) + 1\<rparr> = header s (fl(i := fl i @ [b])) ?a (Small i)"
    using heap_chunksD(3) [OF C(3) k(1)] by (simp add: add.commute)
  obtain nn np where ap: "list_append ?l b s = s\<lparr>node_next := nn, node_prev := np\<rparr>"
    by (simp add: list_ops_upd)
  have tt: "t = s\<lparr>node_next := nn, node_prev := np, arenas := (arenas s)(?a := header s (fl(i := fl i @ [b])) ?a (Small i))\<rparr>"
    unfolding t ap hd [symmetric] by (simp add: upd_arena_def)
  have dt: "dll t l xs = dll (list_append ?l b s) l xs" for l xs
    unfolding tt ap by (simp add: dll_def)
  have wait: "b \<notin> foot (kwait s) []"
    using below_heap_page [OF C(4) _ _ kb, of "foot (kwait s) []" b] C(1) pb by (auto simp: heap_env_def)
  show ?thesis
  proof (rule heap_core_relist [OF H i k(1) refl tt])
    show "dll t (free_list (cls s m)) ((fl(i := fl i @ [b])) m)" if m: "m < 7" for m
    proof (cases "m = i")
      case True
      then show ?thesis unfolding dt using kl.append_rep [OF L(2) [OF i] bl] by simp
    next
      case False
      have "b \<notin> foot (free_list (cls s m)) (fl m)" using heap_node_page [OF H m _ kb pb] k(1) False by auto
      then have "foot ?l (b # fl i) \<inter> foot (free_list (cls s m)) (fl m) = {}"
        using free_lists_apart [OF H i m] False by (auto simp: foot_simps)
      then show ?thesis unfolding dt using kl.append_frame [OF L(2) [OF i] L(2) [OF m]] False by simp
    qed
    have "foot ?l (b # fl i) \<inter> foot (kwait s) [] = {}"
      using free_list_kwait [OF H i] wait by (auto simp: foot_simps)
    then show "dll t (kwait s) []"
      unfolding dt using kl.append_frame [OF L(2) [OF i]] C(1) by (simp add: heap_env_def)
    show "\<exists>k j. A k = Some (Small i) \<and> j < bpa i \<and> c = blk (page (kvp s) k) i j" if "c \<in> set (fl i @ [b])" for c
      using L(3) [OF i, of c] that k by auto
    show "free_in (page (kvp s) m) i (fl i @ [b]) = free_in (page (kvp s) m) i (fl i)" if m: "A m = Some (Small i)" "m \<noteq> k" for m
      using free_in_other [OF heap_core_page(1) [OF H m(1)] block_of_class(1) [OF H k m]] by (simp add: free_in_append)
  qed
qed

subsection \<open>Fresh pages\<close>

lemma page_of_running [simp]: "page_of (running_thread s) = running_thread s"
  using page_of_offset [of "page_of (esp s)" 0] by (simp add: running_thread_page)

text \<open>Mapping more pages keeps the invariant.\<close>

lemma heap_core_mapped:
  assumes H: "heap_core D A fl s" and t: "t = s\<lparr>mem := m, phys := h\<rparr>" and vm: "vm_rep D fr t" "frames_apart D t"
    and use: "bm.in_use (kvb s) (mem s) \<subseteq> bm.in_use (kvb s) (mem t)"
  shows "heap_core D A fl t"
proof -
  note C = heap_coreD [OF H]
  have cls: "cls t = cls s" by (rule cls_cong) (simp add: t)
  have dl: "dll t l xs = dll s l xs" for l xs by (simp add: t dll_def)
  have b: "pool_bits pf t = pool_bits pf s" "running_thread t = running_thread s" for pf
    by (simp_all add: t running_thread_def)
  have "heap_env D A t"
    unfolding heap_env_def cls dl b using C(1) vm use by (auto simp: heap_env_def t below_heap_def)
  moreover have "heap_lists A fl t"
    using C(2) unfolding heap_lists_def cls dl by (simp add: t desc_ok_def)
  moreover have "header t fl a c = header s fl a c" for a c using cls by (cases c) auto
  then have "heap_chunks A fl t"
    using C(3) use unfolding heap_chunks_def by (simp add: t) blast
  ultimately show ?thesis by (simp add: heap_core_def)
qed

lemma not_heap_page:
  assumes H: "heap_core D A fl s" and N: "N \<subseteq> {..<nbits (kvb s)}" "N \<inter> used A = {}"
  shows "below_heap s S \<Longrightarrow> a \<in> S \<Longrightarrow> page_of a \<notin> page (kvp s) ` N"
    and "i < 7 \<Longrightarrow> a \<in> foot (free_list (cls s i)) (fl i) \<Longrightarrow> page_of a \<notin> page (kvp s) ` N"
    and "A m = Some c \<Longrightarrow> page_of (page (kvp s) m) \<notin> page (kvp s) ` N"
proof -
  note C = heap_coreD [OF H]
  show "page_of a \<notin> page (kvp s) ` N" if "below_heap s S" "a \<in> S"
  proof
    assume "page_of a \<in> page (kvp s) ` N"
    then obtain j where "j \<in> N" "page_of a = page (kvp s) j" by blast
    then show False using below_heap_page [OF C(4) that, of j] N(1) by blast
  qed
  show "page_of a \<notin> page (kvp s) ` N" if a: "i < 7" "a \<in> foot (free_list (cls s i)) (fl i)"
  proof
    assume "page_of a \<in> page (kvp s) ` N"
    then obtain j where j: "j \<in> N" "page_of a = page (kvp s) j" by blast
    then have "A j = Some (Small i)" using heap_node_page [OF H a] N(1) by blast
    from chunk_first(5) [OF C(3) this] show False using j(1) N(2) by blast
  qed
  show "page_of (page (kvp s) m) \<notin> page (kvp s) ` N" if m: "A m = Some c"
  proof
    assume "page_of (page (kvp s) m) \<in> page (kvp s) ` N"
    then obtain j where j: "j \<in> N" "page (kvp s) m = page (kvp s) j" using heap_core_page(2) [OF H m] by auto
    then have "m = j" using page_inj [OF C(4) chunk_first(2) [OF C(3) m]] N(1) by blast
    then show False using chunk_first(5) [OF C(3) m] j(1) N(2) by blast
  qed
qed

text \<open>So does clearing pages that belong to no chunk.\<close>

lemma heap_core_cleared:
  assumes H: "heap_core D A fl s" and vm: "vm_rep D fr s"
    and N: "N \<subseteq> {..<nbits (kvb s)}" "N \<inter> used A = {}" "running_thread s \<notin> page (kvp s) ` N"
    and F: "F \<subseteq> frame PF_KERNEL s ` {..<nbits (pool_bits PF_KERNEL s)}" and t: "t = clear_pages (page (kvp s) ` N) F s"
  shows "heap_core D A fl t" and "bm.in_use (kvb s) (mem t) = bm.in_use (kvb s) (mem s)"
proof -
  note C = heap_coreD [OF H] and out = not_heap_page [OF H N(1,2)]
  have E: "frames_apart D s" "below_heap s (bitmaps s)" "dll s (kwait s) []" "below_heap s (foot (kwait s) [])"
    "pgdir (tasks s (running_thread s)) = NULL" "running_thread s \<noteq> NULL"
    "\<And>i. i < nbits (kvb s) \<Longrightarrow> page (kvp s) i = running_thread s \<Longrightarrow> i \<in> bm.in_use (kvb s) (mem s) - used A"
    "\<And>i. i < 7 \<Longrightarrow> below_heap s (insert (cls s i) (foot (free_list (cls s i)) []))"
    using C(1) by (simp_all add: heap_env_def)
  note V = vm_rep_cleared [OF vm E(1,2) image_mono [OF N(1)] F, folded t]
  show use: "bm.in_use (kvb s) (mem t) = bm.in_use (kvb s) (mem s)" by (rule V(3))
  have same: "kvp t = kvp s" "addr_of t = addr_of s" "running_thread t = running_thread s"
    "pool_bits pf t = pool_bits pf s" for pf by (simp_all add: t)
  have cls: "cls t = cls s" using same(2) by (rule cls_cong)
  have below: "below_heap t = below_heap s" using same(1) by (rule below_heap_cong)
  have "dll t (kwait s) []" unfolding t by (rule clear_pages_dll [OF E(3) out(1) [OF E(4)]])
  moreover have "tasks t (running_thread s) = tasks s (running_thread s)"
    unfolding t using N(3) by (intro clear_pages_outside(2)) simp
  ultimately have "heap_env D A t"
    unfolding heap_env_def same below cls use using V(1,2) C(1) by (auto simp: heap_env_def)
  moreover have "heap_lists A fl t"
    unfolding heap_lists_def cls same
  proof (intro allI impI conjI)
    fix i :: nat assume i: "i < 7"
    have "page_of (cls s i) \<notin> page (kvp s) ` N" by (rule out(1) [OF E(8) [OF i]]) simp
    then show "desc_ok t (cls s i) i" using heap_listsD(1) [OF C(2) i] by (simp add: desc_ok_def clear_pages_outside t)
    show "dll t (free_list (cls s i)) (fl i)"
      unfolding t by (rule clear_pages_dll [OF heap_listsD(2) [OF C(2) i] out(2) [OF i]])
    show "\<forall>b\<in>set (fl i). \<exists>k j. A k = Some (Small i) \<and> j < bpa i \<and> b = blk (page (kvp s) k) i j"
      using heap_listsD(3) [OF C(2) i] by blast
  qed
  moreover have "arenas t (page (kvp s) m) = header t fl (page (kvp s) m) c" if m: "A m = Some c" for m c
  proof -
    have "arenas t (page (kvp s) m) = header s fl (page (kvp s) m) c"
      using heap_chunksD(3) [OF C(3) m] out(3) [OF m] by (simp add: clear_pages_outside t)
    then show ?thesis using cls by (cases c) auto
  qed
  then have "heap_chunks A fl t" using C(3) unfolding heap_chunks_def same use by blast
  ultimately show "heap_core D A fl t" by (simp add: heap_core_def)
qed

text \<open>\<open>malloc_page\<close> followed by \<open>memset\<close>: the invariant holds and the new pages belong to no chunk.\<close>

definition same_lock_state :: "'e kernel_scheme \<Rightarrow> 'e kernel_scheme \<Rightarrow> bool" where
  "same_lock_state s t \<longleftrightarrow> kvp t = kvp s \<and> addr_of t = addr_of s \<and> esp t = esp s \<and> sema_value t = sema_value s \<and>
     lock_holder t = lock_holder s \<and> lock_repeat t = lock_repeat s"

text \<open>What an allocation of the pages \<open>N\<close> makes of the state: the pages are mapped to frames \<open>F\<close> that were free
  and both are cleared; apart from them only the two bitmaps and the page tables \<open>D\<close> change.\<close>

definition granted ::
    "u32 set \<Rightarrow> nat set \<Rightarrow> u32 set \<Rightarrow> bytes \<Rightarrow> (u32 \<Rightarrow> u32) \<Rightarrow> 'e kernel_scheme \<Rightarrow> 'e kernel_scheme \<Rightarrow> bool" where
  "granted D N F m h s u \<longleftrightarrow>
     u = clear_pages (page (kvp s) ` N) F (s\<lparr>mem := m, phys := h\<rparr>) \<and>
     F \<subseteq> frame PF_KERNEL s ` ({..<nbits (pool_bits PF_KERNEL s)} - bm.in_use (pool_bits PF_KERNEL s) (mem s)) \<and>
     (\<forall>a. a \<notin> bitmaps s \<longrightarrow> m a = mem s a) \<and>
     (\<forall>a. page_of a \<notin> page_of ` dir_entry s ` D \<longrightarrow> h a = phys s a) \<and>
     (\<forall>d. unat d < 1024 \<longrightarrow> dir_entry u d = dir_entry s d) \<and>
     (\<forall>i\<in>N. \<exists>f\<in>F. translate u (page (kvp s) i) = Some f) \<and>
     (\<forall>v. PDE_IDX v \<in> D \<longrightarrow> page_of v \<notin> page (kvp s) ` N \<longrightarrow> translate u v = translate s v)"

lemma alloc_granted:
  assumes H: "heap_core D A fl s" and n: "n \<noteq> 0" "n < 3840" and k: "first_fit (kvb s) (unat n) (mem s) = Some k"
    and b: "b = pool_bits PF_KERNEL s" and room: "unat n \<le> card ({..<nbits b} - bm.in_use b (mem s))"
    and N: "N = {k..<k + unat n}"
  obtains t u F m h where "malloc_page PF_KERNEL n s = Ok (page (kvp s) k) t"
    "memset_pages (page (kvp s) k) n t = Ok () u" "heap_core D A fl u" "granted D N F m h s u"
    "bm.in_use (kvb s) (mem u) = bm.in_use (kvb s) (mem s) \<union> N" "N \<inter> bm.in_use (kvb s) (mem s) = {}"
    "bm.in_use b (mem u) = bm.in_use b (mem s) \<union> {i. i < nbits b \<and> frame PF_KERNEL s i \<in> F}" "card F = unat n"
    "k + unat n \<le> nbits (kvb s)"
proof -
  note C = heap_coreD [OF H]
  obtain fr where vm: "vm_rep D fr s" "frames_apart D s" "below_heap s (bitmaps s)" using heap_env_vm [OF C(1)] .
  let ?vp = "kvp s" and ?vb = "kvb s"
  obtain t fs where t: "malloc_page PF_KERNEL n s = Ok (page ?vp k) t" "length fs = unat n"
      "mapped_run PF_KERNEL D ?vp k fs (s\<lparr>mem := bm.mark_run ?vb k (unat n) True (mem s)\<rparr>) t"
    using malloc_page_kernel [OF vm(1) n refl refl b k room] by blast
  have free: "N \<inter> bm.in_use ?vb (mem s) = {}" using bm.fit_fresh [OF k] N by auto
  have kn: "k + unat n \<le> nbits ?vb" using bm.fit_Some [OF k] by simp
  note W = vm_rep_mapped [OF vm(1) refl refl b kn [folded t(2)] free [unfolded N, folded t(2)] refl t(3) [folded t(2)]]
  define fr' where "fr' = (\<lambda>i. if k \<le> i \<and> i < k + length fs then fs ! (i - k) else fr i)"
  have M: "vm_rep D fr' t" "bm.in_use ?vb (mem t) = bm.in_use ?vb (mem s) \<union> N"
    using W(1) W(2) [unfolded t(2)] N by (simp_all add: fr'_def)
  have "map fr' [k..<k + length fs] = fs" by (rule nth_equalityI) (simp_all add: fr'_def)
  from arg_cong [OF this, of set] have im: "fr' ` N = set fs" by (simp only: set_map set_upt N t(2))
  obtain m h where th: "t = s\<lparr>mem := m, phys := h\<rparr>" using t(3) by (auto simp: mapped_run_def)
  have "dir_entry t d = dir_entry s d" if "d \<in> D" for d
    using t(3) that vm_repD(3) [OF vm(1) refl refl refl] by (simp add: mapped_run_def ptabs_def)
  then have fa: "frames_apart D t"
    using vm(2) by (simp add: frames_apart_def th pool_bits_def pool_of_def frame_def)
  have bt: "below_heap t (bitmaps t)" using vm(3) by (simp add: below_heap_def th pool_bits_def pool_of_def)
  have Ht: "heap_core D A fl t" using M(2) by (intro heap_core_mapped [OF H th M(1) fa]) blast
  let ?F = "frame PF_KERNEL t ` fr' ` N"
  have "0 < unat n" using n(1) by (simp add: unat_gt_0)
  then have "page ?vp k \<noteq> 0" using page_props(4) [OF C(4)] kn by simp
  then have ms: "memset_pages (page ?vp k) n t = Ok () (clear_pages (page (kvp t) ` N) ?F t)"
    using memset_run [OF M(1) fa bt, of ?vp k "unat n"] kn M(2) N by (simp add: memset_pages_def th)
  have use: "used A \<subseteq> bm.in_use ?vb (mem s)" using heap_chunksD(2) [OF C(3)] by (auto simp: used_def)
  have rt: "running_thread t \<notin> page (kvp t) ` N"
  proof
    assume "running_thread t \<in> page (kvp t) ` N"
    then obtain j where j: "j \<in> N" "page ?vp j = running_thread s" by (auto simp: th running_thread_def)
    then have "j \<in> bm.in_use ?vb (mem s)" using C(1) kn N by (auto simp: heap_env_def)
    then show False using j(1) free by blast
  qed
  have F: "?F \<subseteq> frame PF_KERNEL t ` {..<nbits (pool_bits PF_KERNEL t)}"
  proof -
    have "N \<subseteq> bm.in_use (kvb t) (mem t)" using M(2) by (simp add: th)
    then have "fr' ` N \<subseteq> {..<nbits (pool_bits PF_KERNEL t)}"
      using vm_repD(8) [OF M(1) refl refl refl] by (auto simp: bm.in_use_def)
    then show ?thesis by (rule image_mono)
  qed
  have "N \<subseteq> {..<nbits (kvb t)}" "N \<inter> used A = {}" using kn N use free by (auto simp: th)
  note U = heap_core_cleared [OF Ht M(1) this rt F refl]
  let ?u = "clear_pages (page (kvp t) ` N) ?F t"
  show ?thesis
  proof (rule that [OF t(1) ms U(1) _ _ free _ _ kn])
    show "bm.in_use ?vb (mem ?u) = bm.in_use ?vb (mem s) \<union> N" using U(2) M(2) by (simp add: th)
    note V = vm_rep_cleared [OF M(1) fa bt image_mono [OF \<open>N \<subseteq> {..<nbits (kvb t)}\<close>] F]
    have fs: "distinct fs" "set fs \<subseteq> {..<nbits b} - bm.in_use b (mem s)"
      and mf: "\<forall>a. a \<notin> bitmaps s \<longrightarrow> m a = mem s a"
      and dt: "\<forall>d. unat d < 1024 \<longrightarrow> dir_entry t d = dir_entry s d"
      and to: "\<forall>v. PDE_IDX v \<in> D \<longrightarrow> (\<forall>i<unat n. page_of v \<noteq> page ?vp (k + i)) \<longrightarrow> translate t v = translate s v"
      using t(3) in_use_other [OF kn vm_repD(4) [OF vm(1) refl refl refl]] mark_run_frame [OF kn]
      by (simp_all add: mapped_run_def t(2) b th)
    have "\<forall>i<length fs. PDE_IDX (page ?vp (k + i)) \<in> D"
      using vm_repD(5) [OF vm(1) refl refl refl] kn t(2) by simp
    then have pf: "\<forall>a. page_of a \<notin> page_of ` dir_entry s ` D \<longrightarrow> h a = phys s a"
      using mapped_run_tables [OF t(3)] by (simp add: th)
    have fe: "frame PF_KERNEL t = frame PF_KERNEL s" by (simp add: th frame_def [abs_def] pool_of_def)
    have R: "pools_ok s" using vm_repD(1) [OF vm(1) refl refl refl] .
    have inj: "inj_on (frame PF_KERNEL s) {..<nbits b}"
      using frame_inj [OF R] b by (auto intro: inj_onI)
    show "card ?F = unat n"
      unfolding im fe using fs t(2) inj by (subst card_image) (auto intro: inj_on_subset simp: distinct_card)
    have "{i. i < nbits b \<and> frame PF_KERNEL s i \<in> ?F} = set fs"
      unfolding im fe using fs(2) inj by (auto dest: inj_onD)
    then show "bm.in_use b (mem ?u) = bm.in_use b (mem s) \<union> {i. i < nbits b \<and> frame PF_KERNEL s i \<in> ?F}"
      using V(4) W(3) b by (simp add: th pool_bits_def pool_of_def)
    have ph: "\<forall>a. page_of a = cr3 t \<or> page_of a \<in> page_of ` dir_entry t ` D \<longrightarrow> phys ?u a = phys t a"
    proof (intro allI impI clear_pages_outside(8) notI)
      fix a assume a: "page_of a = cr3 t \<or> page_of a \<in> page_of ` dir_entry t ` D" "page_of a \<in> ?F"
      then obtain x where "x < nbits (pool_bits PF_KERNEL t)" "page_of a = frame PF_KERNEL t x" using F by blast
      then show False using a(1) fa by (auto simp: frames_apart_def)
    qed
    have "dir_entry ?u d = dir_entry s d" if "unat d < 1024" for d
      using tables_kept(2) [OF vm_repD(3) [OF M(1) refl refl refl] clear_pages_fields(3) ph that] dt that by simp
    moreover have "\<exists>f\<in>?F. translate ?u (page ?vp i) = Some f" if "i \<in> N" for i
    proof -
      have i: "i < nbits (kvb t)" "i \<in> bm.in_use (kvb t) (mem t)" using that kn N M(2) by (simp_all add: th)
      then have "translate t (page ?vp i) = Some (frame PF_KERNEL t (fr' i))"
        using vm_repD(6) [OF M(1) refl refl refl i(1)] by (simp add: bm.in_use_def th)
      moreover have "translate ?u (page ?vp i) = translate t (page ?vp i)"
        using vm_repD(5) [OF M(1) refl refl refl i(1)] by (intro V(5)) (simp add: th)
      ultimately show ?thesis using that by auto
    qed
    moreover have "translate ?u v = translate s v" if "PDE_IDX v \<in> D" "page_of v \<notin> page ?vp ` N" for v
    proof -
      have "\<forall>i<unat n. page_of v \<noteq> page ?vp (k + i)" using that(2) N by auto
      then show ?thesis using V(5) [OF that(1)] to that(1) by simp
    qed
    moreover have "?F \<subseteq> frame PF_KERNEL s ` ({..<nbits b} - bm.in_use b (mem s))"
      unfolding im fe using fs(2) by (rule image_mono)
    ultimately show "granted D N ?F m h s ?u"
      unfolding granted_def using pf mf b by (simp add: th)
  qed
qed

lemma alloc_core:
  assumes H: "heap_core D A fl s" and n: "n \<noteq> 0" "n < 3840" and k: "first_fit (kvb s) (unat n) (mem s) = Some k"
    and b: "b = pool_bits PF_KERNEL s" and room: "unat n \<le> card ({..<nbits b} - bm.in_use b (mem s))"
    and N: "N = {k..<k + unat n}"
  obtains t u where "malloc_page PF_KERNEL n s = Ok (page (kvp s) k) t"
    "memset_pages (page (kvp s) k) n t = Ok () u" "heap_core D A fl u"
    "bm.in_use (kvb s) (mem u) = bm.in_use (kvb s) (mem s) \<union> N" "N \<inter> bm.in_use (kvb s) (mem s) = {}"
    "k + unat n \<le> nbits (kvb s)" "same_lock_state s u"
proof -
  obtain t u F m h where a: "malloc_page PF_KERNEL n s = Ok (page (kvp s) k) t"
    "memset_pages (page (kvp s) k) n t = Ok () u" "heap_core D A fl u" "granted D N F m h s u"
    "bm.in_use (kvb s) (mem u) = bm.in_use (kvb s) (mem s) \<union> N" "N \<inter> bm.in_use (kvb s) (mem s) = {}"
    "bm.in_use b (mem u) = bm.in_use b (mem s) \<union> {i. i < nbits b \<and> frame PF_KERNEL s i \<in> F}" "card F = unat n"
    "k + unat n \<le> nbits (kvb s)"
    by (rule alloc_granted [OF assms])
  have "same_lock_state s u" using a(4) by (simp add: granted_def same_lock_state_def)
  then show ?thesis by (rule that [OF a(1-3,5,6,9)])
qed

subsection \<open>Adding a chunk\<close>

lemma cls_arenas [simp]: "cls (s\<lparr>arenas := x\<rparr>) = cls s"
  by (rule cls_cong) simp

lemma used_add:
  assumes "A k = None"
  shows "used (A(k \<mapsto> c)) = used A \<union> run c k"
proof (intro equalityI subsetI)
  fix p assume "p \<in> used (A(k \<mapsto> c))"
  then obtain m d where "(A(k \<mapsto> c)) m = Some d" "p \<in> run d m" unfolding used_def by blast
  then show "p \<in> used A \<union> run c k" by (cases "m = k") (auto simp: used_def)
next
  fix p assume "p \<in> used A \<union> run c k"
  moreover have "p \<in> used (A(k \<mapsto> c))" if p: "p \<in> used A"
  proof -
    obtain m d where m: "A m = Some d" "p \<in> run d m" using p unfolding used_def by blast
    then have "(A(k \<mapsto> c)) m = Some d" using assms by auto
    then show ?thesis using m(2) unfolding used_def by blast
  qed
  moreover have "(A(k \<mapsto> c)) k = Some c" by simp
  ultimately show "p \<in> used (A(k \<mapsto> c))" unfolding used_def by blast
qed

lemma heap_core_add:
  assumes H: "heap_core D A fl s" and c: "chunk_wf c" and r: "run c k \<subseteq> bm.in_use (kvb s) (mem s)" "run c k \<inter> used A = {}"
    and rt: "running_thread s \<notin> page (kvp s) ` run c k"
    and t: "t = s\<lparr>arenas := (arenas s)(page (kvp s) k := header s fl (page (kvp s) k) c)\<rparr>"
  shows "heap_core D (A(k \<mapsto> c)) fl t"
proof -
  note C = heap_coreD [OF H]
  have k: "k \<in> run c k" using c by (cases c) (auto simp: run_def)
  have kb: "k < nbits (kvb s)" using k r(1) by (auto simp: bm.in_use_def)
  have new: "A k = None" using chunk_first(5) [OF C(3)] k r(2) by (cases "A k") auto
  have A': "(A(k \<mapsto> c)) m = Some d \<longleftrightarrow> (m = k \<and> d = c) \<or> (m \<noteq> k \<and> A m = Some d)" for m d by auto
  have use: "used (A(k \<mapsto> c)) = used A \<union> run c k"  using new by (rule used_add)
  have cls: "cls t = cls s" by (rule cls_cong) (simp add: t)
  have dl: "dll t l xs = dll s l xs" for l xs by (simp add: t dll_def)
  have same: "kvp t = kvp s" "mem t = mem s" "running_thread t = running_thread s" by (simp_all add: t running_thread_def)
  have "heap_env D A t" using C(1) by (intro heap_env_cong [OF C(1)]) (simp_all add: t heap_env_def dll_def)
  then have "heap_env D (A(k \<mapsto> c)) t"
    using rt unfolding heap_env_def use same by (auto simp: image_iff)
  moreover have "heap_lists (A(k \<mapsto> c)) fl t"
    unfolding heap_lists_def
  proof (intro allI impI conjI ballI)
    fix i :: nat assume i: "i < 7"
    show "desc_ok t (cls t i) i" "dll t (free_list (cls t i)) (fl i)"
      unfolding cls dl using heap_listsD(1,2) [OF C(2) i] by (simp_all add: desc_ok_def t)
    show "\<exists>m j. (A(k \<mapsto> c)) m = Some (Small i) \<and> j < bpa i \<and> b = blk (page (kvp t) m) i j" if b: "b \<in> set (fl i)" for b
    proof -
      obtain m j where m: "A m = Some (Small i)" "j < bpa i" "b = blk (page (kvp s) m) i j"
        using heap_listsD(3) [OF C(2) i b] by blast
      then have "m \<noteq> k" using new by auto
      then show ?thesis using m unfolding same by (intro exI [of _ m] exI [of _ j]) simp
    qed
  qed
  moreover have "heap_chunks (A(k \<mapsto> c)) fl t"
  proof -
    have hd: "header t fl a d = header s fl a d" for a d using cls by (cases d) auto
    have "page (kvp s) m \<noteq> page (kvp s) k" if "A m = Some d" "m \<noteq> k" for m d
      using page_inj [OF C(4) chunk_first(2) [OF C(3) that(1)] kb] that(2) by simp
    then have "arenas t (page (kvp s) m) = header s fl (page (kvp s) m) d" if "(A(k \<mapsto> c)) m = Some d" for m d
      using that heap_chunksD(3) [OF C(3)] unfolding A' by (auto simp: t)
    moreover have "run c k \<inter> run d m = {}" if "A m = Some d" for m d using r(2) that by (auto simp: used_def)
    ultimately show ?thesis
      using heap_chunksD(1,2,4) [OF C(3)] c r(1) unfolding heap_chunks_def A' same hd by (metis inf_commute)
  qed
  ultimately show ?thesis by (simp add: heap_core_def)
qed

lemma fold_append_nodes: "\<exists>nn np. fold (list_append l) bs s = s\<lparr>node_next := nn, node_prev := np\<rparr>"
proof (induction bs arbitrary: s)
  case Nil
  show ?case by (intro exI [of _ "node_next s"] exI [of _ "node_prev s"]) simp
next
  case (Cons b bs)
  obtain nn np where "list_append l b s = s\<lparr>node_next := nn, node_prev := np\<rparr>" by (simp add: list_ops_upd)
  then show ?case using Cons [of "list_append l b s"] by auto
qed

lemma free_in_all: "free_in a i (map (blk a i) [0..<bpa i]) = {..<bpa i}"
  by (auto simp: free_in_def)

text \<open>Filling the free list of a new arena: the state before is the one after \<open>memset\<close> with the header
  written.\<close>

lemma fill_core:
  assumes H: "heap_core D A fl s" and i: "i < 7" "fl i = []" and r: "k \<in> bm.in_use (kvb s) (mem s)" "k \<notin> used A"
    and rt: "running_thread s \<noteq> page (kvp s) k" and a: "a = page (kvp s) k" and bs: "bs = map (blk a i) [0..<bpa i]"
    and s': "s' = s\<lparr>arenas := (arenas s)(a := \<lparr>arena_desc = cls s i, arena_cnt = of_nat (bpa i), arena_large = 0\<rparr>)\<rparr>"
    and t: "t = s'\<lparr>node_next := nn, node_prev := np\<rparr>" and f: "fold (list_append (free_list (cls s i))) bs s' = t"
  shows "heap_core D (A(k \<mapsto> Small i)) (fl(i := bs)) t"
proof -
  let ?l = "free_list (cls s i)"
  let ?u = "s\<lparr>arenas := (arenas s)(page (kvp s) k := header s fl (page (kvp s) k) (Small i))\<rparr>"
  have run: "run (Small i) k = {k}" by (auto simp: run_def)
  have U: "heap_core D (A(k \<mapsto> Small i)) fl ?u"
    using i r rt run by (intro heap_core_add [OF H]) auto
  have cls: "cls ?u = cls s" by (rule cls_cong) simp
  have al: "page_aligned a" using heap_core_page(1) [OF U, of k] a by simp
  have kb: "k < nbits (kvb s)" using r(1) by (simp add: bm.in_use_def)
  have pg: "page_of c = a" if c: "c \<in> set bs" for c
  proof -
    obtain j where "j < bpa i" "c = blk a i j" using c bs by auto
    then show ?thesis using page_of_blk [OF al] by simp
  qed
  have fresh: "c \<notin> foot (free_list (cls s j)) (fl j)" if "c \<in> set bs" "j < 7" for c j
  proof
    assume "c \<in> foot (free_list (cls s j)) (fl j)"
    from heap_node_page [OF H that(2) this kb] pg [OF that(1)] a have "A k = Some (Small j)" by simp
    then show False using chunk_first(5) [OF heap_coreD(3) [OF H]] r(2) by blast
  qed
  have w: "c \<notin> foot (kwait s) []" if "c \<in> set bs" for c
    using below_heap_page [OF heap_coreD(4) [OF H] _ _ kb, of "foot (kwait s) []" c] heap_coreD(1) [OF H] pg [OF that] a
    by (auto simp: heap_env_def)
  have di: "distinct bs"
    unfolding bs using blk_inj [OF al] by (auto simp: distinct_map inj_on_def)
  have ds: "dll s' l xs = dll s l xs" for l xs by (simp add: s' dll_def)
  have L: "dll s' ?l []" "set bs \<inter> foot ?l [] = {}"
    using heap_listsD(2) [OF heap_coreD(2) [OF H] i(1)] fresh [OF _ i(1)] i(2) by (auto simp: ds)
  have fr: "dll t l xs" if "dll s l xs" "foot ?l [] \<inter> foot l xs = {}" "set bs \<inter> foot l xs = {}" for l xs
    unfolding f [symmetric] using that
    by (intro kl.append_all_frame [OF L(1) di L(2)]) (auto simp: ds span_def)
  have tt: "t = ?u\<lparr>node_next := nn, node_prev := np, arenas := (arenas ?u)(a := header ?u (fl(i := bs)) a (Small i))\<rparr>"
    unfolding t s' a by (simp add: cls bs [unfolded a] free_in_all)
  show ?thesis
  proof (rule heap_core_relist [OF U i(1) _ _ tt])
    show "dll t (free_list (cls ?u j)) ((fl(i := bs)) j)" if j: "j < 7" for j
    proof (cases "j = i")
      case True
      then show ?thesis using kl.append_all [OF L(1) di L(2)] f by (simp add: cls)
    next
      case False
      have "foot ?l [] \<inter> foot (free_list (cls s j)) (fl j) = {}" using free_lists_apart [OF H i(1) j] False i(2) by simp
      then show ?thesis
        using fr [OF heap_listsD(2) [OF heap_coreD(2) [OF H] j]] fresh [OF _ j] False by (auto simp: cls)
    qed
    show "dll t (kwait ?u) []"
      using fr [of "kwait s" "[]"] free_list_kwait [OF H i(1)] i(2) heap_coreD(1) [OF H] w by (auto simp: heap_env_def)
    show "\<exists>m j. (A(k \<mapsto> Small i)) m = Some (Small i) \<and> j < bpa i \<and> b = blk (page (kvp ?u) m) i j" if b: "b \<in> set bs" for b
    proof -
      obtain j where "j < bpa i" "b = blk a i j" using b bs by auto
      then show ?thesis using a by (intro exI [of _ k] exI [of _ j]) simp
    qed
    show "free_in (page (kvp ?u) m) i bs = free_in (page (kvp ?u) m) i (fl i)"
      if m: "(A(k \<mapsto> Small i)) m = Some (Small i)" "m \<noteq> k" for m
    proof -
      have m': "A m = Some (Small i)" using m by simp
      have "page (kvp s) m \<noteq> a"
        using page_inj [OF heap_coreD(4) [OF H] chunk_first(2) [OF heap_coreD(3) [OF H] m'] kb] m(2) a by simp
      then have "blk (page (kvp s) m) i j \<notin> set bs" if "j < bpa i" for j
        using pg [of "blk (page (kvp s) m) i j"] page_of_blk [OF heap_core_page(1) [OF H m'] that] by auto
      then show ?thesis using i(2) by (auto simp: free_in_def)
    qed
  qed (simp_all add: a)
qed

subsection \<open>Removing a chunk\<close>

lemma heap_core_remove:
  assumes H: "heap_core D A fl s" and k: "A k = Some c" and vm: "vm_rep D fr t" "frames_apart D t"
    and use: "bm.in_use (kvb s) (mem t) = bm.in_use (kvb s) (mem s) - run c k"
    and same: "kvp t = kvp s" "addr_of t = addr_of s" "esp t = esp s" "tasks t = tasks s" "arenas t = arenas s"
      "desc_block_size t = desc_block_size s" "desc_blocks_per_arena t = desc_blocks_per_arena s"
      "kernel_mem_pool t = kernel_mem_pool s"
    and w: "dll t (kwait s) []" and d: "\<And>i. i < 7 \<Longrightarrow> dll t (free_list (cls s i)) (fl' i)"
    and fl': "\<And>i. i < 7 \<Longrightarrow> set (fl' i) = {b \<in> set (fl i). page_of b \<noteq> page (kvp s) k}"
  shows "heap_core D (A(k := None)) fl' t"
proof -
  note C = heap_coreD [OF H]
  let ?A = "A(k := None)"
  have cls: "cls t = cls s" using same(2) by (rule cls_cong)
  have below: "below_heap t = below_heap s" using same(1) by (rule below_heap_cong)
  have r: "running_thread t = running_thread s" using same(3) by (rule running_thread_cong)
  have b: "pool_bits PF_KERNEL t = pool_bits PF_KERNEL s" using same(8) by (simp add: pool_bits_def pool_of_def)
  have kb: "k < nbits (kvb s)" by (rule chunk_first(2) [OF C(3) k])
  have u: "used ?A \<subseteq> used A" "run c k \<subseteq> used A" using k by (auto simp: used_def split: if_splits)
  have "heap_env D ?A t"
    unfolding heap_env_def same(1,2,4) cls below r b use using C(1) vm w u by (auto simp: heap_env_def)
  moreover have "heap_lists ?A fl' t"
    unfolding heap_lists_def same(1) cls
  proof (intro allI impI conjI ballI)
    fix i :: nat assume i: "i < 7"
    show "desc_ok t (cls s i) i" using heap_listsD(1) [OF C(2) i] by (simp add: desc_ok_def same)
    show "dll t (free_list (cls s i)) (fl' i)" by (rule d [OF i])
    fix b assume "b \<in> set (fl' i)"
    then have bb: "b \<in> set (fl i)" "page_of b \<noteq> page (kvp s) k" using fl' [OF i] by auto
    obtain m j where m: "A m = Some (Small i)" "j < bpa i" "b = blk (page (kvp s) m) i j"
      using heap_listsD(3) [OF C(2) i bb(1)] by blast
    then have "m \<noteq> k" using bb(2) page_of_blk [OF heap_core_page(1) [OF H m(1)] m(2)] by auto
    then show "\<exists>m j. ?A m = Some (Small i) \<and> j < bpa i \<and> b = blk (page (kvp s) m) i j"
      using m by (intro exI [of _ m] exI [of _ j]) simp
  qed
  moreover have "heap_chunks ?A fl' t"
  proof -
    have A': "?A m = Some e \<longleftrightarrow> m \<noteq> k \<and> A m = Some e" for m e by auto
    have "header t fl' (page (kvp s) m) e = header s fl (page (kvp s) m) e" if m: "A m = Some e" "m \<noteq> k" for m e
    proof (cases e)
      case (Small i)
      have i: "i < 7" using heap_chunksD(1) [OF C(3) m(1)] Small by simp
      have "page (kvp s) m \<noteq> page (kvp s) k" using page_inj [OF C(4) chunk_first(2) [OF C(3) m(1)] kb] m(2) by simp
      then have "free_in (page (kvp s) m) i (fl' i) = free_in (page (kvp s) m) i (fl i)"
        using page_of_blk [OF heap_core_page(1) [OF H m(1)], of _ i] fl' [OF i] by (auto simp: free_in_def)
      then show ?thesis using Small cls by simp
    qed simp
    moreover have "run e m \<subseteq> bm.in_use (kvb s) (mem s) - run c k" if m: "A m = Some e" "m \<noteq> k" for m e
      using heap_chunksD(2) [OF C(3) m(1)] heap_chunksD(4) [OF C(3) k m] by blast
    ultimately show ?thesis
      using heap_chunksD(1,3,4) [OF C(3)] unfolding heap_chunks_def A' same(1,5) use by metis
  qed
  ultimately show ?thesis by (simp add: heap_core_def)
qed

text \<open>\<open>mfree_page\<close> of the pages of a chunk.\<close>

lemma mfree_core:
  assumes H: "heap_core D A fl s" and k: "A k = Some c" and n: "unat n = npages c"
    and s': "s' = s\<lparr>node_next := nn, node_prev := np\<rparr>"
    and w: "dll s' (kwait s) []" and d: "\<And>i. i < 7 \<Longrightarrow> dll s' (free_list (cls s i)) (fl' i)"
    and fl': "\<And>i. i < 7 \<Longrightarrow> set (fl' i) = {b \<in> set (fl i). page_of b \<noteq> page (kvp s) k}"
  obtains t where "mfree_page PF_KERNEL (page (kvp s) k) n s' = Ok () t" "heap_core D (A(k := None)) fl' t"
    "same_lock_state s t"
proof -
  note C = heap_coreD [OF H]
  obtain fr where vm0: "vm_rep D fr s" "frames_apart D s" using heap_env_vm [OF C(1)] .
  have vm: "vm_rep D fr s'" by (rule vm_rep_cong [OF vm0(1)]) (simp_all add: s')
  have eq: "kvp s' = kvp s" "mem s' = mem s" by (simp_all add: s')
  have run: "run c k = {k..<k + unat n}" by (simp add: run_def n)
  have n0: "n \<noteq> 0" using heap_chunksD(1) [OF C(3) k] n by (cases c) auto
  have kn: "k + unat n \<le> nbits (kvb s)" "{k..<k + unat n} \<subseteq> bm.in_use (kvb s) (mem s)"
    using chunk_first(4) [OF C(3) k] heap_chunksD(2) [OF C(3) k] n run by simp_all
  obtain u where u: "mfree_page PF_KERNEL (page (kvp s) k) n s' =
        Ok () (u\<lparr>mem := bm.mark_run (kvb s) k (unat n) False (mem u)\<rparr>)"
      "unmapped_run PF_KERNEL D (kvp s) k (map fr [k..<k + unat n]) s' u"
    using mfree_page_runs [OF vm refl refl refl n0, unfolded eq, OF kn] by blast
  let ?t = "u\<lparr>mem := bm.mark_run (kvb s) k (unat n) False (mem u)\<rparr>"
  note U = vm_rep_unmapped [OF vm refl refl refl, unfolded eq, OF kn u(2) refl]
  obtain m h l where t: "?t = s'\<lparr>phys := h, invlpgs := l, mem := m\<rparr>" using U(4) by blast
  have "dir_entry ?t d = dir_entry s d" if "d \<in> D" for d
    using u(2) that vm_repD(3) [OF vm refl refl refl] by (simp add: unmapped_run_def ptabs_def s' dir_entry_def)
  then have fa: "frames_apart D ?t"
    using vm0(2) unfolding t by (simp add: frames_apart_def pool_bits_def pool_of_def frame_def s')
  have dt: "dll ?t l xs = dll s' l xs" for l xs unfolding t by (simp add: dll_def)
  have "heap_core D (A(k := None)) fl' ?t"
  proof (rule heap_core_remove [OF H k U(1) fa])
    show "bm.in_use (kvb s) (mem ?t) = bm.in_use (kvb s) (mem s) - run c k" using U(2) run by simp
    show "dll ?t (kwait s) []" "\<And>i. i < 7 \<Longrightarrow> dll ?t (free_list (cls s i)) (fl' i)" unfolding dt using w d by simp_all
  qed (use fl' in \<open>simp_all add: t s'\<close>)
  moreover have "same_lock_state s ?t" unfolding t s' by (simp add: same_lock_state_def)
  ultimately show ?thesis using u(1) that by blast
qed

subsection \<open>The live blocks\<close>

lemma live_cong: "kvp t = kvp s \<Longrightarrow> live A fl t = live A fl s"
  by (simp add: live_def)

lemma live_small_iff:
  assumes H: "heap_core D A fl s" and k: "A k = Some (Small i)" "j < bpa i" "b = blk (page (kvp s) k) i j"
  shows "(b, n) \<in> live A fl s \<longleftrightarrow> n = bsz i \<and> b \<notin> set (fl i)"
proof -
  note C = heap_coreD [OF H]
  have p: "page_of b = page (kvp s) k" using page_of_blk [OF heap_core_page(1) [OF H k(1)] k(2)] k(3) by simp
  have same: "m = k" if "A m = Some c" "page_of b = page (kvp s) m" for m c
    using page_inj [OF C(4) chunk_first(2) [OF C(3) that(1)] chunk_first(2) [OF C(3) k(1)]] that(2) p by simp
  have "page_of (page (kvp s) m + 12) = page (kvp s) m" if "A m = Some c" for m c
    using heap_core_page(1) [OF H that] by (intro page_of_offset) simp_all
  then have large: "b \<noteq> page (kvp s) m + 12" if "A m = Some (Large c)" for m c
    using same [OF that] that k(1) by auto
  have small: "m = k \<and> e = i" if "A m = Some (Small e)" "b = blk (page (kvp s) m) e l" "l < bpa e" for m e l
    using same [OF that(1)] page_of_blk [OF heap_core_page(1) [OF H that(1)] that(3)] that(1,2) k(1) by auto
  show ?thesis
  proof
    assume "(b, n) \<in> live A fl s"
    then show "n = bsz i \<and> b \<notin> set (fl i)" using large small by (auto simp: live_def)
  next
    assume "n = bsz i \<and> b \<notin> set (fl i)"
    then show "(b, n) \<in> live A fl s" using k by (auto simp: live_def)
  qed
qed

lemma liveI:
  "A k = Some (Small i) \<Longrightarrow> j < bpa i \<Longrightarrow> b = blk (page (kvp s) k) i j \<Longrightarrow> b \<notin> set (fl i) \<Longrightarrow> (b, bsz i) \<in> live A fl s"
  "A k = Some (Large n) \<Longrightarrow> (page (kvp s) k + 12, n * 4096 - 12) \<in> live A fl s"
  by (auto simp: live_def)

lemma liveE:
  assumes "x \<in> live A fl s"
  obtains (small) k i j where "A k = Some (Small i)" "j < bpa i" "x = (blk (page (kvp s) k) i j, bsz i)"
      "blk (page (kvp s) k) i j \<notin> set (fl i)"
    | (large) k n where "A k = Some (Large n)" "x = (page (kvp s) k + 12, n * 4096 - 12)"
  using assms by (auto simp: live_def)

lemma live_pop:
  assumes "A k = Some (Small i)" and "j < bpa i" and "b = blk (page (kvp s) k) i j" and "fl i = b # bs" and "b \<notin> set bs"
  shows "live A (fl(i := bs)) s = insert (b, bsz i) (live A fl s)"
proof (intro equalityI subsetI)
  fix x assume "x \<in> live A (fl(i := bs)) s"
  then show "x \<in> insert (b, bsz i) (live A fl s)"
  proof (cases rule: liveE)
    case (small m e l)
    then show ?thesis using assms(4) by (cases "e = i") (auto intro: liveI)
  qed (auto intro: liveI)
next
  fix x assume x: "x \<in> insert (b, bsz i) (live A fl s)"
  show "x \<in> live A (fl(i := bs)) s"
  proof (cases "x = (b, bsz i)")
    case True
    then show ?thesis using assms by (auto intro: liveI)
  next
    case False
    then have "x \<in> live A fl s" using x by simp
    then show ?thesis
    proof (cases rule: liveE)
      case (small m e l)
      then show ?thesis using assms(4) by (cases "e = i") (auto intro: liveI)
    qed (auto intro: liveI)
  qed
qed

lemma bsz_inj: "bsz i = bsz j \<longleftrightarrow> i = j"
  by (simp add: bsz_def)

lemma live_append:
  assumes H: "heap_core D A fl s" and k: "A k = Some (Small i)" "j < bpa i" "b = blk (page (kvp s) k) i j"
  shows "live A (fl(i := fl i @ [b])) s = live A fl s - {(b, bsz i)}"
proof -
  have i: "bsz i \<le> 1024" using heap_chunksD(1) [OF heap_coreD(3) [OF H] k(1)] bsz_bounds(2) by simp
  have lg: "n * 4096 - 12 \<noteq> bsz i" if "A m = Some (Large n)" for m n
    using heap_chunksD(1) [OF heap_coreD(3) [OF H] that] i by auto
  show ?thesis
  proof (intro equalityI subsetI)
    fix x assume "x \<in> live A (fl(i := fl i @ [b])) s"
    then show "x \<in> live A fl s - {(b, bsz i)}"
    proof (cases rule: liveE)
      case (small m e l)
      then show ?thesis by (cases "e = i") (auto intro: liveI simp: bsz_inj)
    qed (use lg in \<open>auto intro: liveI\<close>)
  next
    fix x assume x: "x \<in> live A fl s - {(b, bsz i)}"
    then have "x \<in> live A fl s" by simp
    then show "x \<in> live A (fl(i := fl i @ [b])) s"
    proof (cases rule: liveE)
      case (small m e l)
      then show ?thesis using x by (cases "e = i") (auto intro: liveI)
    qed (auto intro: liveI)
  qed
qed

lemma live_add_large:
  assumes "A k = None"
  shows "live (A(k \<mapsto> Large n)) fl s = insert (page (kvp s) k + 12, n * 4096 - 12) (live A fl s)"
proof (intro equalityI subsetI)
  fix x assume "x \<in> live (A(k \<mapsto> Large n)) fl s"
  then show "x \<in> insert (page (kvp s) k + 12, n * 4096 - 12) (live A fl s)"
  proof (cases rule: liveE)
    case (small m e l)
    then show ?thesis by (cases "m = k") (auto intro: liveI)
  next
    case (large m e)
    then show ?thesis by (cases "m = k") (auto intro: liveI)
  qed
next
  fix x assume x: "x \<in> insert (page (kvp s) k + 12, n * 4096 - 12) (live A fl s)"
  show "x \<in> live (A(k \<mapsto> Large n)) fl s"
  proof (cases "x \<in> live A fl s")
    case True
    then show ?thesis
    proof (cases rule: liveE)
      case (small m e l)
      then show ?thesis using assms by (cases "m = k") (auto intro: liveI)
    next
      case (large m e)
      then show ?thesis using assms by (cases "m = k") (auto intro: liveI)
    qed
  qed (use x in \<open>auto intro: liveI\<close>)
qed

lemma live_add_small:
  assumes H: "heap_core D (A(k \<mapsto> Small i)) fl' s" and new: "A k = None"
    and fl': "fl' = fl(i := map (blk (page (kvp s) k) i) [0..<bpa i])" and e: "fl i = []"
  shows "live (A(k \<mapsto> Small i)) fl' s = live A fl s"
proof (intro equalityI subsetI)
  let ?A = "A(k \<mapsto> Small i)"
  fix x assume "x \<in> live ?A fl' s"
  then show "x \<in> live A fl s"
  proof (cases rule: liveE)
    case (small m c l)
    have "m \<noteq> k" using small fl' by auto
    then show ?thesis using small e fl' by (cases "c = i") (auto intro: liveI)
  next
    case (large m n)
    then show ?thesis by (cases "m = k") (auto intro: liveI)
  qed
next
  let ?A = "A(k \<mapsto> Small i)"
  fix x assume "x \<in> live A fl s"
  then show "x \<in> live ?A fl' s"
  proof (cases rule: liveE)
    case (small m c l)
    then have m: "?A m = Some (Small c)" "m \<noteq> k" "?A k = Some (Small i)" using new by auto
    have "page_of (blk (page (kvp s) m) c l) \<noteq> page (kvp s) k"
      using block_of_class(1) [OF H m(1) small(2) refl m(3)] m(2) by simp
    moreover have "page_of b = page (kvp s) k" if "b \<in> set (map (blk (page (kvp s) k) i) [0..<bpa i])" for b
      using that page_of_blk [OF heap_core_page(1) [OF H m(3)], of _ i] by auto
    ultimately have "blk (page (kvp s) m) c l \<notin> set (fl' c)" using small(4) fl' by (cases "c = i") auto
    then show ?thesis using small m(1) by (auto intro: liveI(1) [of ?A, OF m(1)])
  next
    case (large m n)
    then have "?A m = Some (Large n)" using new by auto
    then show ?thesis using large(2) liveI(2) [of ?A m n s fl'] by simp
  qed
qed

lemma live_remove:
  assumes H: "heap_core D A fl s" and k: "A k = Some c"
    and fl': "\<And>i. i < 7 \<Longrightarrow> set (fl' i) = {b \<in> set (fl i). page_of b \<noteq> page (kvp s) k}"
    and all: "\<And>i j. c = Small i \<Longrightarrow> j < bpa i \<Longrightarrow> blk (page (kvp s) k) i j \<in> set (fl i)"
  shows "live (A(k := None)) fl' s = live A fl s -
    (case c of Small i \<Rightarrow> {} | Large n \<Rightarrow> {(page (kvp s) k + 12, n * 4096 - 12)})"
proof (intro equalityI subsetI)
  note C = heap_coreD [OF H]
  let ?A = "A(k := None)"
  have lt: "i < 7" if "A m = Some (Small i)" for m i using heap_chunksD(1) [OF C(3) that] by simp
  fix x assume "x \<in> live ?A fl' s"
  then show "x \<in> live A fl s - (case c of Small i \<Rightarrow> {} | Large n \<Rightarrow> {(page (kvp s) k + 12, n * 4096 - 12)})"
  proof (cases rule: liveE)
    case (small m e l)
    then have m: "A m = Some (Small e)" "m \<noteq> k" by (auto split: if_splits)
    have "page_of (blk (page (kvp s) m) e l) \<noteq> page (kvp s) k"
      using block_of_class(1) [OF H m(1) small(2) refl k] m(2) by simp
    then have "blk (page (kvp s) m) e l \<notin> set (fl e)" using small(4) fl' [OF lt [OF m(1)]] by simp
    moreover have "bsz e \<noteq> n * 4096 - 12" if "c = Large n" for n
      using heap_chunksD(1) [OF C(3) k] that bsz_bounds(2) [OF lt [OF m(1)]] by auto
    ultimately show ?thesis using small(2,3) m(1) by (auto intro: liveI split: chunk.splits)
  next
    case (large m n)
    then have m: "A m = Some (Large n)" "m \<noteq> k" by (auto split: if_splits)
    have "page (kvp s) m \<noteq> page (kvp s) k"
      using page_inj [OF C(4) chunk_first(2) [OF C(3) m(1)] chunk_first(2) [OF C(3) k]] m(2) by simp
    then show ?thesis using large(2) m(1) by (auto intro: liveI split: chunk.splits)
  qed
next
  note C = heap_coreD [OF H]
  let ?A = "A(k := None)"
  fix x assume x: "x \<in> live A fl s - (case c of Small i \<Rightarrow> {} | Large n \<Rightarrow> {(page (kvp s) k + 12, n * 4096 - 12)})"
  then have "x \<in> live A fl s" by simp
  then show "x \<in> live ?A fl' s"
  proof (cases rule: liveE)
    case (small m e l)
    then have "m \<noteq> k" using all [of e l] k by auto
    moreover have "blk (page (kvp s) m) e l \<notin> set (fl' e)"
      using small(4) fl' [of e] heap_chunksD(1) [OF C(3) small(1)] by simp
    ultimately show ?thesis using small liveI(1) [of ?A m e l _ s fl'] by simp
  next
    case (large m n)
    then have "m \<noteq> k" using x k by auto
    then show ?thesis using large liveI(2) [of ?A m n s fl'] by simp
  qed
qed

section \<open>The routines keep the invariant\<close>

lemma heap_core_cong:
  assumes H: "heap_core D A fl s" and e: "mem t = mem s" "phys t = phys s" "cr3 t = cr3 s"
      "kernel_mem_pool t = kernel_mem_pool s" "user_mem_pool t = user_mem_pool s"
      "kernel_vaddr_pool t = kernel_vaddr_pool s" "addr_of t = addr_of s" "esp t = esp s" "tasks t = tasks s"
    and n: "node_next t = node_next s" "node_prev t = node_prev s" "arenas t = arenas s"
      "desc_block_size t = desc_block_size s" "desc_blocks_per_arena t = desc_blocks_per_arena s"
  shows "heap_core D A fl t"
proof -
  note C = heap_coreD [OF H]
  have cls: "cls t = cls s" using e(7) by (rule cls_cong)
  have dl: "dll t l xs = dll s l xs" for l xs using n by (simp add: dll_def)
  have "heap_env D A t" using C(1) by (intro heap_env_cong [OF C(1) e]) (simp add: heap_env_def dl)
  moreover have "heap_lists A fl t" using C(2) unfolding heap_lists_def cls dl e by (simp add: desc_ok_def n)
  moreover have "header t fl a c = header s fl a c" for a c using cls by (cases c) auto
  then have "heap_chunks A fl t" using C(3) unfolding heap_chunks_def e n by simp
  ultimately show ?thesis by (simp add: heap_core_def)
qed

definition lock_held :: "u32 \<Rightarrow> 'e kernel_scheme \<Rightarrow> bool" where
  "lock_held L s \<longleftrightarrow> sema_value s (semaphore L) = 0 \<and> lock_holder s L = running_thread s \<and> lock_repeat s L = 1"

lemma lock_held_same: "lock_held L s \<Longrightarrow> same_lock_state s t \<Longrightarrow> lock_held L t"
  by (simp add: lock_held_def same_lock_state_def running_thread_cong [of t s])

lemma same_lock_state_trans: "same_lock_state s t \<Longrightarrow> same_lock_state t u \<Longrightarrow> same_lock_state s u"
  by (simp add: same_lock_state_def)

lemma locked_fields [simp]:
  "kvp (locked L s) = kvp s" "addr_of (locked L s) = addr_of s" "mem (locked L s) = mem s"
  "pool_bits pf (locked L s) = pool_bits pf s" "pool_lock pf (locked L s) = pool_lock pf s"
  by (simp_all add: locked_def set_repeat_def set_holder_def set_value_def pool_bits_def pool_of_def pool_lock_def)

lemma heap_acquire:
  assumes "heap_inv D A fl s"
  shows "lock_acquire (pool_lock PF_KERNEL s) s = Ok () (locked (klock s) s)"
    and "heap_core D A fl (locked (klock s) s)" and "lock_held (klock s) (locked (klock s) s)"
proof -
  have H: "heap_core D A fl s" and I: "lock_idle (klock s) s" using assms by (simp_all add: heap_inv_def)
  show "lock_acquire (pool_lock PF_KERNEL s) s = Ok () (locked (klock s) s)"
    using I by (simp add: pool_lock_def lock_acquire_free lock_idle_def)
  show "heap_core D A fl (locked (klock s) s)"
    by (rule heap_core_cong [OF H]) (simp_all add: locked_def set_repeat_def set_holder_def set_value_def)
  show "lock_held (klock s) (locked (klock s) s)"
    by (simp add: lock_held_def locked_def set_repeat_def set_holder_def set_value_def running_thread_def)
qed

lemma heap_release:
  assumes H: "heap_core D A fl t" and h: "lock_held (klock t) t"
  shows "lock_release (pool_lock PF_KERNEL t) t = Ok () (unlocked (klock t) t)"
    and "heap_inv D A fl (unlocked (klock t) t)" and "kvp (unlocked (klock t) t) = kvp t"
proof -
  have E: "dll t (kwait t) []" "running_thread t \<noteq> NULL"
    using heap_coreD(1) [OF H] by (simp_all add: heap_env_def)
  show "lock_release (pool_lock PF_KERNEL t) t = Ok () (unlocked (klock t) t)"
    using h list_empty_dll [OF E(1)] by (simp add: pool_lock_def lock_release_free lock_held_def)
  have "heap_core D A fl (unlocked (klock t) t)"
    by (rule heap_core_cong [OF H]) (simp_all add: unlocked_def set_repeat_def set_holder_def set_value_def)
  moreover have "lock_idle (klock t) (unlocked (klock t) t)"
    using E(2) by (auto simp: lock_idle_def unlocked_def set_repeat_def set_holder_def set_value_def running_thread_def)
  ultimately show "heap_inv D A fl (unlocked (klock t) t)"
    by (simp add: heap_inv_def) (simp add: unlocked_def set_repeat_def set_holder_def set_value_def)
  show "kvp (unlocked (klock t) t) = kvp t" by (simp add: unlocked_def set_repeat_def set_holder_def set_value_def)
qed

lemma used_in_use: "heap_chunks A fl s \<Longrightarrow> used A \<subseteq> bm.in_use (kvb s) (mem s)"
  using heap_chunksD(2) by (fastforce simp: used_def)

lemma take_core:
  assumes H: "heap_core D A fl s" and h: "lock_held (klock s) s" and i: "i < 7" "fl i = b # bs"
  shows "\<exists>t. take_block PF_KERNEL (cls s i) s = Ok b t \<and> heap_inv D A (fl(i := bs)) t \<and> kvp t = kvp s \<and>
    b \<noteq> NULL \<and> (b, bsz i) \<notin> live A fl s \<and> live A (fl(i := bs)) t = insert (b, bsz i) (live A fl s)"
proof -
  let ?p = "list_pop (free_list (cls s i)) s"
  let ?u = "upd_arena (block2arena b) (\<lambda>x. x\<lparr>arena_cnt := arena_cnt x - 1\<rparr>) (snd ?p)"
  note P = pop_core [OF H i refl]
  obtain k j where k: "A k = Some (Small i)" "j < bpa i" "b = blk (page (kvp s) k) i j" using P(3) by blast
  have same: "same_lock_state s ?u" by (simp add: same_lock_state_def upd_arena_def list_ops_upd)
  then have kl: "klock ?u = klock s" "kvp ?u = kvp s" by (simp_all add: same_lock_state_def)
  have hu: "lock_held (klock ?u) ?u" using lock_held_same [OF h same] kl(1) by simp
  note R = heap_release [OF P(2) hu]
  let ?t = "unlocked (klock ?u) ?u"
  have "take_block PF_KERNEL (cls s i) s = Ok b ?t"
    using P(1) R(1) by (simp add: take_block_def split_beta Let_def)
  moreover have "b \<notin> set bs" using dll_distinct [OF heap_listsD(2) [OF heap_coreD(2) [OF H] i(1)]] i(2) by simp
  then have "live A (fl(i := bs)) ?t = insert (b, bsz i) (live A fl s)"
    using live_pop [of A, OF k, of fl bs] i(2) live_cong [of ?t s] R(3) kl(2) by simp
  moreover have "(b, bsz i) \<notin> live A fl s" using live_small_iff [OF H k] i(2) by simp
  moreover have "unat b \<noteq> 0" using unat_blk [OF heap_core_page(1) [OF H k(1)] k(2)] k(3) by simp
  then have "b \<noteq> NULL" by auto
  ultimately show ?thesis using R(2,3) kl(2) by (intro exI [of _ ?t]) simp
qed

lemma arena_written:
  "x\<lparr>arena_desc := d, arena_cnt := c, arena_large := l\<rparr> = \<lparr>arena_desc = d, arena_cnt = c, arena_large = l\<rparr>" for x :: arena
  by simp

lemma arenas_cli: "arenas (cli s) = arenas s"
  by (simp add: cli_def)

lemma new_arena_core:
  assumes H: "heap_core D A fl s" and i: "i < 7" "fl i = []" and k: "first_fit (kvb s) 1 (mem s) = Some k"
    and b: "b = pool_bits PF_KERNEL s" and room: "bm.in_use b (mem s) \<noteq> {..<nbits b}"
  obtains t where "new_arena PF_KERNEL (cls s i) s = Ok (page (kvp s) k) t" "page (kvp s) k \<noteq> NULL"
    "heap_core D (A(k \<mapsto> Small i)) (fl(i := map (blk (page (kvp s) k) i) [0..<bpa i])) t"
    "same_lock_state s t" "A k = None"
proof -
  have u1: "unat (1 :: u32) = 1" by simp
  have "bm.in_use b (mem s) \<subset> {..<nbits b}" using room by (auto simp: bm.in_use_def)
  then have "{..<nbits b} - bm.in_use b (mem s) \<noteq> {}" by blast
  then have "1 \<le> card ({..<nbits b} - bm.in_use b (mem s))" by (simp add: Suc_le_eq card_gt_0_iff)
  then have room': "unat (1 :: u32) \<le> card ({..<nbits b} - bm.in_use b (mem s))" by (simp only: u1)
  obtain t u where T: "malloc_page PF_KERNEL 1 s = Ok (page (kvp s) k) t" "memset_pages (page (kvp s) k) 1 t = Ok () u"
      "heap_core D A fl u" "bm.in_use (kvb s) (mem u) = bm.in_use (kvb s) (mem s) \<union> {k..<k + unat (1 :: u32)}"
      "{k..<k + unat (1 :: u32)} \<inter> bm.in_use (kvb s) (mem s) = {}" "same_lock_state s u"
    by (rule alloc_core [OF H _ _ k [folded u1] b room' refl]) simp_all
  let ?a = "page (kvp s) k"
  let ?h = "\<lparr>arena_desc = cls s i, arena_cnt = of_nat (bpa i), arena_large = 0\<rparr>"
  let ?v = "u\<lparr>arenas := (arenas u)(?a := ?h)\<rparr>" and ?bs = "map (blk ?a i) [0..<bpa i]" and ?l = "free_list (cls s i)"
  have S: "kvp u = kvp s" "addr_of u = addr_of s" "esp u = esp s" using T(6) by (simp_all add: same_lock_state_def)
  have cls: "cls u = cls s" using S(2) by (rule cls_cong)
  note U = heap_coreD [OF T(3)]
  have k': "k \<in> bm.in_use (kvb u) (mem u)" "k \<notin> bm.in_use (kvb s) (mem s)" using T(4,5) S(1) by auto
  have ku: "k \<notin> used A" using used_in_use [OF heap_coreD(3) [OF H]] k'(2) by blast
  then have Ak: "A k = None" using chunk_first(5) [OF U(3)] by (cases "A k") auto
  have kb: "k < nbits (kvb s)" using k'(1) S(1) by (simp add: bm.in_use_def)
  have rt: "running_thread u \<noteq> page (kvp u) k"
    using heap_coreD(1) [OF H] k'(2) kb S running_thread_cong [OF S(3)] by (auto simp: heap_env_def)
  have a0: "?a \<noteq> NULL" "page_aligned ?a" using page_props(2,4) [OF heap_coreD(4) [OF H] kb] by simp_all
  have cv: "cli ?v = (cli u)\<lparr>arenas := (arenas (cli u))(?a := ?h)\<rparr>" by (simp add: cli_def)
  have Hc: "heap_core D A fl (cli u)" by (rule heap_core_cong [OF T(3)]) (simp_all add: cli_def)
  obtain nn np where f: "fold (list_append ?l) ?bs (cli ?v) = (cli ?v)\<lparr>node_next := nn, node_prev := np\<rparr>"
    using fold_append_nodes by blast
  have cc: "cls (cli u) = cls s" using cls cls_cong [of "cli u" u] by (simp add: cli_def)
  have "heap_core D (A(k \<mapsto> Small i)) (fl(i := ?bs)) ((cli ?v)\<lparr>node_next := nn, node_prev := np\<rparr>)"
    using k'(1) ku rt S(1) cc f unfolding cv
    by (intro fill_core [OF Hc i, of k ?a ?bs "cli ?v"]) (simp_all add: cv running_thread_def, simp_all add: cli_def)
  then have F: "heap_core D (A(k \<mapsto> Small i)) (fl(i := ?bs)) (?v\<lparr>node_next := nn, node_prev := np\<rparr>)"
    by (rule heap_core_cong) (simp_all add: cli_def)
  have pa: "desc_blocks_per_arena u (cls s i) = of_nat (bpa i)"
    using heap_listsD(1) [OF U(2) i(1)] cls by (simp add: desc_ok_def)
  have ok: "desc_ok (cli ?v) (cls s i) i" "dll (cli ?v) ?l []"
    using heap_listsD(1,2) [OF U(2) i(1)] i(2) cls by (simp_all add: desc_ok_def cli_def dll_def)
  have "set ?bs \<inter> foot ?l [] = {}"
  proof -
    have "page_of c \<noteq> ?a" if "c \<in> foot ?l []" for c
      using below_heap_page [OF heap_coreD(4) [OF H] _ _ kb, of "insert (cls s i) (foot ?l [])" c] heap_coreD(1) [OF H] i(1) that
      by (auto simp: heap_env_def)
    moreover have "page_of c = ?a" if "c \<in> set ?bs" for c using that page_of_blk [OF a0(2), of _ i] by auto
    ultimately show ?thesis by blast
  qed
  then have "fill_free_list ?a (of_nat (bpa i)) (of_nat 0) (cli ?v) = Ok () (fold (list_append ?l) ?bs (cli ?v))"
    by (intro fill_free_list_appends [OF _ ok(1) a0(2) ok(2)]) (simp_all add: cli_def)
  then have "new_arena PF_KERNEL (cls s i) s = Ok ?a (?v\<lparr>node_next := nn, node_prev := np\<rparr>)"
    using T(1,2) a0(1) f restore_flags [of ?v np nn] pa
    by (simp add: new_arena_def upd_arena_def Let_def intr_disable_eq arena_written arenas_cli)
  then show ?thesis
    using a0(1) F _ Ak by (rule that) (use T(6) in \<open>simp add: same_lock_state_def\<close>)
qed

lemma malloc_small_core:
  assumes H: "heap_core D A fl s" and h: "lock_held (klock s) s"
    and sz: "unat sz \<le> bsz i" "i < 7" "\<And>j. j < i \<Longrightarrow> bsz j < unat sz"
    and room: "fl i = [] \<Longrightarrow> first_fit (kvb s) 1 (mem s) \<noteq> None \<and>
      bm.in_use (pool_bits PF_KERNEL s) (mem s) \<noteq> {..<nbits (pool_bits PF_KERNEL s)}"
  shows "\<exists>b t A' fl'. malloc_small PF_KERNEL (addr_of s K_block_descs) sz s = Ok b t \<and> heap_inv D A' fl' t \<and>
    b \<noteq> NULL \<and> (b, bsz i) \<notin> live A fl s \<and> live A' fl' t = insert (b, bsz i) (live A fl s)"
proof -
  note C = heap_coreD [OF H]
  have ok: "desc_ok s (desc_at (addr_of s K_block_descs) (of_nat j)) j" if "j < 7" for j
    using heap_listsD(1) [OF C(2) that] by (simp add: cls_def)
  have le: "unat sz \<le> 1024" using sz(1) bsz_bounds(2) [OF sz(2)] by simp
  obtain c where c: "c < 7" "find_desc (addr_of s K_block_descs) sz (of_nat 0) s = of_nat c" "unat sz \<le> bsz c"
      "\<And>j. j < c \<Longrightarrow> bsz j < unat sz"
    by (rule find_desc_class [OF ok le, of 0]) simp_all
  have "c = i" using c(3) c(4) [of i] sz(1) sz(3) [of c] by (cases c i rule: linorder_cases) auto
  moreover have "ucast (of_nat c :: u8) = (of_nat c :: u32)"
    using c(1) by (simp add: word_unat_eq_iff unat_of_nat take_bit_nat_eq_self unsigned_ucast_eq)
  ultimately have d: "desc_at (addr_of s K_block_descs) (ucast (find_desc (addr_of s K_block_descs) sz 0 s)) = cls s i"
    using c(2) by (simp add: cls_def)
  note em = list_empty_dll [OF heap_listsD(2) [OF C(2) sz(2)]]
  show ?thesis
  proof (cases "fl i")
    case (Cons b bs)
    then show ?thesis using take_core [OF H h sz(2) Cons] em by (auto simp: malloc_small_def d)
  next
    case Nil
    obtain k where k: "first_fit (kvb s) 1 (mem s) = Some k" using room [OF Nil] by auto
    obtain t where t: "new_arena PF_KERNEL (cls s i) s = Ok (page (kvp s) k) t" "page (kvp s) k \<noteq> NULL"
        "heap_core D (A(k \<mapsto> Small i)) (fl(i := map (blk (page (kvp s) k) i) [0..<bpa i])) t"
        "same_lock_state s t" "A k = None"
      using new_arena_core [OF H sz(2) Nil k refl] room [OF Nil] by blast
    let ?a = "page (kvp s) k" and ?A = "A(k \<mapsto> Small i)"
    let ?fl = "fl(i := map (blk ?a i) [0..<bpa i])"
    have S: "klock t = klock s" "kvp t = kvp s" "cls t = cls s" using t(4) cls_cong [of t s] by (auto simp: same_lock_state_def)
    have split: "?fl i = blk ?a i 0 # map (blk ?a i) [Suc 0..<bpa i]"
      using bpa_bounds(2) [OF sz(2)] upt_conv_Cons [of 0 "bpa i"] by simp
    have ht: "lock_held (klock t) t" using lock_held_same [OF h t(4)] S(1) by simp
    have lv: "live ?A ?fl t = live A fl s"
      using live_add_small [of D A k i ?fl t fl, OF t(3,5)] Nil live_cong [OF S(2), of A fl] S(2) by simp
    let ?b = "blk ?a i 0" and ?fl' = "?fl(i := map (blk ?a i) [Suc 0..<bpa i])"
    obtain u where u: "take_block PF_KERNEL (cls t i) t = Ok ?b u" "heap_inv D ?A ?fl' u" "?b \<noteq> NULL"
        "(?b, bsz i) \<notin> live A fl s" "live ?A ?fl' u = insert (?b, bsz i) (live A fl s)"
      using take_core [OF t(3) ht sz(2) split] unfolding lv by blast
    moreover have "malloc_small PF_KERNEL (addr_of s K_block_descs) sz s = Ok ?b u"
      using u(1) t(1,2) em Nil by (simp add: malloc_small_def d S(3))
    ultimately show ?thesis by blast
  qed
qed

definition pages_for :: "nat \<Rightarrow> nat" where
  "pages_for sz = (if sz \<le> 1024 then 1 else (sz + 4107) div 4096)"

lemma malloc_large_core:
  assumes H: "heap_core D A fl s" and h: "lock_held (klock s) s" and sz: "1024 < unat sz" "pages_for (unat sz) < 3840"
    and k: "first_fit (kvb s) (pages_for (unat sz)) (mem s) = Some k"
    and b: "b = pool_bits PF_KERNEL s" and room: "pages_for (unat sz) \<le> card ({..<nbits b} - bm.in_use b (mem s))"
    and n: "n = pages_for (unat sz) * 4096 - 12"
  shows "\<exists>p t A' fl'. malloc_large PF_KERNEL sz s = Ok p t \<and> heap_inv D A' fl' t \<and> p \<noteq> NULL \<and> unat sz \<le> n \<and>
    (p, n) \<notin> live A fl s \<and> live A' fl' t = insert (p, n) (live A fl s)"
proof -
  let ?n = "pages_for (unat sz)" and ?c = "(sz + sizeof_arena + PG_SIZE - 1) div PG_SIZE"
  have q: "?n = (unat sz + 4107) div 4096" using sz(1) by (simp add: pages_for_def)
  have small: "unat sz + 4107 < 3840 * 4096" using sz(2) unfolding q by (simp add: div_less_iff_less_mult)
  have "unat (4107 + sz) = unat sz + 4107" using small by (subst unat_add_below) simp_all
  then have c: "unat ?c = ?n" unfolding q by (simp add: unat_div)
  have n1: "0 < ?n" using sz(1) unfolding q by simp
  then have c0: "?c \<noteq> 0" "?c < 3840" using c sz(2) by (auto simp: word_less_nat_alt simp flip: unat_eq_0)
  let ?N = "{k..<k + unat ?c}" and ?a = "page (kvp s) k"
  obtain t u where T: "malloc_page PF_KERNEL ?c s = Ok ?a t" "memset_pages ?a ?c t = Ok () u" "heap_core D A fl u"
      "bm.in_use (kvb s) (mem u) = bm.in_use (kvb s) (mem s) \<union> ?N" "?N \<inter> bm.in_use (kvb s) (mem s) = {}"
      "k + unat ?c \<le> nbits (kvb s)" "same_lock_state s u"
    using alloc_core [OF H c0 _ b _ refl, of k] k room unfolding c by blast
  have S: "kvp u = kvp s" "addr_of u = addr_of s" "esp u = esp s" using T(7) by (simp_all add: same_lock_state_def)
  let ?h = "\<lparr>arena_desc = NULL, arena_cnt = ?c, arena_large = 1\<rparr>" and ?A = "A(k \<mapsto> Large ?n)"
  let ?v = "u\<lparr>arenas := (arenas u)(?a := ?h)\<rparr>"
  have run: "run (Large ?n) k = ?N" by (simp only: run_def npages.simps c)
  have use: "?N \<inter> used A = {}" using used_in_use [OF heap_coreD(3) [OF H]] T(5) by blast
  have kN: "k \<in> ?N" using n1 c by simp
  have Ak: "A k = None" 
  proof (rule ccontr)
    assume "A k \<noteq> None"
    then have "k \<in> used A" using chunk_first(5) [OF heap_coreD(3) [OF H]] by blast
    then show False using use kN by blast
  qed
  have rt: "running_thread u \<notin> page (kvp u) ` ?N"
  proof
    assume "running_thread u \<in> page (kvp u) ` ?N"
    then obtain j where j: "j \<in> ?N" "page (kvp s) j = running_thread s" using S running_thread_cong [OF S(3)] by auto
    then have "j \<in> bm.in_use (kvb s) (mem s)" using heap_coreD(1) [OF H] T(6) by (auto simp: heap_env_def)
    then show False using j(1) T(5) by blast
  qed
  have "of_nat ?n = ?c" unfolding c [symmetric] by simp
  then have V: "heap_core D ?A fl ?v"
    using heap_core_add [OF T(3), of "Large ?n" k ?v] sz(2) n1 T(4) use rt unfolding run by (simp add: S)
  have hv: "lock_held (klock ?v) ?v" using lock_held_same [OF h, of ?v] T(7) by (simp add: same_lock_state_def)
  note R = heap_release [OF V hv]
  have kb: "k < nbits (kvb s)" using T(6) c n1 by linarith
  have a: "?a \<noteq> NULL" "page_aligned ?a" using page_props(2,4) [OF heap_coreD(4) [OF H] kb] by simp_all
  have ml: "malloc_large PF_KERNEL sz s = Ok (?a + 12) (unlocked (klock ?v) ?v)"
    using T(1,2) a(1) R(1) by (simp add: malloc_large_def upd_arena_def Let_def arena_written)
  have lv: "live ?A fl (unlocked (klock ?v) ?v) = insert (?a + 12, n) (live A fl s)"
    using live_add_large [of A k ?n fl s] Ak live_cong [of "unlocked (klock ?v) ?v" s] R(3) S(1) n by simp
  have "unat (?a + 12) = unat ?a + 12" using page_aligned_room [OF a(2), of 12] by (subst unat_add_below) simp_all
  then have "?a + 12 \<noteq> NULL" by (auto simp flip: unat_eq_0)
  moreover have "(?a + 12, n) \<notin> live A fl s"
  proof
    assume "(?a + 12, n) \<in> live A fl s"
    then show False
    proof (cases rule: liveE)
      case (small m e l)
      then have "bsz e \<le> 1024" using heap_chunksD(1) [OF heap_coreD(3) [OF H]] bsz_bounds(2) by fastforce
      then show False using small(3) n n1 by auto
    next
      case (large m e)
      then have "page (kvp s) m = ?a" by simp
      then have "m = k" using page_inj [OF heap_coreD(4) [OF H] chunk_first(2) [OF heap_coreD(3) [OF H] large(1)] kb] by simp
      then show False using large(1) Ak by simp
    qed
  qed
  moreover have "unat sz \<le> n" unfolding n q by simp
  ultimately show ?thesis using ml R(2) lv by blast
qed

lemma sys_malloc_serves:
  assumes inv: "heap_inv D A fl s" and sz: "sz \<le> pool_size (kernel_mem_pool s)" "pages_for (unat sz) < 3840"
    and b: "b = pool_bits PF_KERNEL s"
    and room: "first_fit (kvb s) (pages_for (unat sz)) (mem s) = Some k"
      "pages_for (unat sz) \<le> card ({..<nbits b} - bm.in_use b (mem s))"
  shows "\<exists>p n t A' fl'. sys_malloc sz s = Ok p t \<and> heap_inv D A' fl' t \<and> p \<noteq> NULL \<and> unat sz \<le> n \<and>
    (p, n) \<notin> live A fl s \<and> live A' fl' t = insert (p, n) (live A fl s)"
proof -
  let ?s = "locked (klock s) s"
  note Q = heap_acquire [OF inv]
  have "heap_env D A s" using inv heap_coreD(1) unfolding heap_inv_def by blast
  then have "pgdir (tasks s (running_thread s)) = NULL" by (simp add: heap_env_def)
  then have sm: "sys_malloc sz s =
      (if sz > 1024 then malloc_large PF_KERNEL sz ?s else malloc_small PF_KERNEL (addr_of s K_block_descs) sz ?s)"
    using Q(1) leD [OF sz(1)] by (simp add: sys_malloc_def Let_def pool_of_def)
  have L: "klock ?s = klock s" by simp
  have lv: "live A fl ?s = live A fl s" by (rule live_cong) simp
  have h: "lock_held (klock ?s) ?s" using Q(3) by simp
  show ?thesis
  proof (cases "sz > 1024")
    case True
    then have g: "1024 < unat sz" by (simp add: word_less_nat_alt)
    have "\<exists>p t A' fl'. malloc_large PF_KERNEL sz ?s = Ok p t \<and> heap_inv D A' fl' t \<and> p \<noteq> NULL \<and>
        unat sz \<le> pages_for (unat sz) * 4096 - 12 \<and> (p, pages_for (unat sz) * 4096 - 12) \<notin> live A fl ?s \<and>
        live A' fl' t = insert (p, pages_for (unat sz) * 4096 - 12) (live A fl ?s)"
      using room b by (intro malloc_large_core [OF Q(2) h g sz(2) _ refl _ refl]) simp_all
    then show ?thesis unfolding sm lv if_P [OF True] by blast
  next
    case False
    then have le: "unat sz \<le> 1024" by (simp add: word_less_nat_alt)
    define i where "i = (LEAST i. unat sz \<le> bsz i)"
    have "unat sz \<le> bsz 6" using le by (simp add: bsz_def)
    then have i: "unat sz \<le> bsz i" "i \<le> 6"
      unfolding i_def by (rule LeastI [of "\<lambda>i. unat sz \<le> bsz i" 6], rule Least_le [of "\<lambda>i. unat sz \<le> bsz i" 6])
    have least: "bsz j < unat sz" if "j < i" for j
      using not_less_Least [of j "\<lambda>i. unat sz \<le> bsz i"] that unfolding i_def by (simp add: not_le)
    have pg: "pages_for (unat sz) = 1" using le by (simp add: pages_for_def)
    have "bm.in_use b (mem s) \<noteq> {..<nbits b}"
    proof
      assume "bm.in_use b (mem s) = {..<nbits b}"
      then have "card ({..<nbits b} - bm.in_use b (mem s)) = 0" by (simp only: Diff_cancel card.empty)
      then show False using room(2) unfolding pg by linarith
    qed
    then have rm: "first_fit (kvb ?s) 1 (mem ?s) \<noteq> None"
        "bm.in_use (pool_bits PF_KERNEL ?s) (mem ?s) \<noteq> {..<nbits (pool_bits PF_KERNEL ?s)}"
      using room(1) unfolding pg b locked_fields by simp_all
    have "\<exists>p t A' fl'. malloc_small PF_KERNEL (addr_of ?s K_block_descs) sz ?s = Ok p t \<and> heap_inv D A' fl' t \<and>
        p \<noteq> NULL \<and> (p, bsz i) \<notin> live A fl ?s \<and> live A' fl' t = insert (p, bsz i) (live A fl ?s)"
      using i(2) least rm by (intro malloc_small_core [OF Q(2) h i(1)]) simp_all
    then show ?thesis using i(1) unfolding sm lv if_not_P [OF False] locked_fields by blast
  qed
qed

subsection \<open>Freeing\<close>

lemma fold_remove_nodes: "\<exists>nn np. fold list_remove bs s = s\<lparr>node_next := nn, node_prev := np\<rparr>"
proof (induction bs arbitrary: s)
  case Nil
  show ?case by (intro exI [of _ "node_next s"] exI [of _ "node_prev s"]) simp
next
  case (Cons b bs)
  obtain nn np where "list_remove b s = s\<lparr>node_next := nn, node_prev := np\<rparr>" by (simp add: list_ops_upd)
  then show ?case using Cons [of "list_remove b s"] by auto
qed

lemma remove_all_frame:
  assumes "dll s l xs" and "distinct ys" and "set ys \<subseteq> set xs" and "dll s k zs" and "foot l xs \<inter> foot k zs = {}"
  shows "dll (fold list_remove ys s) k zs"
  using assms
proof (induction ys arbitrary: s xs)
  case (Cons y ys)
  obtain as bs where split: "xs = as @ y # bs" using Cons.prems(3) by (metis list.set_intros(1) split_list subsetD)
  have d: "dll (list_remove y s) l (as @ bs)" using kl.remove_rep Cons.prems(1) split by simp
  have "foot l (as @ bs) \<inter> foot k zs = {}" using Cons.prems(5) split by (auto simp: span_def)
  moreover from this have "dll (list_remove y s) k zs"
    using list_remove_frame [OF Cons.prems(1) [unfolded split] Cons.prems(4)] by blast
  moreover have "set ys \<subseteq> set (as @ bs)" using Cons.prems(2,3) split by auto
  ultimately show ?case using Cons.IH [OF d] Cons.prems(2) by simp
qed simp

lemma full_arena:
  assumes "page_aligned a" and "card (free_in a i bs) = bpa i"
  shows "set (map (blk a i) [0..<bpa i]) \<subseteq> set bs"
proof -
  have "free_in a i bs \<subseteq> {..<bpa i}" by (auto simp: free_in_def)
  then have "free_in a i bs = {..<bpa i}" using assms(2) by (intro card_subset_eq) auto
  then have "blk a i j \<in> set bs" if "j < bpa i" for j using that by (auto simp: free_in_def set_eq_iff)
  then show ?thesis by auto
qed

lemma release_core:
  assumes H: "heap_core D A fl s" and k: "A k = Some (Small i)" and a: "a = page (kvp s) k"
    and full: "card (free_in a i (fl i)) = bpa i"
  shows "\<exists>t fl'. bind (empty_arena a (of_nat (bpa i)) 0 s) (\<lambda>_. mfree_page PF_KERNEL a 1) = Ok () t \<and>
    heap_core D (A(k := None)) fl' t \<and> same_lock_state s t \<and> live (A(k := None)) fl' t = live A fl s"
proof -
  note C = heap_coreD [OF H]
  have i: "i < 7" using heap_chunksD(1) [OF C(3) k] by simp
  have al: "page_aligned a" using heap_core_page(1) [OF H k] a by simp
  let ?bs = "map (blk a i) [0..<bpa i]" and ?l = "free_list (cls s i)"
  let ?fl = "fl(i := filter (\<lambda>x. x \<notin> set ?bs) (fl i))" and ?u = "fold list_remove ?bs s"
  note L = heap_listsD [OF C(2) i] and sub = full_arena [OF al full]
  have di: "distinct ?bs" using blk_inj [OF al] by (auto simp: distinct_map inj_on_def)
  have "empty_arena a (of_nat (bpa i)) (of_nat 0) s = Ok () ?u"
    using heap_chunksD(3) [OF C(3) k] a sub
    by (intro empty_arena_removes [OF _ L(1) al L(2)]) simp_all
  then have e: "empty_arena a (of_nat (bpa i)) 0 s = Ok () ?u" by simp
  obtain nn np where u: "?u = s\<lparr>node_next := nn, node_prev := np\<rparr>" using fold_remove_nodes by blast
  have fr: "dll ?u l xs" if "dll s l xs" "foot ?l (fl i) \<inter> foot l xs = {}" for l xs
    using remove_all_frame [OF L(2) di sub that] .
  have d: "dll ?u (free_list (cls s j)) (?fl j)" if j: "j < 7" for j
  proof (cases "j = i")
    case True
    then show ?thesis using kl.remove_all [OF L(2) di sub] by simp
  next
    case False
    then show ?thesis using fr [OF heap_listsD(2) [OF C(2) j]] free_lists_apart [OF H i j] by simp
  qed
  have w: "dll ?u (kwait s) []" using fr [of "kwait s" "[]"] free_list_kwait [OF H i] C(1) by (simp add: heap_env_def)
  have kb: "k < nbits (kvb s)" by (rule chunk_first(2) [OF C(3) k])
  have fl': "set (?fl j) = {b \<in> set (fl j). page_of b \<noteq> page (kvp s) k}" if j: "j < 7" for j
  proof (cases "j = i")
    case True
    have "b \<in> set ?bs \<longleftrightarrow> page_of b = a" if b: "b \<in> set (fl i)" for b
    proof
      assume "b \<in> set ?bs"
      then show "page_of b = a" using page_of_blk [OF al, of _ i] by auto
    next
      assume p: "page_of b = a"
      obtain m l where m: "A m = Some (Small i)" "l < bpa i" "b = blk (page (kvp s) m) i l" using L(3) [OF b] by blast
      then have "page (kvp s) m = a" using p page_of_blk [OF heap_core_page(1) [OF H m(1)] m(2)] by simp
      then show "b \<in> set ?bs" using m by auto
    qed
    then show ?thesis using True a by auto
  next
    case False
    have "page_of b \<noteq> page (kvp s) k" if "b \<in> set (fl j)" for b
      using heap_node_page [OF H j _ kb, of b] that k False by (auto simp: span_def)
    then show ?thesis using False by auto
  qed
  obtain t where t: "mfree_page PF_KERNEL (page (kvp s) k) 1 ?u = Ok () t" "heap_core D (A(k := None)) ?fl t" "same_lock_state s t"
    using mfree_core [OF H k _ u w d fl', of 1] by (metis npages.simps(1) unat_1)
  have "live (A(k := None)) ?fl s = live A fl s"
  proof -
    have "blk (page (kvp s) k) e j \<in> set (fl e)" if "Small i = Small e" "j < bpa e" for e j
      using that sub a by auto
    from live_remove [OF H k fl' this] show ?thesis by (simp add: fun_upd_def)
  qed
  then have "live (A(k := None)) ?fl t = live A fl s" using live_cong [of t s] t(3) by (simp add: same_lock_state_def)
  then show ?thesis using e t a by auto
qed

lemma cnt_full_iff:
  "(of_nat (card (free_in a i bs)) :: u32) = of_nat (bpa i) \<longleftrightarrow> card (free_in a i bs) = bpa i"
  using card_free_in(1) [of a i bs] bpa_bounds(1) [of i] by (intro of_nat_eq_word_iff) simp_all

lemma free_block_core:
  assumes H: "heap_core D A fl s" and k: "A k = Some (Small i)" "j < bpa i" "b = blk (page (kvp s) k) i j"
    and new: "b \<notin> set (fl i)"
  shows "\<exists>t A' fl'. free_block PF_KERNEL (page (kvp s) k) b s = Ok () t \<and> heap_core D A' fl' t \<and> same_lock_state s t \<and>
    live A' fl' t = live A fl s - {(b, bsz i)}"
proof -
  note C = heap_coreD [OF H]
  have i: "i < 7" using heap_chunksD(1) [OF C(3) k(1)] by simp
  let ?a = "page (kvp s) k" and ?fl = "fl(i := fl i @ [b])"
  let ?u = "upd_arena ?a (\<lambda>x. x\<lparr>arena_cnt := arena_cnt x + 1\<rparr>) (list_append (free_list (cls s i)) b s)"
  have U: "heap_core D A ?fl ?u" by (rule append_core [OF H k new refl])
  have same: "same_lock_state s ?u" by (simp add: same_lock_state_def upd_arena_def list_ops_upd)
  then have S: "kvp ?u = kvp s" "cls ?u = cls s" using cls_cong [of ?u s] by (simp_all add: same_lock_state_def)
  have lv: "live A ?fl ?u = live A fl s - {(b, bsz i)}" using live_append [OF H k] live_cong [OF S(1)] by simp
  have hd: "arenas ?u ?a = header ?u ?fl ?a (Small i)" using heap_chunksD(3) [OF heap_coreD(3) [OF U] k(1)] S(1) by simp
  have ds: "arena_desc (arenas s ?a) = cls s i" using heap_chunksD(3) [OF C(3) k(1)] by simp
  have pa: "desc_blocks_per_arena ?u (cls s i) = of_nat (bpa i)"
    using heap_listsD(1) [OF heap_coreD(2) [OF U] i] S(2) by (simp add: desc_ok_def)
  have fb: "free_block PF_KERNEL ?a b s =
      (if card (free_in ?a i (?fl i)) = bpa i
       then bind (empty_arena ?a (of_nat (bpa i)) 0 ?u) (\<lambda>_. mfree_page PF_KERNEL ?a 1) else Ok () ?u)"
  proof -
    define u where "u = ?u"
    have "arenas u ?a = header u ?fl ?a (Small i)" "cls u = cls s" "desc_blocks_per_arena u (cls s i) = of_nat (bpa i)"
      unfolding u_def by (rule hd, rule S(2), rule pa)
    then show ?thesis
      unfolding free_block_def ds Let_def u_def [symmetric] using cnt_full_iff [of ?a i "?fl i"] by simp
  qed
  show ?thesis
  proof (cases "card (free_in ?a i (?fl i)) = bpa i")
    case True
    obtain t fl' where t: "bind (empty_arena ?a (of_nat (bpa i)) 0 ?u) (\<lambda>_. mfree_page PF_KERNEL ?a 1) = Ok () t"
        "heap_core D (A(k := None)) fl' t" "same_lock_state ?u t" "live (A(k := None)) fl' t = live A ?fl ?u"
      using release_core [OF U k(1), of ?a] S(1) True by auto
    then show ?thesis using fb True lv same_lock_state_trans [OF same t(3)] by auto
  next
    case False
    then show ?thesis using fb U same lv by auto
  qed
qed

lemma free_large_core:
  assumes H: "heap_core D A fl s" and k: "A k = Some (Large n)"
  shows "\<exists>t. mfree_page PF_KERNEL (page (kvp s) k) (arena_cnt (arenas s (page (kvp s) k))) s = Ok () t \<and>
    heap_core D (A(k := None)) fl t \<and> same_lock_state s t \<and>
    live (A(k := None)) fl t = live A fl s - {(page (kvp s) k + 12, n * 4096 - 12)}"
proof -
  note C = heap_coreD [OF H]
  have n: "n < 3840" using heap_chunksD(1) [OF C(3) k] by simp
  have cnt: "arena_cnt (arenas s (page (kvp s) k)) = of_nat n" using heap_chunksD(3) [OF C(3) k] by simp
  have un: "unat (of_nat n :: u32) = npages (Large n)" using n by (simp add: unat_of_nat_below)
  have kb: "k < nbits (kvb s)" by (rule chunk_first(2) [OF C(3) k])
  have out: "page_of b \<noteq> page (kvp s) k" if "i < 7" "b \<in> set (fl i)" for i b
    using heap_node_page [OF H that(1) _ kb, of b] that(2) k by (auto simp: span_def)
  then have fl': "set (fl i) = {b \<in> set (fl i). page_of b \<noteq> page (kvp s) k}" if "i < 7" for i using that by blast
  have w: "dll s (kwait s) []" using C(1) by (simp add: heap_env_def)
  have s: "s = s\<lparr>node_next := node_next s, node_prev := node_prev s\<rparr>" by simp
  obtain t where t: "mfree_page PF_KERNEL (page (kvp s) k) (of_nat n) s = Ok () t" "heap_core D (A(k := None)) fl t"
      "same_lock_state s t"
    by (rule mfree_core [OF H k un s w heap_listsD(2) [OF C(2)] fl'])
  have "live (A(k := None)) fl s = live A fl s - {(page (kvp s) k + 12, n * 4096 - 12)}"
    using live_remove [OF H k fl'] by simp
  then have "live (A(k := None)) fl t = live A fl s - {(page (kvp s) k + 12, n * 4096 - 12)}"
    using live_cong [of t s] t(3) by (simp add: same_lock_state_def)
  then show ?thesis using t cnt by auto
qed

lemma live_address:
  assumes H: "heap_core D A fl s" and b: "(b, n) \<in> live A fl s"
  obtains k c where "A k = Some c" "block2arena b = page (kvp s) k" "unat (page (kvp s) k) < unat b"
    "unat b + n \<le> unat (page (kvp s) k) + npages c * 4096"
  using b
proof (cases rule: liveE)
  case (small k i j)
  note al = heap_core_page(1) [OF H small(1)]
  have "block2arena b = page (kvp s) k" "unat b = unat (page (kvp s) k) + (12 + j * bsz i)"
    using block2arena_blk [OF al small(2)] unat_blk [OF al small(2)] small(3) by simp_all
  then show ?thesis using blk_room [OF small(2)] small(1,3) by (intro that [of k "Small i"]) simp_all
next
  case (large k m)
  note al = heap_core_page(1) [OF H large(1)]
  have "unat b = unat (page (kvp s) k) + 12"
    using page_aligned_room [OF al, of 12] large(2) by (simp add: unat_add_below)
  moreover have "block2arena b = page (kvp s) k"
    using page_of_offset [OF al, of 12] large(2) by (simp add: block2arena_def page_of_def)
  moreover have "0 < m" using heap_chunksD(1) [OF heap_coreD(3) [OF H] large(1)] by simp
  ultimately show ?thesis using large by (intro that [of k "Large m"]) auto
qed

lemma sys_free_releases:
  assumes inv: "heap_inv D A fl s" and b: "(b, n) \<in> live A fl s"
  shows "\<exists>t A' fl'. sys_free b s = Ok () t \<and> heap_inv D A' fl' t \<and> live A' fl' t = live A fl s - {(b, n)}"
proof -
  let ?s = "locked (klock s) s"
  note Q = heap_acquire [OF inv]
  have H: "heap_core D A fl s" using inv by (simp add: heap_inv_def)
  note C = heap_coreD [OF H]
  have E: "pgdir (tasks s (running_thread s)) = NULL" "vaddr_start (kvp s) = K_HEAP_START"
    using C(1) by (simp_all add: heap_env_def)
  have lv: "live A fl ?s = live A fl s" by (rule live_cong) simp
  obtain k c where k: "A k = Some c" "block2arena b = page (kvp s) k" "unat (page (kvp s) k) < unat b"
    using live_address [OF H b] by blast
  have "unat K_HEAP_START \<le> unat (page (kvp s) k)"
    using page_props(1) [OF C(4) chunk_first(2) [OF C(3) k(1)]] E(2) by simp
  then have ge: "K_HEAP_START \<le> b" "b \<noteq> NULL" using k(3) by (auto simp: word_le_nat_alt)
  have "\<exists>t A' fl'. (if arena_desc (arenas ?s (page (kvp s) k)) = NULL \<and> arena_large (arenas ?s (page (kvp s) k)) = 1
        then mfree_page PF_KERNEL (page (kvp s) k) (arena_cnt (arenas ?s (page (kvp s) k))) ?s
        else free_block PF_KERNEL (page (kvp s) k) b ?s) = Ok () t \<and>
      heap_core D A' fl' t \<and> same_lock_state ?s t \<and> live A' fl' t = live A fl s - {(b, n)}"
    using b
  proof (cases rule: liveE)
    case (small m i j)
    have "block2arena b = page (kvp s) m"
      using block2arena_blk [OF heap_core_page(1) [OF H small(1)] small(2)] small(3) by simp
    then have m: "page (kvp s) k = page (kvp s) m" using k(2) by simp
    have hd: "arenas ?s (page (kvp ?s) m) = header ?s fl (page (kvp ?s) m) (Small i)"
      by (rule heap_chunksD(3) [OF heap_coreD(3) [OF Q(2)] small(1)])
    have "cls s i \<noteq> NULL" using C(1) heap_chunksD(1) [OF C(3) small(1)] by (simp add: heap_env_def)
    moreover have "cls ?s = cls s" by (rule cls_cong) simp
    ultimately show ?thesis
      using free_block_core [OF Q(2) small(1,2), of b] small(3,4) hd lv m by simp
  next
    case (large m e)
    have "page_of (page (kvp s) m + 12) = page (kvp s) m"
      using heap_core_page(1) [OF H large(1)] by (intro page_of_offset) simp_all
    then have m: "page (kvp s) k = page (kvp s) m" using k(2) large(2) by (simp add: block2arena_def page_of_def)
    have hd: "arenas ?s (page (kvp ?s) m) = header ?s fl (page (kvp ?s) m) (Large e)"
      by (rule heap_chunksD(3) [OF heap_coreD(3) [OF Q(2)] large(1)])
    show ?thesis using free_large_core [OF Q(2) large(1)] large(2) hd lv m by auto
  qed
  then obtain t A' fl' where t: "(if arena_desc (arenas ?s (page (kvp s) k)) = NULL \<and> arena_large (arenas ?s (page (kvp s) k)) = 1
        then mfree_page PF_KERNEL (page (kvp s) k) (arena_cnt (arenas ?s (page (kvp s) k))) ?s
        else free_block PF_KERNEL (page (kvp s) k) b ?s) = Ok () t"
      "heap_core D A' fl' t" "same_lock_state ?s t" "live A' fl' t = live A fl s - {(b, n)}" by blast
  have kl: "klock t = klock s" using t(3) by (simp add: same_lock_state_def)
  have "lock_held (klock t) t" using lock_held_same [OF Q(3) t(3)] kl by simp
  note R = heap_release [OF t(2) this]
  have "sys_free b s = Ok () (unlocked (klock t) t)"
    using Q(1) E(1) ge R(1) t(1) k(2) by (auto simp: sys_free_def Let_def split: if_splits)
  then show ?thesis using R(2) t(4) live_cong [OF R(3)] by auto
qed

section \<open>Separation of the live pieces\<close>

definition extent :: "u32 \<times> nat \<Rightarrow> nat set" where
  "extent x = {unat (fst x)..<unat (fst x) + snd x}"

lemma live_chunk:
  assumes H: "heap_core D A fl s" and x: "x \<in> live A fl s"
  obtains k c where "A k = Some c" "extent x \<subseteq> {unat (page (kvp s) k)..<unat (page (kvp s) k) + npages c * 4096}"
    "\<And>i. c = Small i \<Longrightarrow> \<exists>j<bpa i. x = (blk (page (kvp s) k) i j, bsz i)"
    "\<And>m. c = Large m \<Longrightarrow> x = (page (kvp s) k + 12, m * 4096 - 12)"
  using x
proof (cases rule: liveE)
  case (small k i j)
  then show ?thesis
    using unat_blk [OF heap_core_page(1) [OF H small(1)] small(2)] blk_room [OF small(2)]
    by (intro that [of k "Small i"]) (auto simp: extent_def)
next
  case (large k m)
  have "unat (page (kvp s) k + 12) = unat (page (kvp s) k) + 12"
    using page_aligned_room [OF heap_core_page(1) [OF H large(1)], of 12] by (simp add: unat_add_below)
  moreover have "0 < m" using heap_chunksD(1) [OF heap_coreD(3) [OF H] large(1)] by simp
  ultimately show ?thesis using large by (intro that [of k "Large m"]) (auto simp: extent_def)
qed

lemma chunk_pages_apart:
  assumes H: "heap_core D A fl s" and k: "A k = Some c" and m: "A m = Some d" and ne: "k \<noteq> m"
  shows "{unat (page (kvp s) k)..<unat (page (kvp s) k) + npages c * 4096} \<inter>
    {unat (page (kvp s) m)..<unat (page (kvp s) m) + npages d * 4096} = {}"
proof -
  note C = heap_coreD [OF H]
  have u: "unat (page (kvp s) k) = unat (vaddr_start (kvp s)) + k * 4096"
      "unat (page (kvp s) m) = unat (vaddr_start (kvp s)) + m * 4096"
    using page_props(1) [OF C(4)] chunk_first(2) [OF C(3) k] chunk_first(2) [OF C(3) m] by simp_all
  have r: "run c k \<inter> run d m = {}" using heap_chunksD(4) [OF C(3) k m] ne by simp
  have "k + npages c \<le> m \<or> m + npages d \<le> k"
  proof (rule ccontr)
    assume "\<not> (k + npages c \<le> m \<or> m + npages d \<le> k)"
    then have "max k m \<in> run c k \<inter> run d m"
      using chunk_first(1) [OF C(3) k] chunk_first(1) [OF C(3) m] by (auto simp: run_def max_def)
    then show False using r by simp
  qed
  then have "(k + npages c) * 4096 \<le> m * 4096 \<or> (m + npages d) * 4096 \<le> k * 4096" by (metis mult_le_mono1)
  then show ?thesis unfolding u by (auto simp: add_mult_distrib)
qed

lemma blocks_apart:
  assumes "j < l"
  shows "Suc j * n \<le> l * (n :: nat)"
  using assms by (intro mult_le_mono1) simp

lemma live_disjoint:
  assumes H: "heap_core D A fl s" and x: "x \<in> live A fl s" and y: "y \<in> live A fl s" and ne: "x \<noteq> y"
  shows "extent x \<inter> extent y = {}"
proof -
  obtain k c where k: "A k = Some c" "extent x \<subseteq> {unat (page (kvp s) k)..<unat (page (kvp s) k) + npages c * 4096}"
      "\<And>i. c = Small i \<Longrightarrow> \<exists>j<bpa i. x = (blk (page (kvp s) k) i j, bsz i)"
      "\<And>m. c = Large m \<Longrightarrow> x = (page (kvp s) k + 12, m * 4096 - 12)" using live_chunk [OF H x] by metis
  obtain m d where m: "A m = Some d" "extent y \<subseteq> {unat (page (kvp s) m)..<unat (page (kvp s) m) + npages d * 4096}"
      "\<And>i. d = Small i \<Longrightarrow> \<exists>j<bpa i. y = (blk (page (kvp s) m) i j, bsz i)"
      "\<And>n. d = Large n \<Longrightarrow> y = (page (kvp s) m + 12, n * 4096 - 12)" using live_chunk [OF H y] by metis
  show ?thesis
  proof (cases "k = m")
    case False
    then show ?thesis using chunk_pages_apart [OF H k(1) m(1)] k(2) m(2) by blast
  next
    case True
    then have cd: "d = c" using k(1) m(1) by simp
    show ?thesis
    proof (cases c)
      case (Small i)
      obtain j l where j: "j < bpa i" "x = (blk (page (kvp s) k) i j, bsz i)"
          "l < bpa i" "y = (blk (page (kvp s) k) i l, bsz i)"
        using k(3) [OF Small] m(3) [of i] cd Small True by auto
      then have "j < l \<or> l < j" using ne by (cases j l rule: linorder_cases) auto
      then show ?thesis
        using blocks_apart [of j l "bsz i"] blocks_apart [of l j "bsz i"] j
          unat_blk [OF heap_core_page(1) [OF H k(1)] j(1)] unat_blk [OF heap_core_page(1) [OF H k(1)] j(3)]
        by (auto simp: extent_def)
    next
      case (Large n)
      then show ?thesis using k(4) m(4) cd True ne by simp
    qed
  qed
qed

lemma live_unique: "heap_core D A fl s \<Longrightarrow> (b, n) \<in> live A fl s \<Longrightarrow> (b, m) \<in> live A fl s \<Longrightarrow> n = m"
proof (rule ccontr)
  assume H: "heap_core D A fl s" and l: "(b, n) \<in> live A fl s" "(b, m) \<in> live A fl s" and "n \<noteq> m"
  then have d: "extent (b, n) \<inter> extent (b, m) = {}" by (intro live_disjoint) auto
  have "0 < q" if "(b, q) \<in> live A fl s" for q
    using that
  proof (cases rule: liveE)
    case (small k i j)
    then show ?thesis using bsz_bounds(1) [of i] by simp
  next
    case (large k e)
    then show ?thesis using heap_chunksD(1) [OF heap_coreD(3) [OF H] large(1)] by auto
  qed
  then have "unat b \<in> extent (b, n) \<inter> extent (b, m)" using l by (simp add: extent_def)
  then show False using d by simp
qed

section \<open>Clients of the heap\<close>

text \<open>
  A client of the kernel heap that asks for memory as long as the pools can serve it and gives back
  what it got: the second component of the configuration holds the pieces it owns, address and
  requested size.
\<close>

definition can_serve :: "u32 \<Rightarrow> 'e kernel_scheme \<Rightarrow> bool" where
  "can_serve sz s \<longleftrightarrow> sz \<le> pool_size (kernel_mem_pool s) \<and> pages_for (unat sz) < 3840 \<and>
     first_fit (kvb s) (pages_for (unat sz)) (mem s) \<noteq> None \<and>
     pages_for (unat sz) \<le> card ({..<nbits (pool_bits PF_KERNEL s)} - bm.in_use (pool_bits PF_KERNEL s) (mem s))"

text \<open>A step is a request that satisfies \<open>P\<close>, or the return of a piece that is held.\<close>

inductive heap_step ::
    "(u32 \<Rightarrow> 'e kernel_scheme \<Rightarrow> bool) \<Rightarrow> 'e kernel_scheme \<times> (u32 \<times> nat) set \<Rightarrow> 'e kernel_scheme \<times> (u32 \<times> nat) set \<Rightarrow> bool"
  for P where
  h_malloc: "P sz s \<Longrightarrow> sys_malloc sz s = Ok p t \<Longrightarrow> heap_step P (s, M) (t, insert (p, unat sz) M)"
| h_free: "(p, n) \<in> M \<Longrightarrow> sys_free p s = Ok () t \<Longrightarrow> heap_step P (s, M) (t, M - {(p, n)})"

inductive_cases heap_stepE: "heap_step P (s, M) (t, N)"

fun heap_ok :: "u32 set \<Rightarrow> 'e kernel_scheme \<times> (u32 \<times> nat) set \<Rightarrow> bool" where
  "heap_ok D (s, M) \<longleftrightarrow> (\<exists>A fl. heap_inv D A fl s \<and> inj_on fst M \<and>
     (\<forall>p n. (p, n) \<in> M \<longrightarrow> (\<exists>m. (p, m) \<in> live A fl s \<and> n \<le> m)))"

lemma heap_ok_malloc:
  assumes "heap_ok D (s, M)" and "can_serve sz s"
  shows "\<exists>p t. sys_malloc sz s = Ok p t \<and> p \<noteq> NULL \<and> p \<notin> fst ` M \<and> heap_ok D (t, insert (p, unat sz) M)"
proof -
  obtain A fl where I: "heap_inv D A fl s" "inj_on fst M" "\<And>p n. (p, n) \<in> M \<Longrightarrow> \<exists>m. (p, m) \<in> live A fl s \<and> n \<le> m"
    using assms(1) by auto
  obtain k where k: "first_fit (kvb s) (pages_for (unat sz)) (mem s) = Some k" using assms(2) by (auto simp: can_serve_def)
  obtain p n t A' fl' where T: "sys_malloc sz s = Ok p t" "heap_inv D A' fl' t" "p \<noteq> NULL" "unat sz \<le> n"
      "(p, n) \<notin> live A fl s" "live A' fl' t = insert (p, n) (live A fl s)"
    using sys_malloc_serves [OF I(1) _ _ refl k] assms(2) unfolding can_serve_def by blast
  have new: "p \<notin> fst ` M"
  proof
    assume "p \<in> fst ` M"
    then obtain q m where "(p, q) \<in> M" "(p, m) \<in> live A fl s" using I(3) by force
    moreover from this have "m = n"
      using live_unique [of D A' fl' t p m n] T(2,6) by (simp add: heap_inv_def)
    ultimately show False using T(5) by simp
  qed
  then have "inj_on fst (insert (p, unat sz) M)" using I(2) by (auto simp: inj_on_def)
  moreover have "\<exists>m. (q, m) \<in> live A' fl' t \<and> e \<le> m" if "(q, e) \<in> insert (p, unat sz) M" for q e
    using that I(3) [of q e] T(4,6) by auto
  ultimately have "heap_ok D (t, insert (p, unat sz) M)" using T(2) unfolding heap_ok.simps by blast
  then show ?thesis using T(1,3) new by blast
qed

lemma heap_ok_free:
  assumes "heap_ok D (s, M)" and p: "(p, n) \<in> M"
  shows "\<exists>t. sys_free p s = Ok () t \<and> heap_ok D (t, M - {(p, n)})"
proof -
  obtain A fl where I: "heap_inv D A fl s" "inj_on fst M" "\<And>p n. (p, n) \<in> M \<Longrightarrow> \<exists>m. (p, m) \<in> live A fl s \<and> n \<le> m"
    using assms(1) by auto
  obtain m where m: "(p, m) \<in> live A fl s" using I(3) [OF p] by blast
  obtain t A' fl' where t: "sys_free p s = Ok () t" "heap_inv D A' fl' t" "live A' fl' t = live A fl s - {(p, m)}"
    using sys_free_releases [OF I(1) m] by blast
  have "inj_on fst (M - {(p, n)})" using I(2) by (rule inj_on_subset) auto
  moreover have "\<exists>r. (q, r) \<in> live A' fl' t \<and> e \<le> r" if q: "(q, e) \<in> M - {(p, n)}" for q e
  proof -
    have "q \<noteq> p" using q p inj_onD [OF I(2), of "(q, e)" "(p, n)"] by auto
    then show ?thesis using I(3) [of q e] q t(3) by auto
  qed
  ultimately show ?thesis using t(1,2) by auto
qed

interpretation heap: invariant_system "heap_step can_serve" "heap_ok D" for D
proof
  fix c d :: "'e kernel_scheme \<times> (u32 \<times> nat) set"
  assume ok: "heap_ok D c" and "heap_step can_serve c d"
  from this(2) show "heap_ok D d"
  proof cases
    case (h_malloc sz s p t M)
    then show ?thesis using heap_ok_malloc [of D s M sz] ok by auto
  next
    case (h_free p n M s t)
    then show ?thesis using heap_ok_free [of D s M p n] ok by auto
  qed
qed

section \<open>The empty heap\<close>

abbreviation no_chunks :: "nat \<Rightarrow> chunk option" where "no_chunks \<equiv> \<lambda>_. None"
abbreviation no_blocks :: "nat \<Rightarrow> u32 list" where "no_blocks \<equiv> \<lambda>_. []"

lemma block_desc_init_loop_same:
  "\<exists>a b c d. block_desc_init_loop descs i m s =
     s\<lparr>desc_block_size := a, desc_blocks_per_arena := b, node_prev := c, node_next := d\<rparr>"
proof (induction descs i m s rule: block_desc_init_loop.induct)
  case (1 descs i m s)
  show ?case
  proof (cases "unat i < MEM_BLOCK_DESC_CNT")
    case True
    from 1 [OF True refl refl refl refl] show ?thesis
      using True by (subst block_desc_init_loop.simps) (auto simp: Let_def list_init_def set_prev_def set_next_def)
  next
    case False
    then have "block_desc_init_loop descs i m s = s" by (subst block_desc_init_loop.simps) simp
    then show ?thesis
      by (intro exI [of _ "desc_block_size s"] exI [of _ "desc_blocks_per_arena s"] exI [of _ "node_prev s"]
          exI [of _ "node_next s"]) simp
  qed
qed

lemma block_desc_init_loop_frame:
  assumes "dll s l xs" and "\<And>i. i < 7 \<Longrightarrow> foot l xs \<inter> foot (free_list (desc_at descs (of_nat i))) [] = {}"
  shows "dll (block_desc_init_loop descs j m s) l xs"
  using assms
proof (induction descs j m s rule: block_desc_init_loop.induct)
  case (1 descs j m s)
  show ?case
  proof (cases "unat j < MEM_BLOCK_DESC_CNT")
    case True
    have "ucast j = (of_nat (unat j) :: u32)" by simp
    then have "foot l xs \<inter> foot (free_list (desc_at descs (ucast j))) [] = {}"
      using 1(3) [of "unat j"] True by (simp add: MEM_BLOCK_DESC_CNT_def)
    then have "dll (list_init (free_list (desc_at descs (ucast j))) s') l xs" if "dll s' l xs" for s' :: "'a kernel_scheme"
      using that by (intro list_init_frame) (auto simp: span_def)
    then show ?thesis
      using True 1(1) [OF True refl refl refl refl _ 1(3)] 1(2)
      by (subst block_desc_init_loop.simps) (simp add: Let_def dll_def [of "_\<lparr>desc_block_size := _\<rparr>"] dll_def [of "_\<lparr>desc_blocks_per_arena := _\<rparr>"] dll_def [of s])
  next
    case False
    then show ?thesis using 1(2) by (subst block_desc_init_loop.simps) simp
  qed
qed

lemma block_desc_init_classes:
  assumes "i < 7" and "d = desc_at descs (of_nat i)"
  shows "desc_ok (block_desc_init descs s) d i \<and> dll (block_desc_init descs s) (free_list d) []"
  using block_desc_init_loop_ok [of 0 s descs "block_desc_init descs s" i] assms
  by (simp add: block_desc_init_def bsz_def)

lemma used_none [simp]: "used no_chunks = {}"
  by (simp add: used_def)

lemma lock_init_fields:
  "kvp (lock_init L s) = kvp s" "addr_of (lock_init L s) = addr_of s" "mem (lock_init L s) = mem s"
  "phys (lock_init L s) = phys s" "cr3 (lock_init L s) = cr3 s" "esp (lock_init L s) = esp s"
  "tasks (lock_init L s) = tasks s" "kernel_mem_pool (lock_init L s) = kernel_mem_pool s"
  "user_mem_pool (lock_init L s) = user_mem_pool s" "sema_value (lock_init L s) (semaphore L) = 1"
  "lock_holder (lock_init L s) L = NULL" "lock_repeat (lock_init L s) L = 0" "dll (lock_init L s) (waiters (semaphore L)) []"
  by (simp_all add: lock_init_def sema_init_def set_value_def set_repeat_def set_holder_def Let_def
      list_init_def set_prev_def set_next_def dll_def span_def)

text \<open>What the boot code and the linker provide.\<close>

definition heap_ready :: "u32 set \<Rightarrow> 'e kernel_scheme \<Rightarrow> bool" where
  "heap_ready D s \<longleftrightarrow>
     (\<exists>fr. vm_rep D fr s) \<and> frames_apart D s \<and> below_heap s (bitmaps s) \<and> vaddr_start (kvp s) = K_HEAP_START \<and>
     below_heap s (foot (kwait s) []) \<and>
     (\<forall>i<7. below_heap s (insert (cls s i) (foot (free_list (cls s i)) [])) \<and> cls s i \<noteq> NULL \<and>
            foot (kwait s) [] \<inter> foot (free_list (cls s i)) [] = {}) \<and>
     running_thread s \<noteq> NULL \<and> pgdir (tasks s (running_thread s)) = NULL \<and>
     (\<forall>i<nbits (kvb s). page (kvp s) i = running_thread s \<longrightarrow> i \<in> bm.in_use (kvb s) (mem s))"

lemma heap_inv_empty:
  assumes "heap_ready D s" and "t = block_desc_init (addr_of s K_block_descs) (lock_init (klock s) s)"
  shows "heap_inv D no_chunks no_blocks t"
proof -
  let ?u = "lock_init (klock s) s" and ?d = "addr_of s K_block_descs"
  note F = lock_init_fields [of "klock s" s]
  obtain a b c d where t: "t = ?u\<lparr>desc_block_size := a, desc_blocks_per_arena := b, node_prev := c, node_next := d\<rparr>"
    using block_desc_init_loop_same [of ?d 0 16 ?u] assms(2) by (auto simp: block_desc_init_def)
  have same: "kvp t = kvp s" "mem t = mem s" "phys t = phys s" "cr3 t = cr3 s" "esp t = esp s" "tasks t = tasks s"
      "kernel_mem_pool t = kernel_mem_pool s" "user_mem_pool t = user_mem_pool s" "addr_of t = addr_of s"
    by (simp_all add: t F)
  have cls: "cls t = cls s" using same(9) by (rule cls_cong)
  have below: "below_heap t = below_heap s" using same(1) by (rule below_heap_cong)
  have r: "running_thread t = running_thread s" using same(5) by (rule running_thread_cong)
  have pb: "pool_bits PF_KERNEL t = pool_bits PF_KERNEL s" using same(7) by (simp add: pool_bits_def pool_of_def)
  obtain fr where "vm_rep D fr s" using assms(1) by (auto simp: heap_ready_def)
  then have vm: "vm_rep D fr t" by (rule vm_rep_cong) (simp_all add: same)
  have fa: "frames_apart D t = frames_apart D s" by (rule frames_apart_cong) (simp_all add: same)
  have "dll t (kwait s) []"
    unfolding assms(2) block_desc_init_def
  proof (rule block_desc_init_loop_frame [OF F(13)])
    fix i :: nat assume "i < 7"
    then show "foot (kwait s) [] \<inter> foot (free_list (desc_at ?d (of_nat i))) [] = {}"
      using assms(1) unfolding heap_ready_def cls_def by blast
  qed
  then have "heap_env D no_chunks t"
    unfolding heap_env_def same below cls r pb fa using assms(1) vm by (auto simp: heap_ready_def)
  moreover have "heap_lists no_chunks no_blocks t"
    unfolding heap_lists_def cls using block_desc_init_classes [of _ "cls s _" ?d ?u] assms(2) by (simp add: cls_def)
  moreover have "heap_chunks no_chunks no_blocks t" by (simp add: heap_chunks_def)
  moreover have "lock_idle (klock t) t"
    using assms(1) unfolding lock_idle_def r same by (simp add: t F heap_ready_def)
  ultimately show ?thesis by (simp add: heap_inv_def heap_core_def)
qed

lemma live_none: "live no_chunks no_blocks s = {}"
  by (simp add: live_def)

section \<open>Properties\<close>

definition demo_heap :: kernel where
  "demo_heap = block_desc_init 0xc0003100 (lock_init 0xc0003040 demo_vm)"

lemma less7: "(\<forall>i<7. P i) \<longleftrightarrow> P 0 \<and> P 1 \<and> P 2 \<and> P 3 \<and> P 4 \<and> P 5 \<and> P (6::nat)"
proof -
  have "i < 7 \<longleftrightarrow> i = 0 \<or> i = 1 \<or> i = 2 \<or> i = 3 \<or> i = 4 \<or> i = 5 \<or> i = 6" for i :: nat
    by arith
  then show ?thesis by metis
qed

lemma demo_heap_ready: "heap_ready {768} demo_vm"
proof -
  have k: "addr_of demo_vm = demo_addr" "esp demo_vm = 0xc009eff0" "tasks demo_vm = demo_tasks"
    by (simp_all add: demo_vm_def)
  have "frames_apart {768} demo_vm"
    unfolding frames_apart_def demo_nbits less8
    by (simp add: frame_def pool_of_def demo_vm_pools dir_entry_def demo_phys_def page_of_def)
  moreover have "below_heap demo_vm (bitmaps demo_vm)"
    by (simp add: below_heap_def demo_vm_pools demo_vpool_def bm_bytes_def one_byte)
  moreover have "\<forall>i<nbits (kvb demo_vm). page (kvp demo_vm) i \<noteq> running_thread demo_vm"
    unfolding demo_vm_pools demo_nbits less8 by (simp add: page_def demo_vpool_def running_thread_def k)
  moreover have "\<forall>i<7. below_heap demo_vm (insert (cls demo_vm i) (foot (free_list (cls demo_vm i)) [])) \<and>
      cls demo_vm i \<noteq> NULL \<and> foot (kwait demo_vm) [] \<inter> foot (free_list (cls demo_vm i)) [] = {}"
    unfolding less7 by (simp add: below_heap_def cls_def desc_at_def k demo_vm_pools demo_vpool_def span_def)
  ultimately show ?thesis
    using demo_vm_rep
    by (auto simp: heap_ready_def demo_vm_pools demo_vpool_def K_HEAP_START_def below_heap_def k span_def
        running_thread_def demo_tasks_def zero_task_def)
qed

lemma demo_heap_inv: "heap_inv {768} no_chunks no_blocks demo_heap"
proof (rule heap_inv_empty [OF demo_heap_ready])
  show "demo_heap = block_desc_init (addr_of demo_vm K_block_descs) (lock_init (klock demo_vm) demo_vm)"
    by (simp add: demo_heap_def demo_vm_def)
qed

lemma halts_bind: "halts m \<Longrightarrow> halts (bind m f)"
  by (cases m) auto

lemma demo_heap_fields:
  "kvp demo_heap = demo_vpool" "mem demo_heap = mem demo_vm" "pool_bits PF_KERNEL demo_heap = pool_bits PF_KERNEL demo_vm"
  "pool_size (kernel_mem_pool demo_heap) = 0x8000"
proof -
  obtain a b c d where t: "demo_heap = (lock_init 0xc0003040 demo_vm)
      \<lparr>desc_block_size := a, desc_blocks_per_arena := b, node_prev := c, node_next := d\<rparr>"
    using block_desc_init_loop_same unfolding demo_heap_def block_desc_init_def by blast
  show "kvp demo_heap = demo_vpool" "mem demo_heap = mem demo_vm" "pool_bits PF_KERNEL demo_heap = pool_bits PF_KERNEL demo_vm"
    "pool_size (kernel_mem_pool demo_heap) = 0x8000"
    unfolding t by (simp_all add: lock_init_fields pool_bits_def pool_of_def demo_vm_def)
qed

lemma demo_can_serve: "can_serve 100 demo_heap" "can_serve 5000 demo_heap"
proof -
  have "free_run (vaddr_bitmap demo_vpool) (mem demo_vm) n 0" if "n \<le> 2" for n
    using that demo_bits(1) by (auto simp: free_run_def demo_nbits)
  then have "first_fit (vaddr_bitmap demo_vpool) n (mem demo_vm) = Some 0" if "n \<le> 2" for n
    using that by (intro first_fitI) auto
  then show "can_serve 100 demo_heap" "can_serve 5000 demo_heap"
    by (simp_all add: can_serve_def demo_heap_fields pages_for_def demo_nbits demo_in_use)
qed

lemma heap_safe:
  assumes inv: "heap_inv D no_chunks no_blocks s" and reach: "(heap_step can_serve)\<^sup>*\<^sup>* (s, {}) (t, M)"
  shows "heap_ok D (t, M)"
proof (rule heap.reach_inv [OF reach])
  show "heap_ok D (s, {})" using inv by auto
qed

lemma heap_ok_disjoint:
  assumes ok: "heap_ok D (u, N)" and x: "x \<in> N" and y: "y \<in> N" and ne: "x \<noteq> y"
  shows "extent x \<inter> extent y = {}"
proof -
  obtain A fl where I: "heap_core D A fl u" "inj_on fst N" "\<And>p n. (p, n) \<in> N \<Longrightarrow> \<exists>m. (p, m) \<in> live A fl u \<and> n \<le> m"
    using ok unfolding heap_ok.simps heap_inv_def by blast
  obtain m n where m: "(fst x, m) \<in> live A fl u" "snd x \<le> m" "(fst y, n) \<in> live A fl u" "snd y \<le> n"
    using I(3) [of "fst x" "snd x"] I(3) [of "fst y" "snd y"] x y by auto
  have "fst x \<noteq> fst y" using inj_onD [OF I(2) _ x y] ne by blast
  then have "extent (fst x, m) \<inter> extent (fst y, n) = {}" using live_disjoint [OF I(1) m(1,3)] by simp
  moreover have "extent x \<subseteq> extent (fst x, m)" "extent y \<subseteq> extent (fst y, n)" using m(2,4) by (auto simp: extent_def)
  ultimately show ?thesis by blast
qed

text \<open>C2: the kernel heap is safe for the requests that the pools can serve. Start from the empty heap and let a kernel
  thread ask for memory and give it back in any order, where each request satisfies \<open>can_serve\<close> when it is made: it
  is no larger than the pool and needs fewer than 3840 pages, so many virtual pages in a row are free and so
  many frames. Then at every moment the pieces it holds do not overlap, giving any of them back returns,
  and every request that satisfies \<open>can_serve\<close> returns a piece, not \<open>NULL\<close>, that overlaps none of them. Nothing is
  said of other requests, which may return \<open>NULL\<close> or stop the kernel.\<close>

theorem heap_pieces_disjoint:
  assumes "heap_inv D no_chunks no_blocks s" and "(heap_step can_serve)\<^sup>*\<^sup>* (s, {}) (t, M)"
  shows "(\<forall>x\<in>M. \<forall>y\<in>M. x \<noteq> y \<longrightarrow> extent x \<inter> extent y = {}) \<and>
    (\<forall>p n. (p, n) \<in> M \<longrightarrow> returns (sys_free p t)) \<and>
    (\<forall>sz. can_serve sz t \<longrightarrow> (\<exists>p u. sys_malloc sz t = Ok p u \<and> p \<noteq> NULL \<and>
       (\<forall>x\<in>M. extent (p, unat sz) \<inter> extent x = {})))"
proof -
  note ok = heap_safe [OF assms]
  have "returns (sys_free p t)" if "(p, n) \<in> M" for p n using heap_ok_free [OF ok that] by auto
  moreover have "\<exists>p u. sys_malloc sz t = Ok p u \<and> p \<noteq> NULL \<and> (\<forall>x\<in>M. extent (p, unat sz) \<inter> extent x = {})"
    if serve: "can_serve sz t" for sz
  proof -
    obtain p u where u: "sys_malloc sz t = Ok p u" "p \<noteq> NULL" "p \<notin> fst ` M" "heap_ok D (u, insert (p, unat sz) M)"
      using heap_ok_malloc [OF ok serve] by blast
    have "extent (p, unat sz) \<inter> extent x = {}" if "x \<in> M" for x
    proof (rule heap_ok_disjoint [OF u(4)])
      show "(p, unat sz) \<noteq> x" using that u(3) by force
    qed (use that in simp_all)
    then show ?thesis using u(1,2) by blast
  qed
  ultimately show ?thesis using heap_ok_disjoint [OF ok] by blast
qed

theorem heap_pieces_disjoint_witness:
  "\<exists>p t. sys_malloc 100 demo_heap = Ok p t \<and> p \<noteq> NULL \<and> returns (sys_free p t)"
proof -
  obtain p t where t: "sys_malloc 100 demo_heap = Ok p t" "p \<noteq> NULL"
    using heap_pieces_disjoint [OF demo_heap_inv rtranclp.rtrancl_refl] demo_can_serve(1) by blast
  have "heap_step can_serve (demo_heap, {}) (t, insert (p, unat (100 :: u32)) {})"
    by (rule h_malloc [of can_serve, OF demo_can_serve(1) t(1)])
  from heap_pieces_disjoint [OF demo_heap_inv r_into_rtranclp [of "heap_step can_serve", OF this]] have "returns (sys_free p t)" by blast
  then show ?thesis using t by blast
qed

text \<open>C28: \<open>sys_malloc\<close> gives a piece at least as large as the request that was not in use, for every size the
  pools can serve: a block of the smallest sufficient class or whole pages; the invariant of the heap
  holds again and the only change of the memory in use is this piece.\<close>

theorem sys_malloc_fresh_piece:
  assumes "heap_inv D A fl s" and "can_serve sz s"
  shows "\<exists>p n t A' fl'. sys_malloc sz s = Ok p t \<and> heap_inv D A' fl' t \<and> p \<noteq> NULL \<and> unat sz \<le> n \<and>
    (p, n) \<notin> live A fl s \<and> live A' fl' t = insert (p, n) (live A fl s)"
  using assms(2) sys_malloc_serves [OF assms(1) _ _ refl] unfolding can_serve_def by blast

theorem sys_malloc_fresh_piece_witness:
  "\<exists>p n t A' fl'. sys_malloc 5000 demo_heap = Ok p t \<and> heap_inv {768} A' fl' t \<and> p \<noteq> NULL \<and>
     unat (5000 :: u32) \<le> n \<and> (p, n) \<notin> live no_chunks no_blocks demo_heap \<and>
     live A' fl' t = insert (p, n) (live no_chunks no_blocks demo_heap)"
  by (rule sys_malloc_fresh_piece [OF demo_heap_inv demo_can_serve(2)])

text \<open>C29: \<open>sys_free\<close> undoes \<open>sys_malloc\<close>: given an address that \<open>sys_malloc\<close> returned it returns, the invariant
  of the heap holds again and exactly this piece is no longer in use. An arena whose blocks are all
  free goes back to the pool.\<close>

theorem sys_malloc_free_roundtrip:
  assumes "heap_inv D A fl s" and "can_serve sz s"
  shows "\<exists>p t u A' fl'. sys_malloc sz s = Ok p t \<and> sys_free p t = Ok () u \<and> heap_inv D A' fl' u \<and>
    live A' fl' u = live A fl s"
proof -
  obtain p n t A' fl' where t: "sys_malloc sz s = Ok p t" "heap_inv D A' fl' t" "(p, n) \<notin> live A fl s"
      "live A' fl' t = insert (p, n) (live A fl s)"
    using assms(2) sys_malloc_serves [OF assms(1) _ _ refl] unfolding can_serve_def by blast
  have "(p, n) \<in> live A' fl' t" using t(4) by simp
  from sys_free_releases [OF t(2) this] t show ?thesis by (metis Diff_insert_absorb)
qed

theorem sys_malloc_free_roundtrip_witness:
  "\<exists>p t u A' fl'. sys_malloc 100 demo_heap = Ok p t \<and> sys_free p t = Ok () u \<and> heap_inv {768} A' fl' u \<and>
     live A' fl' u = {}"
  using sys_malloc_free_roundtrip [OF demo_heap_inv demo_can_serve(1)] by (simp add: live_none)

text \<open>C30: the size classes \<open>block_desc_init\<close> sets up: class \<open>i\<close> has blocks of \<open>16 * 2 ^ i\<close> bytes and as many
  as fit after the 12-byte header; the blocks \<open>arena2block\<close> computes lie in the arena's page behind
  the header and do not overlap, and \<open>block2arena\<close> finds the arena of each.\<close>

theorem arena_blocks:
  assumes "i < 7" and "d = desc_at descs (of_nat i)" and "t = block_desc_init descs s"
    and "page_aligned a" and "arena_desc (arenas t a) = d" and "j < unat (desc_blocks_per_arena t d)"
  shows "desc_block_size t d = 16 * 2 ^ i \<and> list_empty (free_list d) t \<and>
    block2arena (arena2block a (of_nat j) t) = a \<and>
    unat a + 12 \<le> unat (arena2block a (of_nat j) t) \<and>
    unat (arena2block a (of_nat j) t) + 16 * 2 ^ i \<le> unat a + 4096 \<and>
    (\<forall>l<j. unat (arena2block a (of_nat l) t) + 16 * 2 ^ i \<le> unat (arena2block a (of_nat j) t))"
proof -
  have ok: "desc_ok t d i" "dll t (free_list d) []" using block_desc_init_classes [OF assms(1,2)] assms(3) by auto
  then have sz: "desc_block_size t d = of_nat (bsz i)" and j: "j < bpa i"
    using assms(6) bpa_bounds(1) [of i] by (simp_all add: desc_ok_def unat_of_nat_below)
  have b: "arena2block a (of_nat m) t = blk a i m" for m by (rule arena2block_blk [OF assms(5) sz])
  have u: "unat (blk a i m) = unat a + (12 + m * bsz i)" if "m \<le> j" for m using unat_blk [OF assms(4)] that j by simp
  have "12 + l * bsz i + bsz i \<le> 12 + j * bsz i" if "l < j" for l using blocks_apart [OF that, of "bsz i"] by simp
  moreover have "of_nat (bsz i) = (16 * 2 ^ i :: u32)" by (simp add: bsz_def)
  ultimately show ?thesis
    using sz block2arena_blk [OF assms(4) j] blk_room [OF j] list_empty_dll [OF ok(2)] u
    by (simp add: b) (simp add: bsz_def add.assoc)
qed

definition demo_arena :: kernel where
  "demo_arena = demo_vm\<lparr>arenas := (arenas demo_vm)
     (0xc0100000 := \<lparr>arena_desc = 0xc0003130, arena_cnt = 63, arena_large = 0\<rparr>)\<rparr>"

theorem arena_blocks_witness:
  "block2arena (arena2block 0xc0100000 (of_nat 62) (block_desc_init 0xc0003100 demo_arena)) = 0xc0100000 \<and>
   desc_block_size (block_desc_init 0xc0003100 demo_arena) 0xc0003130 = 64"
proof -
  let ?t = "block_desc_init 0xc0003100 demo_arena"
  obtain a b c d where "?t = demo_arena\<lparr>desc_block_size := a, desc_blocks_per_arena := b, node_prev := c, node_next := d\<rparr>"
    using block_desc_init_loop_same unfolding block_desc_init_def by blast
  then have ar: "arena_desc (arenas ?t 0xc0100000) = 0xc0003130" by (simp add: demo_arena_def)
  have d: "(0xc0003130 :: u32) = desc_at 0xc0003100 (of_nat 2)" by (simp add: desc_at_def)
  have "62 < unat (desc_blocks_per_arena ?t 0xc0003130)"
    using block_desc_init_classes [OF _ d, of demo_arena] by (simp add: desc_ok_def bpa_def bsz_def)
  from arena_blocks [OF _ d refl _ ar this] show ?thesis by (simp add: page_aligned_def)
qed

text \<open>C31: the limits of \<open>sys_malloc\<close>, for a kernel thread and for a process: a request above the size of its pool returns
  \<open>NULL\<close> and changes nothing, but one up to that size that needs 3840 pages or more does not: with the lock of the pool
  free, the assertion in \<open>malloc_page\<close> stops the kernel.\<close>

theorem sys_malloc_limits:
  assumes "pf = (if pgdir (tasks s (running_thread s)) = NULL then PF_KERNEL else PF_USER)"
  shows "(pool_size (pool_of pf s) < sz \<longrightarrow> sys_malloc sz s = Ok NULL s) \<and>
    (sz \<le> pool_size (pool_of pf s) \<and> lock_idle (pool_lock pf s) s \<and> 3840 \<le> (unat sz + 4107) div 4096 \<and>
       unat sz + 4107 < 2 ^ 32 \<longrightarrow> halts (sys_malloc sz s))"
proof (intro conjI impI)
  assume "pool_size (pool_of pf s) < sz"
  then show "sys_malloc sz s = Ok NULL s" using assms by (simp add: sys_malloc_def Let_def split: if_splits)
next
  let ?c = "(sz + sizeof_arena + PG_SIZE - 1) div PG_SIZE"
  assume a: "sz \<le> pool_size (pool_of pf s) \<and> lock_idle (pool_lock pf s) s \<and> 3840 \<le> (unat sz + 4107) div 4096 \<and> unat sz + 4107 < 2 ^ 32"
  have "unat (4107 + sz) = unat sz + 4107" using a by (subst unat_add_below) simp_all
  then have "unat ?c = (unat sz + 4107) div 4096" by (simp add: unat_div)
  then have "\<not> ?c < 3840" using a by (simp add: word_less_nat_alt)
  then have "halts (malloc_page pf ?c u)" for u :: "'a kernel_scheme" by (simp add: malloc_page_def halts_bind)
  then have "halts (malloc_large pf sz u)" for u :: "'a kernel_scheme"
    unfolding malloc_large_def Let_def by (rule halts_bind)
  moreover have "3840 * 4096 \<le> unat sz + 4107" using a by (simp add: less_eq_div_iff_mult_less_eq)
  then have "1024 < unat sz" by simp
  then have "1024 < sz" by (simp add: word_less_nat_alt)
  moreover have "lock_acquire (pool_lock pf s) s = Ok () (locked (pool_lock pf s) s)"
    using a by (intro lock_acquire_free) (simp_all add: lock_idle_def)
  ultimately show "halts (sys_malloc sz s)"
    using a assms by (auto simp: sys_malloc_def Let_def)
qed

theorem sys_malloc_limits_witness:
  "sys_malloc 0x8001 demo_heap = Ok NULL demo_heap \<and>
   halts (sys_malloc 0xf00000 (demo_heap\<lparr>kernel_mem_pool := (kernel_mem_pool demo_heap)\<lparr>pool_size := 0x1000000\<rparr>\<rparr>))"
proof -
  let ?s = "demo_heap\<lparr>kernel_mem_pool := (kernel_mem_pool demo_heap)\<lparr>pool_size := 0x1000000\<rparr>\<rparr>"
  have d: "lock_idle (klock demo_heap) demo_heap" "pgdir (tasks demo_heap (running_thread demo_heap)) = NULL"
    using demo_heap_inv by (auto simp: heap_inv_def heap_core_def heap_env_def)
  then have s: "lock_idle (klock ?s) ?s" "pgdir (tasks ?s (running_thread ?s)) = NULL"
    by (simp_all add: lock_idle_def running_thread_def)
  have "halts (sys_malloc 0xf00000 ?s)"
    using sys_malloc_limits [of PF_KERNEL ?s "0xf00000"] s by (simp add: pool_lock_def pool_of_def)
  moreover have "sys_malloc 0x8001 demo_heap = Ok NULL demo_heap"
    using sys_malloc_limits [of PF_KERNEL demo_heap "0x8001"] d(2) demo_heap_fields by (simp add: pool_of_def)
  ultimately show ?thesis by blast
qed

end
