(* ===== verification/Thread.thy ===== *)
theory Thread
  imports Heap
begin

text \<open>
  Creation of threads, \<open>thread/thread.c\<close>: \<open>kernel_thread\<close>, \<open>thread_create\<close>, \<open>init_thread\<close>,
  \<open>allocate_pid\<close>, \<open>thread_start\<close>, \<open>make_main_thread\<close> and \<open>thread_init\<close>.

  A task structure has its page to itself: the structure at the bottom, the kernel stack at the top.
  \<open>thread_create\<close> leaves room for an interrupt frame and writes the frame from which \<open>switch_to\<close>
  starts the thread in \<open>kernel_thread\<close>. The pointer \<open>self_kstack\<close> has type \<open>uint32_t*\<close>, so the code
  moves it by four times the sizes it names. The name of a task is an array of 16 bytes at offset 12,
  kept in the byte memory.
\<close>

section \<open>Routines\<close>

abbreviation (input) sizeof_intr_stack :: u32 where "sizeof_intr_stack \<equiv> 76"
abbreviation (input) sizeof_thread_stack :: u32 where "sizeof_thread_stack \<equiv> 32"
abbreviation (input) sizeof_task_struct :: u32 where "sizeof_task_struct \<equiv> 240"

text \<open>The function a thread runs is code of the caller: \<open>call f a\<close> is the effect of calling \<open>f\<close> on \<open>a\<close>.\<close>

definition kernel_thread ::
    "(u32 \<Rightarrow> u32 \<Rightarrow> 'e kernel_scheme \<Rightarrow> (unit, 'e kernel_scheme) res) \<Rightarrow>
     u32 \<Rightarrow> u32 \<Rightarrow> 'e kernel_scheme \<Rightarrow> (unit, 'e kernel_scheme) res" where
  "kernel_thread call f func_args s = (let s = snd (intr_enable s) in call f func_args s)"

definition thread_create :: "u32 \<Rightarrow> u32 \<Rightarrow> u32 \<Rightarrow> 'e kernel_scheme \<Rightarrow> 'e kernel_scheme" where
  "thread_create pthread f func_args s =
     (let s = upd_task pthread (\<lambda>t. t\<lparr>self_kstack := self_kstack t - 4 * sizeof_intr_stack\<rparr>) s;
          s = upd_task pthread (\<lambda>t. t\<lparr>self_kstack := self_kstack t - 4 * sizeof_thread_stack\<rparr>) s;
          kthread_stack = self_kstack (tasks s pthread)
      in s\<lparr>thread_stacks := (thread_stacks s)(kthread_stack := (thread_stacks s kthread_stack)
             \<lparr>ts_eip := addr_of s Kernel_thread, ts_function := f, ts_func_args := func_args,
              ts_ebp := 0, ts_ebx := 0, ts_esi := 0, ts_edi := 0\<rparr>)\<rparr>)"

text \<open>\<open>memset(pthread, 0, sizeof(*pthread))\<close>: the fields of the structure, the list nodes and block
  descriptors in it and the bytes of the name.\<close>

definition clear_task :: "u32 \<Rightarrow> 'e kernel_scheme \<Rightarrow> (unit, 'e kernel_scheme) res" where
  "clear_task t s =
     bind (ASSERT (t \<noteq> NULL) (''lib/string.c'', 7, ''memset'', ''dst_ != NULL'') s) (\<lambda>_ s.
     Ok () (s\<lparr>tasks := (tasks s)(t := zero_task),
       mem := (\<lambda>a. if in_range t 240 a then 0 else mem s a),
       node_prev := (\<lambda>a. if in_range t 240 a then 0 else node_prev s a),
       node_next := (\<lambda>a. if in_range t 240 a then 0 else node_next s a),
       desc_block_size := (\<lambda>a. if in_range t 240 a then 0 else desc_block_size s a),
       desc_blocks_per_arena := (\<lambda>a. if in_range t 240 a then 0 else desc_blocks_per_arena s a)\<rparr>))"

definition allocate_pid :: "'e kernel_scheme \<Rightarrow> (u16, 'e kernel_scheme) res" where
  "allocate_pid s =
     bind (lock_acquire (addr_of s Pid_lock) s) (\<lambda>_ s.
     let s = s\<lparr>next_pid := next_pid s + 1\<rparr> in
     bind (lock_release (addr_of s Pid_lock) s) (\<lambda>_ s.
     Ok (next_pid s) s))"

definition init_thread :: "u32 \<Rightarrow> u32 \<Rightarrow> u8 \<Rightarrow> 'e kernel_scheme \<Rightarrow> (unit, 'e kernel_scheme) res" where
  "init_thread pthread name prio s =
     bind (clear_task pthread s) (\<lambda>_ s.
     let s = upd_task pthread (\<lambda>t. t\<lparr>status := (if pthread = main_thread s then TASK_RUNNING else TASK_READY)\<rparr>) s;
         s = upd_task pthread (\<lambda>t. t\<lparr>self_kstack := pthread + PG_SIZE\<rparr>) s
     in bind (allocate_pid s) (\<lambda>new_pid s.
        let s = upd_task pthread (\<lambda>t. t\<lparr>pid := new_pid\<rparr>) s;
            s = upd_task pthread (\<lambda>t. t\<lparr>priority := prio\<rparr>) s;
            s = upd_task pthread (\<lambda>t. t\<lparr>ticks := prio\<rparr>) s;
            s = upd_task pthread (\<lambda>t. t\<lparr>elapsed_ticks := 0\<rparr>) s;
            s = upd_task pthread (\<lambda>t. t\<lparr>pgdir := NULL\<rparr>) s
        in bind (strcpy (pthread + 12) name s) (\<lambda>_ s.
           Ok () (upd_task pthread (\<lambda>t. t\<lparr>stack_magic := 0x20030621\<rparr>) s))))"

text \<open>The statements that put a new task into the two lists.\<close>

definition enlist ::
    "string \<Rightarrow> string \<Rightarrow> nat \<Rightarrow> nat \<Rightarrow> u32 \<Rightarrow> 'e kernel_scheme \<Rightarrow> (unit, 'e kernel_scheme) res" where
  "enlist file fn l1 l2 t s =
     bind (node_find (thread_ready_list s) (general_tag t) s) (\<lambda>found s.
     bind (ASSERT (\<not> found) (file, l1, fn, ''!node_find(&thread_ready_list, &thread->general_tag)'') s) (\<lambda>_ s.
     let s = list_append (thread_ready_list s) (general_tag t) s in
     bind (node_find (thread_all_list s) (all_list_tag t) s) (\<lambda>found s.
     bind (ASSERT (\<not> found) (file, l2, fn, ''!node_find(&thread_all_list, &thread->all_list_tag)'') s) (\<lambda>_ s.
     Ok () (list_append (thread_all_list s) (all_list_tag t) s)))))"

definition thread_start :: "u32 \<Rightarrow> u8 \<Rightarrow> u32 \<Rightarrow> u32 \<Rightarrow> 'e kernel_scheme \<Rightarrow> (u32, 'e kernel_scheme) res" where
  "thread_start name prio f func_args s =
     bind (get_kernel_pages 1 s) (\<lambda>thread s.
     bind (init_thread thread name prio s) (\<lambda>_ s.
     let s = thread_create thread f func_args s in
     bind (enlist ''thread/thread.c'' ''thread_start'' 72 77 thread s) (\<lambda>_ s.
     Ok thread s)))"

definition make_main_thread :: "'e kernel_scheme \<Rightarrow> (unit, 'e kernel_scheme) res" where
  "make_main_thread s =
     (let s = s\<lparr>main_thread := running_thread s\<rparr> in
      bind (init_thread (main_thread s) (addr_of s (Literal ''main'')) 31 s) (\<lambda>_ s.
      bind (node_find (thread_all_list s) (all_list_tag (main_thread s)) s) (\<lambda>found s.
      bind (ASSERT (\<not> found) (''thread/thread.c'', 102, ''make_main_thread'',
              ''!node_find(&thread_all_list, &main_thread->all_list_tag)'') s) (\<lambda>_ s.
      Ok () (list_append (thread_all_list s) (all_list_tag (main_thread s)) s)))))"

definition thread_init :: "'e kernel_scheme \<Rightarrow> (unit, 'e kernel_scheme) res" where
  "thread_init s =
     (let s = put_str (ln ''thread_init start'') s;
          s = list_init (thread_ready_list s) s;
          s = list_init (thread_all_list s) s;
          s = lock_init (addr_of s Pid_lock) s
      in bind (make_main_thread s) (\<lambda>_ s.
         Ok () (put_str (ln ''thread_init done'') s)))"

section \<open>Pages from the kernel pool\<close>

lemma get_kernel_pages_grants:
  assumes inv: "heap_inv D A fl s" and n: "n \<noteq> 0" "n < 3840"
    and k: "first_fit (kvb s) (unat n) (mem s) = Some k" and b: "b = pool_bits PF_KERNEL s"
    and room: "unat n \<le> card ({..<nbits b} - bm.in_use b (mem s))" and N: "N = {k..<k + unat n}"
  obtains u F m h where "get_kernel_pages n s = Ok (page (kvp s) k) u" "heap_inv D A fl u"
    "granted D N F m h (s\<lparr>lock_holder := (lock_holder s)(klock s := NULL)\<rparr>) u"
    "bm.in_use (kvb s) (mem u) = bm.in_use (kvb s) (mem s) \<union> N" "N \<inter> bm.in_use (kvb s) (mem s) = {}"
    "bm.in_use b (mem u) = bm.in_use b (mem s) \<union> {i. i < nbits b \<and> frame PF_KERNEL s i \<in> F}" "card F = unat n"
    "k + unat n \<le> nbits (kvb s)"
proof -
  let ?l = "locked (klock s) s" and ?s = "s\<lparr>lock_holder := (lock_holder s)(klock s := NULL)\<rparr>"
  note Q = heap_acquire [OF inv]
  have idle: "sema_value s (semaphore (klock s)) = 1" "lock_repeat s (klock s) = 0"
    using inv by (simp_all add: heap_inv_def lock_idle_def)
  have l: "kvb ?l = kvb s" "mem ?l = mem s" "pool_bits PF_KERNEL ?l = b" using b by simp_all
  have k': "first_fit (kvb ?l) (unat n) (mem ?l) = Some k" and b': "b = pool_bits PF_KERNEL ?l"
    and room': "unat n \<le> card ({..<nbits b} - bm.in_use b (mem ?l))"
    unfolding l by (rule k, rule refl, rule room)
  obtain t u F m h where a: "malloc_page PF_KERNEL n ?l = Ok (page (kvp s) k) t"
    "memset_pages (page (kvp s) k) n t = Ok () u" "heap_core D A fl u" "granted D N F m h ?l u"
    "bm.in_use (kvb s) (mem u) = bm.in_use (kvb s) (mem s) \<union> N" "N \<inter> bm.in_use (kvb s) (mem s) = {}"
    "bm.in_use b (mem u) = bm.in_use b (mem s) \<union> {i. i < nbits b \<and> frame PF_KERNEL ?l i \<in> F}" "card F = unat n"
    "k + unat n \<le> nbits (kvb s)"
    by (rule alloc_granted [OF Q(2) n k' b' room' N, unfolded locked_fields])
  have u: "u = clear_pages (page (kvp s) ` N) F (?l\<lparr>mem := m, phys := h\<rparr>)"
    using a(4) by (simp add: granted_def)
  have L: "klock u = klock s" by (simp add: u)
  have held: "lock_held (klock u) u"
    using Q(3) by (simp add: L lock_held_def u running_thread_def)
  note R = heap_release [OF a(3) held]
  let ?u = "unlocked (klock s) u"
  have us: "?u = clear_pages (page (kvp s) ` N) F (?s\<lparr>mem := m, phys := h\<rparr>)"
    unfolding u using idle
    by (cases s rule: kernel.cases_scheme)
      (simp add: unlocked_def locked_def set_value_def set_repeat_def set_holder_def clear_pages_def fun_upd_idem
        running_thread_def cong: if_cong)
  have "k < nbits (kvb s)" using a(9) n(1) by (simp add: unat_gt_0 flip: unat_gt_0)
  then have p: "page (kvp s) k \<noteq> NULL"
    using page_props(4) [OF heap_coreD(4) [OF heap_inv_def [THEN iffD1, OF inv, THEN conjunct1]]] by blast
  have gk: "get_kernel_pages n s = Ok (page (kvp s) k) ?u"
    using Q(1) a(1,2) R(1) p by (simp add: get_kernel_pages_def get_pool_pages_def L)
  have hi: "heap_inv D A fl ?u" using R(2) by (simp add: L)
  have fl: "frame PF_KERNEL ?l = frame PF_KERNEL s"
    by (simp add: frame_def [abs_def] pool_of_def locked_def set_repeat_def set_holder_def set_value_def)
  have gr: "granted D N F m h ?s ?u"
  proof -
    have "phys ?u = phys u" "cr3 ?u = cr3 u" "phys ?l = phys s" "cr3 ?l = cr3 s"
      by (simp_all add: unlocked_def locked_def set_repeat_def set_holder_def set_value_def)
    then have "translate ?u v = translate u v" "dir_entry ?u d = dir_entry u d" "translate ?l v = translate ?s v"
      "dir_entry ?l d = dir_entry ?s d" for v d
      by (simp_all add: translate_def pde_of_def pte_slot_def dir_entry_def)
    moreover have "frame PF_KERNEL ?s = frame PF_KERNEL s" "pool_bits PF_KERNEL ?s = b"
      using b by (simp_all add: frame_def [abs_def] pool_of_def pool_bits_def)
    moreover note fl
    moreover have "dir_entry ?l = dir_entry ?s" using calculation(4) by (rule ext)
    ultimately show ?thesis
      using a(4) [unfolded granted_def, THEN conjunct2] l us unfolding granted_def \<open>phys ?l = phys s\<close> by (simp add: b)
  qed
  have mu: "mem ?u = mem u" by (simp add: unlocked_def set_repeat_def set_holder_def set_value_def)
  show ?thesis
    by (rule that [OF gk hi gr a(5) [folded mu] a(6) a(7) [folded mu, unfolded fl] a(8,9)])
qed

section \<open>Starting a thread\<close>

text \<open>The lock of the thread numbers is free and nobody waits for it.\<close>

definition pid_free :: "'e kernel_scheme \<Rightarrow> bool" where
  "pid_free s \<longleftrightarrow> (let L = addr_of s Pid_lock in
     sema_value s (semaphore L) = 1 \<and> lock_repeat s L = 0 \<and> lock_holder s L \<noteq> running_thread s \<and>
     list_empty (waiters (semaphore L)) s)"

lemma allocate_pid_free:
  assumes "pid_free s"
  shows "allocate_pid s = Ok (next_pid s + 1) (unlocked (addr_of s Pid_lock) (locked (addr_of s Pid_lock) s)\<lparr>next_pid := next_pid s + 1\<rparr>)"
proof -
  let ?L = "addr_of s Pid_lock"
  let ?l = "locked ?L s"
  let ?n = "?l\<lparr>next_pid := next_pid ?l + 1\<rparr>"
  have a: "lock_acquire ?L s = Ok () ?l" using assms by (intro lock_acquire_free) (simp_all add: pid_free_def Let_def)
  have n: "addr_of ?n = addr_of s" "running_thread ?n = running_thread s" "sema_value ?n (semaphore ?L) = 0" "next_pid ?l = next_pid s"
    "lock_holder ?n ?L = running_thread s" "lock_repeat ?n ?L = 1" "list_empty w ?n = list_empty w s" for w
    by (simp_all add: locked_def set_value_def set_holder_def set_repeat_def running_thread_def list_empty_def)
  have "lock_release ?L ?n = Ok () (unlocked ?L ?n)"
    using n assms by (intro lock_release_free) (simp_all add: pid_free_def Let_def)
  moreover have "unlocked ?L ?n = (unlocked ?L ?l)\<lparr>next_pid := next_pid s + 1\<rparr>" using n(4)
    by (simp add: unlocked_def set_value_def set_holder_def set_repeat_def)
  ultimately show ?thesis using a n(1) by (simp add: allocate_pid_def)
qed

lemma relocked [simp]:
  fixes s :: "'e kernel_scheme"
  shows "mem (unlocked L (locked L s)) = mem s" "tasks (unlocked L (locked L s)) = tasks s"
    "node_next (unlocked L (locked L s)) = node_next s" "node_prev (unlocked L (locked L s)) = node_prev s"
    "addr_of (unlocked L (locked L s)) = addr_of s" "esp (unlocked L (locked L s)) = esp s"
    "phys (unlocked L (locked L s)) = phys s" "cr3 (unlocked L (locked L s)) = cr3 s"
    "thread_stacks (unlocked L (locked L s)) = thread_stacks s" "main_thread (unlocked L (locked L s)) = main_thread s"
    "eflags (unlocked L (locked L s)) = eflags s" "screen (unlocked L (locked L s)) = screen s"
    "kernel.more (unlocked L (locked L s)) = kernel.more s" "intr_stacks (unlocked L (locked L s)) = intr_stacks s"
  by (simp_all add: unlocked_def locked_def set_value_def set_holder_def set_repeat_def)

text \<open>A new task on the page \<open>t\<close>, as \<open>init_thread\<close> leaves it.\<close>

definition new_task :: "u32 \<Rightarrow> u16 \<Rightarrow> u8 \<Rightarrow> task_struct" where
  "new_task t n prio = zero_task\<lparr>status := TASK_READY, self_kstack := t + PG_SIZE, pid := n, priority := prio, ticks := prio,
     elapsed_ticks := 0, pgdir := NULL, stack_magic := 0x20030621\<rparr>"

lemma new_task_fields [simp]: "pgdir (new_task t n p) = NULL" "status (new_task t n p) = TASK_READY"
  by (simp_all add: new_task_def)

lemma init_thread_runs:
  fixes s :: "'e kernel_scheme"
  assumes t: "t \<noteq> NULL" and free: "pid_free s" "\<not> in_range t 240 (waiters (semaphore (addr_of s Pid_lock)))"
    and name: "name \<noteq> NULL" "t + 12 \<noteq> NULL" "cstr (mem s) name nm" "length nm < unat (t + 12 - name)"
      "\<forall>a. in_range name (Suc (length nm)) a \<longrightarrow> \<not> in_range t 240 a"
    and x: "x = (if t = main_thread s then TASK_RUNNING else TASK_READY)"
  shows "\<exists>u. init_thread t name prio s = Ok () u \<and> tasks u = (tasks s)(t := (new_task t (next_pid s + 1) prio)\<lparr>status := x\<rparr>) \<and>
    addr_of u = addr_of s \<and> esp u = esp s \<and> phys u = phys s \<and> cr3 u = cr3 s \<and> thread_stacks u = thread_stacks s \<and>
    eflags u = eflags s \<and> next_pid u = next_pid s + 1 \<and>
    (\<forall>a. \<not> in_range t 240 a \<longrightarrow> node_next u a = node_next s a \<and> node_prev u a = node_prev s a \<and>
       desc_block_size u a = desc_block_size s a \<and> desc_blocks_per_arena u a = desc_blocks_per_arena s a) \<and>
    mem u = memcpy_loop (length nm) (t + 12) name (\<lambda>a. if in_range t 240 a then 0 else mem s a) \<and>
    sema_value u = sema_value s \<and> lock_repeat u = lock_repeat s \<and> lock_holder u = (lock_holder s)(addr_of s Pid_lock := NULL) \<and>
    kernel_vaddr_pool u = kernel_vaddr_pool s \<and> kernel_mem_pool u = kernel_mem_pool s \<and> user_mem_pool u = user_mem_pool s \<and>
    main_thread u = main_thread s \<and> handlers u = handlers s \<and> idt u = idt s \<and> kernel.more u = kernel.more s"
proof -
  let ?m = "\<lambda>a. if in_range t 240 a then 0 else mem s a" and ?L = "addr_of s Pid_lock"
  let ?c = "s\<lparr>tasks := (tasks s)(t := zero_task), mem := ?m,
       node_prev := (\<lambda>a. if in_range t 240 a then 0 else node_prev s a),
       node_next := (\<lambda>a. if in_range t 240 a then 0 else node_next s a),
       desc_block_size := (\<lambda>a. if in_range t 240 a then 0 else desc_block_size s a),
       desc_blocks_per_arena := (\<lambda>a. if in_range t 240 a then 0 else desc_blocks_per_arena s a)\<rparr>"
  have c: "clear_task t s = Ok () ?c" using t by (simp add: clear_task_def)
  let ?d = "upd_task t (\<lambda>y. y\<lparr>self_kstack := t + PG_SIZE\<rparr>) (upd_task t (\<lambda>y. y\<lparr>status := x\<rparr>) ?c)"
  have "list_empty w ?d = list_empty w s" if "\<not> in_range t 240 w" for w using that by (simp add: list_empty_def upd_task_def)
  then have pf: "pid_free ?d" using free by (simp add: pid_free_def running_thread_def upd_task_def)
  note P = allocate_pid_free [OF pf]
  have n: "strcpy_loop (t + 12) name ?m = Some (memcpy_loop (length nm) (t + 12) name ?m)"
  proof (rule strcpy_loop_cstr)
    have "?m (name + of_nat i) = mem s (name + of_nat i)" if "i < Suc (length nm)" for i
    proof -
      have "i < 2 ^ 32" using that name(4) u32_bound [of "t + 12 - name"] by simp
      then have "in_range name (Suc (length nm)) (name + of_nat i)" using that by (simp add: in_range_offset unat_of_nat_below)
      then show ?thesis using name(5) by simp
    qed
    then show "cstr ?m name nm" using name(3) by (simp add: cstr_iff)
  qed (use name(4) in simp)
  have fr: "(sema_value s)(semaphore ?L := 1) = sema_value s" "(lock_repeat s)(?L := 0) = lock_repeat s"
    using free(1) by (simp_all add: pid_free_def Let_def fun_upd_idem)
  show ?thesis
    using c P n name(1,2) x fr
    by (simp add: init_thread_def Let_def strcpy_def new_task_def upd_task_def unlocked_def locked_def set_value_def
        set_holder_def set_repeat_def zero_task_def)
qed


lemma init_thread_ok:
  fixes s :: "'e kernel_scheme"
  assumes t: "t \<noteq> NULL" "t \<noteq> main_thread s" and free: "pid_free s" "\<not> in_range t 240 (waiters (semaphore (addr_of s Pid_lock)))"
    and name: "name \<noteq> NULL" "t + 12 \<noteq> NULL" "cstr (mem s) name nm" "length nm < unat (t + 12 - name)"
      "\<forall>a. in_range name (Suc (length nm)) a \<longrightarrow> \<not> in_range t 240 a"
  shows "\<exists>u. init_thread t name prio s = Ok () u \<and> tasks u = (tasks s)(t := new_task t (next_pid s + 1) prio) \<and>
    addr_of u = addr_of s \<and> esp u = esp s \<and> phys u = phys s \<and> cr3 u = cr3 s \<and> thread_stacks u = thread_stacks s \<and>
    eflags u = eflags s \<and> next_pid u = next_pid s + 1 \<and>
    (\<forall>a. \<not> in_range t 240 a \<longrightarrow> node_next u a = node_next s a \<and> node_prev u a = node_prev s a) \<and>
    mem u = memcpy_loop (length nm) (t + 12) name (\<lambda>a. if in_range t 240 a then 0 else mem s a)"
proof -
  have "(new_task t n p)\<lparr>status := TASK_READY\<rparr> = new_task t n p" for n p by (simp add: new_task_def zero_task_def)
  then show ?thesis using init_thread_runs [OF t(1) free name refl, of prio] t(2) by (elim exE conjE) (simp only: if_False, blast)
qed

text \<open>What \<open>thread_start\<close> needs of the state in which it got the page \<open>t\<close> for a new thread: the scheduler's and the list of all
  threads are in order, the page is not in use by any list, and the name is a string elsewhere that fits.\<close>

definition start_ok :: "u32 \<Rightarrow> u32 \<Rightarrow> u8 list \<Rightarrow> u32 set \<Rightarrow> (u32 \<Rightarrow> u32) \<Rightarrow> u32 list \<Rightarrow> u32 list \<Rightarrow> 'e kernel_scheme \<Rightarrow> bool" where
  "start_ok t name nm T sp rs al s \<longleftrightarrow>
     sched_inv s T sp rs \<and> 0x100000 \<in> sp ` T \<and> dll s (thread_all_list s) al \<and> t \<noteq> NULL \<and> page_of t = t \<and> t \<notin> T \<and> t \<noteq> main_thread s \<and>
     (\<forall>a \<in> foot (thread_ready_list s) (map general_tag rs) \<union> foot (thread_all_list s) al. \<not> in_range t 240 a) \<and>
     foot (thread_ready_list s) (map general_tag rs) \<inter> foot (thread_all_list s) al = {} \<and>
     pid_free s \<and> \<not> in_range t 240 (waiters (semaphore (addr_of s Pid_lock))) \<and>
     name \<noteq> NULL \<and> cstr (mem s) name nm \<and> length nm < 16 \<and> length nm < unat (t + 12 - name) \<and>
     (\<forall>a. in_range name (Suc (length nm)) a \<longrightarrow> \<not> in_range t 240 a)"

lemma page_low:
  assumes "page_of t = t" "k < 4096"
  shows "page_of (t + of_nat k) = t"
  using page_of_offset [of t "of_nat k"] page_aligned_page_of [of t] assms by (simp add: unat_of_nat_below)

lemma tags_in_page: "in_range t 240 (general_tag t)" "in_range t 240 (all_list_tag t)" "general_tag t \<noteq> all_list_tag t"
  by (simp_all add: in_range_def general_tag_def all_list_tag_def)

lemma list_append_thread [simp]:
  "thread_stacks (list_append l x s) = thread_stacks s" "next_pid (list_append l x s) = next_pid s"
  by (simp_all add: list_ops_upd)

lemma enlist_ok:
  fixes s :: "'e kernel_scheme"
  assumes r: "dll s (thread_ready_list s) (map general_tag rs)" and a: "dll s (thread_all_list s) al"
    and out: "\<And>a. a \<in> foot (thread_ready_list s) (map general_tag rs) \<union> foot (thread_all_list s) al \<Longrightarrow> \<not> in_range t 240 a"
    and dis: "foot (thread_ready_list s) (map general_tag rs) \<inter> foot (thread_all_list s) al = {}"
  shows "\<exists>u. enlist file fn l1 l2 t s = Ok () u \<and> dll u (thread_ready_list s) (map general_tag (rs @ [t])) \<and>
    dll u (thread_all_list s) (al @ [all_list_tag t]) \<and> tasks u = tasks s \<and> addr_of u = addr_of s \<and> esp u = esp s \<and>
    phys u = phys s \<and> cr3 u = cr3 s \<and> thread_stacks u = thread_stacks s \<and> eflags u = eflags s \<and> next_pid u = next_pid s"
proof -
  let ?R = "thread_ready_list s" and ?A = "thread_all_list s"
  let ?s = "list_append ?R (general_tag t) s"
  let ?u = "list_append ?A (all_list_tag t) ?s"
  have n: "general_tag t \<notin> foot ?R (map general_tag rs)" "all_list_tag t \<notin> foot ?A al" "general_tag t \<notin> foot ?A al"
    "all_list_tag t \<notin> foot ?R (map general_tag rs)"
    using out tags_in_page [of t] by blast+
  have r1: "dll ?s ?R (map general_tag (rs @ [t]))" using kl.append_rep [OF r n(1)] by simp
  have a1: "dll ?s ?A al" using dis n by (intro kl.append_frame [OF r a]) (auto simp: foot_simps)
  have a2: "dll ?u ?A (al @ [all_list_tag t])" using kl.append_rep [OF a1 n(2)] .
  have "foot ?R (map general_tag (rs @ [t])) = insert (general_tag t) (foot ?R (map general_tag rs))"
    by (auto simp: span_def)
  then have r2: "dll ?u ?R (map general_tag (rs @ [t]))"
    using dis n tags_in_page(3) [of t] by (intro kl.append_frame [OF a1 r1]) (auto simp: foot_simps)
  have "enlist file fn l1 l2 t s = Ok () ?u"
    using node_find_dll [OF r, of "general_tag t"] node_find_dll [OF a1, of "all_list_tag t"] n
    by (simp add: enlist_def foot_simps Let_def) (auto simp: span_def)
  then show ?thesis using a2 r2 by (intro exI [of _ ?u]) simp
qed

text \<open>The initial contents of a new thread's stack and its task.\<close>

definition first_frame :: "u32 \<Rightarrow> u32 \<Rightarrow> thread_stack \<Rightarrow> 'e kernel_scheme \<Rightarrow> thread_stack" where
  "first_frame f x old s = old\<lparr>ts_eip := addr_of s Kernel_thread, ts_function := f, ts_func_args := x,
     ts_ebp := 0, ts_ebx := 0, ts_esi := 0, ts_edi := 0\<rparr>"

lemma spaces_insert:
  assumes "spaces s T sp" "0x100000 \<in> sp ` T" "t \<notin> T" "phys u = phys s" "tasks u = (tasks s)(t := x)" "pgdir x = NULL"
  shows "spaces u (insert t T) (sp(t := 0x100000))"
proof -
  have tr: "translate (u\<lparr>cr3 := a\<rparr>) v = translate (s\<lparr>cr3 := a\<rparr>) v" "self_mapped (u\<lparr>cr3 := a\<rparr>) = self_mapped (s\<lparr>cr3 := a\<rparr>)" for a v
    using assms(4) by (simp_all add: translate_def pde_of_def pte_slot_def self_mapped_def)
  obtain y where y: "y \<in> T" "sp y = 0x100000" using assms(2) by auto
  show ?thesis unfolding spaces_def
  proof
    fix z assume z: "z \<in> insert t T"
    let ?d = "pgdir (tasks s z)" and ?sp = "sp(t := 0x100000)"
    show "if pgdir (tasks u z) = NULL then ?sp z = 0x100000
      else \<forall>w\<in>insert t T. self_mapped (u\<lparr>cr3 := ?sp w\<rparr>) \<and> translate (u\<lparr>cr3 := ?sp w\<rparr>) (pgdir (tasks u z)) = Some (?sp z)"
    proof (cases "z = t")
      case True
      then show ?thesis using assms(5,6) by simp
    next
      case False
      then have zT: "z \<in> T" using z by simp
      show ?thesis
      proof (cases "?d = NULL")
        case True
        then show ?thesis using assms(1,5) zT False by (simp add: spaces_def)
      next
        case ne: False
        then have "\<forall>w\<in>T. self_mapped (s\<lparr>cr3 := sp w\<rparr>) \<and> translate (s\<lparr>cr3 := sp w\<rparr>) ?d = Some (sp z)"
          using assms(1) zT by (auto simp: spaces_def)
        then show ?thesis using y assms(3,5) False ne by (auto simp: tr)
      qed
    qed
  qed
qed

lemma thread_start_ok:
  fixes s :: "'e kernel_scheme"
  assumes g: "get_kernel_pages 1 s = Ok t u" and ok: "start_ok t name nm T sp rs al u"
  shows "\<exists>v. thread_start name prio f x s = Ok t v \<and> sched_inv v (insert t T) (sp(t := 0x100000)) (rs @ [t]) \<and>
    dll v (thread_all_list u) (al @ [all_list_tag t]) \<and>
    tasks v t = (new_task t (next_pid u + 1) prio)\<lparr>self_kstack := t + 0xe50\<rparr> \<and> next_pid v = next_pid u + 1 \<and>
    thread_stacks v (t + 0xe50) = first_frame f x (thread_stacks u (t + 0xe50)) u \<and> running_thread v = running_thread u"
proof -
  have k: "sched_inv u T sp rs" "0x100000 \<in> sp ` T" "dll u (thread_all_list u) al" "t \<noteq> NULL" "page_of t = t" "t \<notin> T"
    "t \<noteq> main_thread u"
    "\<And>a. a \<in> foot (thread_ready_list u) (map general_tag rs) \<union> foot (thread_all_list u) al \<Longrightarrow> \<not> in_range t 240 a"
    "foot (thread_ready_list u) (map general_tag rs) \<inter> foot (thread_all_list u) al = {}"
    "pid_free u" "\<not> in_range t 240 (waiters (semaphore (addr_of u Pid_lock)))" "name \<noteq> NULL" "cstr (mem u) name nm"
    "length nm < unat (t + 12 - name)" "\<forall>a. in_range name (Suc (length nm)) a \<longrightarrow> \<not> in_range t 240 a"
    using ok by (auto simp: start_ok_def)
  note I = sched_invD [OF k(1)]
  have t12: "t + 12 \<noteq> NULL"
  proof
    assume "t + 12 = NULL"
    then have "page_of (t + 12) = 0" by (simp add: page_of_def)
    then show False using page_low [OF k(5), of 12] k(4) by simp
  qed
  obtain i where i: "init_thread t name prio u = Ok () i" "tasks i = (tasks u)(t := new_task t (next_pid u + 1) prio)"
      "addr_of i = addr_of u" "esp i = esp u" "phys i = phys u" "cr3 i = cr3 u" "thread_stacks i = thread_stacks u"
      "eflags i = eflags u" "next_pid i = next_pid u + 1"
      "\<forall>a. \<not> in_range t 240 a \<longrightarrow> node_next i a = node_next u a \<and> node_prev i a = node_prev u a"
    using init_thread_ok [OF k(4,7,10,11,12) t12 k(13,14,15), of prio] by (elim exE conjE) (rule that)
  let ?c = "thread_create t f x i"
  have c: "tasks ?c = (tasks u)(t := (new_task t (next_pid u + 1) prio)\<lparr>self_kstack := t + 0xe50\<rparr>)" "addr_of ?c = addr_of u"
    "esp ?c = esp u" "phys ?c = phys u" "cr3 ?c = cr3 u" "next_pid ?c = next_pid u + 1"
    "thread_stacks ?c (t + 0xe50) = first_frame f x (thread_stacks u (t + 0xe50)) u"
    "node_next ?c = node_next i" "node_prev ?c = node_prev i"
    using i by (simp_all add: thread_create_def Let_def new_task_def upd_task_def first_frame_def add.commute [of t])
  have dl: "dll ?c l xs = dll u l xs" if "\<And>a. a \<in> foot l xs \<Longrightarrow> \<not> in_range t 240 a" for l xs
    using that i(10) c(8,9) by (intro dll_cong) simp_all
  have cr: "dll ?c (thread_ready_list ?c) (map general_tag rs)" "dll ?c (thread_all_list ?c) al"
    using dl [of "thread_ready_list u"] dl [of "thread_all_list u"] I(1) k(3,8) unfolding c(2) by blast+
  obtain v where v: "enlist ''thread/thread.c'' ''thread_start'' 72 77 t ?c = Ok () v"
      "dll v (thread_ready_list ?c) (map general_tag (rs @ [t]))" "dll v (thread_all_list ?c) (al @ [all_list_tag t])"
      "tasks v = tasks ?c" "addr_of v = addr_of ?c" "esp v = esp ?c" "phys v = phys ?c" "cr3 v = cr3 ?c"
      "thread_stacks v = thread_stacks ?c" "next_pid v = next_pid ?c"
    using enlist_ok [OF cr, of t] k(8,9) unfolding c(2) by blast
  have run: "running_thread v = running_thread u" by (simp add: running_thread_def v(6) c(3))
  have "sched_inv v (insert t T) (sp(t := 0x100000)) (rs @ [t])"
    unfolding sched_inv_def run
  proof (intro conjI ballI)
    show "dll v (thread_ready_list v) (map general_tag (rs @ [t]))" using v(2,5) by simp
    show "running_thread u \<in> insert t T" using I(2) by simp
    show "set (rs @ [t]) \<subseteq> insert t T - {running_thread u}" using I(2,3) k(6) by auto
    show "cr3 v = (sp(t := 0x100000)) (running_thread u)" using I(2,4) k(6) v(8) c(5) by auto
    show "spaces v (insert t T) (sp(t := 0x100000))"
      using k(2,6) v(4,7) c(1,4) by (intro spaces_insert [OF I(5) _ _ _ v(4) [unfolded c(1)]]) simp_all
  next
    fix y assume y: "y \<in> insert t T"
    have "general_tag t \<notin> foot (thread_ready_list u) []"
      using k(8) [of "general_tag t"] tags_in_page(1) [of t] by (auto simp: foot_simps span_def)
    then show "general_tag y \<notin> foot (thread_ready_list v) []" using y I(10) v(5) c(2) by auto
    show "y \<noteq> NULL" using y k(4) I(7) by auto
    show "(status (tasks v y) = TASK_READY) = (y \<in> set (rs @ [t]))"
      using y k(6) I(8) [of y] I(3) by (auto simp: v(4) c(1))
  next
    fix y assume y: "y \<in> insert t T - {running_thread u}"
    then show "page_of (self_kstack (tasks v y) + 20) = y"
      using page_low [OF k(5), of "0xe64"] I(9) [of y] by (auto simp: v(4) c(1) add.commute [of t])
  qed
  moreover have "thread_start name prio f x s = Ok t v"
    using g i(1) v(1) by (simp add: thread_start_def Let_def)
  ultimately show ?thesis using v c run by simp
qed

section \<open>Properties\<close>

text \<open>C14: When \<open>get_kernel_pages\<close> gives the page \<open>t\<close>, \<open>thread_start\<close> returns it as a new thread: it is the last of the ready list
  and of the list of all threads, has the next number and a full time slice, and the frame on its stack makes its
  first \<open>switch_to\<close> enter \<open>kernel_thread\<close> with the function and argument of the call. The running
  thread goes on, and the scheduler's invariant holds with the new thread.\<close>
theorem thread_start_ready:
  fixes s :: "'e kernel_scheme"
  assumes "get_kernel_pages 1 s = Ok t u" and "start_ok t name nm T sp rs al u"
  shows "\<exists>v. thread_start name prio f x s = Ok t v \<and> sched_inv v (insert t T) (sp(t := 0x100000)) (rs @ [t]) \<and>
    dll v (thread_all_list u) (al @ [all_list_tag t]) \<and>
    tasks v t = (new_task t (next_pid u + 1) prio)\<lparr>self_kstack := t + 0xe50\<rparr> \<and> next_pid v = next_pid u + 1 \<and>
    thread_stacks v (t + 0xe50) = first_frame f x (thread_stacks u (t + 0xe50)) u \<and> running_thread v = running_thread u"
  using assms by (rule thread_start_ok)

text \<open>The example machine after the lists, the lock of the numbers and the heap have been set up, with the main thread only.\<close>

definition demo_boot0 :: kernel where
  "demo_boot0 = lock_init 0xc0003020 (list_init 0xc0003010 (list_init 0xc0003000 demo_vm))"

definition demo_boot :: kernel where
  "demo_boot = block_desc_init 0xc0003100 (lock_init 0xc0003040 demo_boot0)"

lemma demo_boot0_fields:
  "kvp demo_boot0 = kvp demo_vm" "addr_of demo_boot0 = demo_addr" "mem demo_boot0 = mem demo_vm" "phys demo_boot0 = phys demo_vm"
  "cr3 demo_boot0 = cr3 demo_vm" "esp demo_boot0 = esp demo_vm" "tasks demo_boot0 = tasks demo_vm"
  "kernel_mem_pool demo_boot0 = kernel_mem_pool demo_vm" "user_mem_pool demo_boot0 = user_mem_pool demo_vm"
  by (simp_all add: demo_boot0_def lock_init_fields) (simp_all add: demo_vm_def list_init_def set_prev_def set_next_def)

lemma heap_ready_cong:
  assumes "heap_ready D s" "kvp t = kvp s" "addr_of t = addr_of s" "mem t = mem s" "phys t = phys s" "cr3 t = cr3 s"
    "esp t = esp s" "tasks t = tasks s" "kernel_mem_pool t = kernel_mem_pool s" "user_mem_pool t = user_mem_pool s"
  shows "heap_ready D t"
proof -
  obtain fr where "vm_rep D fr s" using assms(1) by (auto simp: heap_ready_def)
  then have "vm_rep D fr t" by (rule vm_rep_cong [OF _ assms(4,5,6,9,10,2)])
  then have "\<exists>fr. vm_rep D fr t" by blast
  moreover have "pool_bits PF_KERNEL t = pool_bits PF_KERNEL s" using assms(9) by (simp add: pool_bits_def pool_of_def)
  moreover have "running_thread t = running_thread s" using assms(7) by (rule running_thread_cong)
  ultimately show ?thesis
    using assms frames_apart_cong [OF assms(5,6,9), of D] cls_cong [OF assms(3)] below_heap_cong [OF assms(2)]
    by (simp add: heap_ready_def)
qed

lemma demo_boot_inv: "heap_inv {768} no_chunks no_blocks demo_boot"
proof (rule heap_inv_empty)
  show "heap_ready {768} demo_boot0"
    by (rule heap_ready_cong [OF demo_heap_ready]) (simp_all add: demo_boot0_fields, simp add: demo_vm_def)
  show "demo_boot = block_desc_init (addr_of demo_boot0 K_block_descs) (lock_init (klock demo_boot0) demo_boot0)"
    by (simp add: demo_boot_def demo_boot0_fields)
qed

lemma demo_boot_lists:
  "dll demo_boot 0xc0003000 []" "dll demo_boot 0xc0003010 []" "dll demo_boot 0xc0003028 []"
proof -
  have "dll demo_boot l []" if "dll demo_boot0 l []" "l \<in> {0xc0003000, 0xc0003010, 0xc0003028}" for l
    unfolding demo_boot_def block_desc_init_def
  proof (rule block_desc_init_loop_frame)
    have "dll (list_init 0xc0003048 (demo_boot0\<lparr>lock_holder := a, lock_repeat := b, sema_value := c\<rparr>)) l []" for a b c
      using that by (intro list_init_frame) (auto simp: dll_def span_def)
    then show "dll (lock_init 0xc0003040 demo_boot0) l []"
      by (simp add: lock_init_def sema_init_def set_value_def set_repeat_def set_holder_def Let_def)
    have "\<forall>i<7. foot l [] \<inter> foot (free_list (desc_at 0xc0003100 (of_nat i))) [] = {}"
      unfolding less7 using that(2) by (auto simp: desc_at_def span_def)
    then show "foot l [] \<inter> foot (free_list (desc_at 0xc0003100 (of_nat i))) [] = {}" if "i < 7" for i using that by blast
  qed
  moreover have "dll demo_boot0 0xc0003000 []" "dll demo_boot0 0xc0003010 []" "dll demo_boot0 0xc0003028 []"
    by (simp_all add: demo_boot0_def lock_init_def sema_init_def set_value_def set_repeat_def set_holder_def Let_def
        list_init_def set_prev_def set_next_def dll_def span_def)
  ultimately show "dll demo_boot 0xc0003000 []" "dll demo_boot 0xc0003010 []" "dll demo_boot 0xc0003028 []" by simp_all
qed

lemma demo_base_numbers: "main_thread demo_base = 0xc009e000" "next_pid demo_base = 3"
  by (simp_all add: demo_base_def icu.defs)

lemma demo_boot_fields:
  "kvp demo_boot = demo_vpool" "mem demo_boot = mem demo_vm" "pool_bits PF_KERNEL demo_boot = pool_bits PF_KERNEL demo_vm"
  "tasks demo_boot = demo_tasks" "esp demo_boot = 0xc009eff0" "addr_of demo_boot = demo_addr" "cr3 demo_boot = 0x100000"
  "main_thread demo_boot = 0xc009e000" "next_pid demo_boot = 3" "lock_holder demo_boot 0xc0003020 = 0"
  "lock_repeat demo_boot 0xc0003020 = 0" "sema_value demo_boot 0xc0003024 = 1" "lock_holder demo_boot 0xc0003040 = 0"
proof -
  obtain a b c d where t: "demo_boot = (lock_init 0xc0003040 demo_boot0)
      \<lparr>desc_block_size := a, desc_blocks_per_arena := b, node_prev := c, node_next := d\<rparr>"
    using block_desc_init_loop_same unfolding demo_boot_def block_desc_init_def by blast
  show "kvp demo_boot = demo_vpool" "mem demo_boot = mem demo_vm" "pool_bits PF_KERNEL demo_boot = pool_bits PF_KERNEL demo_vm"
    "tasks demo_boot = demo_tasks" "esp demo_boot = 0xc009eff0" "addr_of demo_boot = demo_addr" "cr3 demo_boot = 0x100000"
    "main_thread demo_boot = 0xc009e000" "next_pid demo_boot = 3" "lock_holder demo_boot 0xc0003020 = 0"
    "lock_repeat demo_boot 0xc0003020 = 0" "sema_value demo_boot 0xc0003024 = 1" "lock_holder demo_boot 0xc0003040 = 0"
    unfolding t
    by (simp_all add: lock_init_def sema_init_def set_value_def set_repeat_def set_holder_def Let_def list_init_def set_prev_def
        set_next_def demo_boot0_def demo_vm_def pool_bits_def pool_of_def demo_base_numbers)
qed

lemma demo_boot_sched: "sched_inv demo_boot {0xc009e000} (\<lambda>_. 0x100000) []"
  using demo_boot_lists(1)
  by (simp add: sched_inv_def demo_boot_fields running_thread_def span_def general_tag_def spaces_def demo_tasks_def zero_task_def)

lemma demo_boot_page:
  obtains u F m h f where "get_kernel_pages 1 demo_boot = Ok 0xc0100000 u"
    "u = clear_pages {0xc0100000} F (demo_boot\<lparr>lock_holder := (lock_holder demo_boot)(0xc0003040 := NULL), mem := m, phys := h\<rparr>)"
    "m 0x1000 = 0" "f \<in> F" "translate u 0xc0100000 = Some f" "F \<subseteq> frame PF_KERNEL demo_boot ` {..<8}"
    "\<forall>d. unat d < 1024 \<longrightarrow> dir_entry u d = dir_entry demo_boot d"
proof -
  have ff: "first_fit (kvb demo_boot) (unat (1 :: u32)) (mem demo_boot) = Some 0"
    unfolding demo_boot_fields using demo_bits(1) by (intro first_fitI) (auto simp: free_run_def demo_nbits)
  have room: "unat (1 :: u32) \<le> card ({..<nbits (pool_bits PF_KERNEL demo_boot)} -
      bm.in_use (pool_bits PF_KERNEL demo_boot) (mem demo_boot))"
    unfolding demo_boot_fields demo_nbits demo_in_use by simp
  have n: "(1 :: u32) \<noteq> 0" "(1 :: u32) < 3840" by simp_all
  obtain u F m h where g: "get_kernel_pages 1 demo_boot = Ok (page (kvp demo_boot) 0) u" "heap_inv {768} no_chunks no_blocks u"
      "granted {768} {0..<0 + unat (1 :: u32)} F m h (demo_boot\<lparr>lock_holder := (lock_holder demo_boot)(klock demo_boot := NULL)\<rparr>) u"
      "bm.in_use (kvb demo_boot) (mem u) = bm.in_use (kvb demo_boot) (mem demo_boot) \<union> {0..<0 + unat (1 :: u32)}"
      "{0..<0 + unat (1 :: u32)} \<inter> bm.in_use (kvb demo_boot) (mem demo_boot) = {}"
      "bm.in_use (pool_bits PF_KERNEL demo_boot) (mem u) = bm.in_use (pool_bits PF_KERNEL demo_boot) (mem demo_boot) \<union>
         {i. i < nbits (pool_bits PF_KERNEL demo_boot) \<and> frame PF_KERNEL demo_boot i \<in> F}" "card F = unat (1 :: u32)"
      "0 + unat (1 :: u32) \<le> nbits (kvb demo_boot)"
    by (rule get_kernel_pages_grants [OF demo_boot_inv n ff refl room refl])
  have p: "page (kvp demo_boot) 0 = 0xc0100000" by (simp add: page_def demo_boot_fields demo_vpool_def)
  have "0x1000 \<notin> bitmaps demo_boot" unfolding demo_boot_fields by (simp add: bm_bytes_def one_byte demo_vm_pools demo_vpool_def)
  then have "m 0x1000 = 0" using g(3) by (simp add: granted_def demo_boot_fields demo_vm_pools pool_bits_def pool_of_def)
  moreover have "u = clear_pages {0xc0100000} F (demo_boot\<lparr>lock_holder := (lock_holder demo_boot)(0xc0003040 := NULL), mem := m, phys := h\<rparr>)"
    using g(3) p by (simp add: granted_def demo_boot_fields)
  moreover obtain f where "f \<in> F" "translate u 0xc0100000 = Some f"
    using g(3) p by (auto simp: granted_def demo_boot_fields)
  moreover have "F \<subseteq> frame PF_KERNEL demo_boot ` {..<8}"
  proof -
    let ?s = "demo_boot\<lparr>lock_holder := (lock_holder demo_boot)(klock demo_boot := NULL)\<rparr>"
    have s: "frame PF_KERNEL ?s = frame PF_KERNEL demo_boot" "nbits (pool_bits PF_KERNEL ?s) = 8"
      using demo_nbits(2) demo_boot_fields(3) by (simp_all add: frame_def [abs_def] pool_of_def pool_bits_def)
    show ?thesis using g(3) [unfolded granted_def s, THEN conjunct2, THEN conjunct1] by blast
  qed
  moreover have "\<forall>d. unat d < 1024 \<longrightarrow> dir_entry u d = dir_entry demo_boot d"
  proof -
    have "dir_entry (demo_boot\<lparr>lock_holder := x\<rparr>) d = dir_entry demo_boot d" for x d by (simp add: dir_entry_def)
    then show ?thesis using g(3) unfolding granted_def by metis
  qed
  ultimately show ?thesis using that g(1) p by simp
qed

theorem thread_start_ready_witness:
  "\<exists>v. thread_start 0x1000 8 0xc0001f00 7 demo_boot = Ok 0xc0100000 v \<and>
     sched_inv v {0xc0100000, 0xc009e000} ((\<lambda>_. 0x100000)(0xc0100000 := 0x100000)) [0xc0100000] \<and> pid (tasks v 0xc0100000) = 4 \<and>
     ts_function (thread_stacks v 0xc0100e50) = 0xc0001f00"
proof -
  obtain u F m h f where g: "get_kernel_pages 1 demo_boot = Ok 0xc0100000 u"
    and u: "u = clear_pages {0xc0100000} F (demo_boot\<lparr>lock_holder := (lock_holder demo_boot)(0xc0003040 := NULL), mem := m, phys := h\<rparr>)"
    and m: "m 0x1000 = 0" and "f \<in> F" "translate u 0xc0100000 = Some f" "F \<subseteq> frame PF_KERNEL demo_boot ` {..<8}"
      "\<forall>d. unat d < 1024 \<longrightarrow> dir_entry u d = dir_entry demo_boot d"
    by (rule demo_boot_page)
  have f: "addr_of u = demo_addr" "esp u = 0xc009eff0" "cr3 u = 0x100000" "main_thread u = 0xc009e000" "next_pid u = 3"
    "mem u 0x1000 = 0" "lock_holder u 0xc0003020 = 0" "lock_repeat u 0xc0003020 = 0" "sema_value u 0xc0003024 = 1"
    "tasks u 0xc009e000 = demo_tasks 0xc009e000"
    using m by (simp_all add: u clear_pages_def demo_boot_fields page_of_def)
  have l: "dll u l [] = dll demo_boot l []" if "l \<in> {0xc0003000, 0xc0003010, 0xc0003028}" for l
    using that by (intro dll_cong) (auto simp: u clear_pages_def span_def page_of_def)
  have "sched_inv u {0xc009e000} (\<lambda>_. 0x100000) []"
    using l [of "0xc0003000"] demo_boot_lists(1)
    by (simp add: sched_inv_def f running_thread_def span_def general_tag_def spaces_def demo_tasks_def zero_task_def)
  moreover have "list_empty 0xc0003028 u" using l [of "0xc0003028"] demo_boot_lists(3) list_empty_dll [of u "0xc0003028" "[]"] by simp
  moreover have "\<forall>a. in_range (0x1000 :: u32) (Suc 0) a \<longrightarrow> \<not> in_range 0xc0100000 240 a"
    by (simp add: in_range_Suc) (simp add: in_range_def)
  ultimately have "start_ok 0xc0100000 0x1000 [] {0xc009e000} (\<lambda>_. 0x100000) [] [] u"
    using l [of "0xc0003010"] demo_boot_lists(2)
    by (simp add: start_ok_def f page_of_def span_def pid_free_def running_thread_def) (simp add: in_range_def)
  from thread_start_ready [OF g this, of 8 "0xc0001f00" 7] show ?thesis
    by (auto simp: new_task_def f first_frame_def)
qed

end
