(* ===== verification/Tss.thy ===== *)
theory Tss
  imports Sched
begin

text \<open>
  The task state segment and the global descriptor table, \<open>userprog/tss.c\<close>: \<open>make_gdt_desc\<close> and
  \<open>tss_init\<close> (\<open>update_tss_esp\<close> belongs to the context switch and is in \<open>Sched\<close>), with the segment
  attributes and selectors of \<open>kernel/global.h\<close>.

  The specification side is the processor's reading of a descriptor: \<open>seg_base\<close>, \<open>seg_limit\<close>,
  \<open>seg_attr\<close> take the eight bytes apart as the manual of the processor defines, and \<open>gdt_entry\<close>
  finds the descriptor of a selector through the register \<open>gdtr\<close>.
\<close>

section \<open>Attributes and selectors\<close>

definition DESC_G_4K :: u32 where "DESC_G_4K = 1"
definition DESC_D_32 :: u32 where "DESC_D_32 = 1"
definition DESC_L :: u32 where "DESC_L = 0"
definition DESC_AVL :: u32 where "DESC_AVL = 0"
definition DESC_P :: u32 where "DESC_P = 1"
definition DESC_DPL_0 :: u32 where "DESC_DPL_0 = 0"
definition DESC_DPL_3 :: u32 where "DESC_DPL_3 = 3"
definition DESC_S_CODE :: u32 where "DESC_S_CODE = 1"
definition DESC_S_SYS :: u32 where "DESC_S_SYS = 0"
definition DESC_TYPE_CODE :: u32 where "DESC_TYPE_CODE = 8"
definition DESC_TYPE_DATA :: u32 where "DESC_TYPE_DATA = 2"
definition DESC_TYPE_TSS :: u32 where "DESC_TYPE_TSS = 9"
definition TSS_DESC_D :: u32 where "TSS_DESC_D = 0"
definition RPL0 :: u32 where "RPL0 = 0"
definition RPL3 :: u32 where "RPL3 = 3"
definition TI_GDT :: u32 where "TI_GDT = 0"

definition SELECTOR_K_DATA :: u32 where
  "SELECTOR_K_DATA = push_bit 3 2 + push_bit 2 TI_GDT + RPL0"

definition SELECTOR_K_STACK :: u32 where "SELECTOR_K_STACK = SELECTOR_K_DATA"

definition SELECTOR_U_CODE :: u32 where
  "SELECTOR_U_CODE = push_bit 3 5 + push_bit 2 TI_GDT + RPL3"

definition SELECTOR_U_DATA :: u32 where
  "SELECTOR_U_DATA = push_bit 3 6 + push_bit 2 TI_GDT + RPL3"

definition SELECTOR_TSS :: u32 where
  "SELECTOR_TSS = push_bit 3 4 + push_bit 2 TI_GDT + RPL0"

definition GDT_ATTR_HIGH :: u32 where
  "GDT_ATTR_HIGH = push_bit 7 DESC_G_4K + push_bit 6 DESC_D_32 + push_bit 5 DESC_L + push_bit 4 DESC_AVL"

definition GDT_CODE_ATTR_LOW_DPL3 :: u32 where
  "GDT_CODE_ATTR_LOW_DPL3 = push_bit 7 DESC_P + push_bit 5 DESC_DPL_3 + push_bit 4 DESC_S_CODE + DESC_TYPE_CODE"

definition GDT_DATA_ATTR_LOW_DPL3 :: u32 where
  "GDT_DATA_ATTR_LOW_DPL3 = push_bit 7 DESC_P + push_bit 5 DESC_DPL_3 + push_bit 4 DESC_S_CODE + DESC_TYPE_DATA"

definition TSS_ATTR_HIGH :: u32 where
  "TSS_ATTR_HIGH = push_bit 7 DESC_G_4K + push_bit 6 TSS_DESC_D + push_bit 5 DESC_L + push_bit 4 DESC_AVL + 0"

definition TSS_ATTR_LOW :: u32 where
  "TSS_ATTR_LOW = push_bit 7 DESC_P + push_bit 5 DESC_DPL_0 + push_bit 4 DESC_S_SYS + DESC_TYPE_TSS"

lemmas desc_consts = DESC_G_4K_def DESC_D_32_def DESC_L_def DESC_AVL_def DESC_P_def DESC_DPL_0_def
  DESC_DPL_3_def DESC_S_CODE_def DESC_S_SYS_def DESC_TYPE_CODE_def DESC_TYPE_DATA_def
  DESC_TYPE_TSS_def TSS_DESC_D_def RPL0_def RPL3_def TI_GDT_def

lemmas selector_defs = SELECTOR_K_STACK_def SELECTOR_K_DATA_def SELECTOR_U_CODE_def
  SELECTOR_U_DATA_def SELECTOR_TSS_def

lemmas attr_defs = GDT_ATTR_HIGH_def GDT_CODE_ATTR_LOW_DPL3_def GDT_DATA_ATTR_LOW_DPL3_def
  TSS_ATTR_HIGH_def TSS_ATTR_LOW_def

section \<open>Routines\<close>

definition make_gdt_desc :: "u32 \<Rightarrow> u32 \<Rightarrow> u8 \<Rightarrow> u8 \<Rightarrow> gdt_desc" where
  "make_gdt_desc desc_addr limit attr_low attr_high =
     (let desc_base = desc_addr in
      \<lparr>limit_low_word = ucast (limit AND 0x0000ffff),
       base_low_word = ucast (desc_base AND 0x0000ffff),
       base_mid_byte = ucast (drop_bit 16 (desc_base AND 0x00ff0000)),
       attr_low_byte = attr_low,
       limit_high_attr_high = ucast (drop_bit 16 (limit AND 0x000f0000) + ucast attr_high),
       base_high_byte = ucast (drop_bit 24 desc_base)\<rparr>)"

abbreviation (input) sizeof_tss :: u32 where "sizeof_tss \<equiv> 108"

text \<open>The descriptor at an address of the table, \<open>*((struct gdt_desc* )a) = d\<close>.\<close>

definition set_gdt :: "u32 \<Rightarrow> gdt_desc \<Rightarrow> 'e kernel_scheme \<Rightarrow> 'e kernel_scheme" where
  "set_gdt a d s = s\<lparr>gdt := (gdt s)(a := d)\<rparr>"

text \<open>The instruction \<open>ltr\<close>: besides loading the task register, the processor marks the task segment of the selector as busy, by
  bit 1 of the type in its descriptor.\<close>

definition ltr :: "u16 \<Rightarrow> 'e kernel_scheme \<Rightarrow> 'e kernel_scheme" where
  "ltr sel s =
     (let a = ucast (drop_bit 16 (gdtr s)) + (ucast sel AND 0xfff8);
          s = set_gdt a ((gdt s a)\<lparr>attr_low_byte := attr_low_byte (gdt s a) OR 2\<rparr>) s
      in s\<lparr>tr := sel\<rparr>)"

definition tss_init :: "'e kernel_scheme \<Rightarrow> (unit, 'e kernel_scheme) res" where
  "tss_init s =
     (let s = put_str (ln ''tss_init start'') s;
          tss_size = sizeof_tss
      in bind (ASSERT (addr_of s Tss_obj \<noteq> NULL) (''lib/string.c'', 7, ''memset'', ''dst_ != NULL'') s) (\<lambda>_ s.
         let s = s\<lparr>tss := zero_tss\<rparr>;
             s = s\<lparr>tss := (tss s)\<lparr>tss_ss0 := SELECTOR_K_STACK\<rparr>\<rparr>;
             s = s\<lparr>tss := (tss s)\<lparr>tss_io_base := tss_size\<rparr>\<rparr>;
             s = set_gdt 0xc0000920 (make_gdt_desc (addr_of s Tss_obj) (tss_size - 1)
                   (ucast TSS_ATTR_LOW) (ucast TSS_ATTR_HIGH)) s;
             s = set_gdt 0xc0000928 (make_gdt_desc 0 0xfffff
                   (ucast GDT_CODE_ATTR_LOW_DPL3) (ucast GDT_ATTR_HIGH)) s;
             s = set_gdt 0xc0000930 (make_gdt_desc 0 0xfffff
                   (ucast GDT_DATA_ATTR_LOW_DPL3) (ucast GDT_ATTR_HIGH)) s;
             gdt_ptr = (8 * 7 - 1) OR push_bit 16 (ucast (0xc0000900 :: u32));
             s = s\<lparr>gdtr := gdt_ptr\<rparr>;
             s = ltr (ucast SELECTOR_TSS) s
         in Ok () (put_str (ln ''tss_init done'') s)))"

section \<open>The processor's reading of a descriptor\<close>

definition seg_base :: "gdt_desc \<Rightarrow> u32" where
  "seg_base d = ucast (base_low_word d) OR push_bit 16 (ucast (base_mid_byte d))
     OR push_bit 24 (ucast (base_high_byte d))"

definition seg_limit :: "gdt_desc \<Rightarrow> u32" where
  "seg_limit d = ucast (limit_low_word d) OR push_bit 16 (ucast (limit_high_attr_high d) AND 0xf)"

text \<open>Present bit, privilege level, code-or-data bit, type, granularity bit.\<close>

definition seg_attr :: "gdt_desc \<Rightarrow> bool \<times> u8 \<times> bool \<times> u8 \<times> bool" where
  "seg_attr d = (let a = attr_low_byte d in
     (bit a 7, drop_bit 5 a AND 3, bit a 4, a AND 0xf, bit (limit_high_attr_high d) 7))"

text \<open>The highest offset a program may use: the limit counts bytes, or pages when the granularity
  bit is set.\<close>

definition last_offset :: "gdt_desc \<Rightarrow> nat" where
  "last_offset d = (if bit (limit_high_attr_high d) 7 then unat (seg_limit d) * 4096 + 4095 else unat (seg_limit d))"

text \<open>The descriptor a selector names, when the table reaches that far.\<close>

definition gdt_entry :: "u32 \<Rightarrow> 'e kernel_scheme \<Rightarrow> gdt_desc option" where
  "gdt_entry sel s =
     (if bit sel 2 \<or> unat (sel AND 0xfff8) + 7 > unat (gdtr s AND 0xffff) then None
      else Some (gdt s (ucast (drop_bit 16 (gdtr s)) + (sel AND 0xfff8))))"


lemma masks: "(0xffff :: u32) = mask 16" "(0xff0000 :: u32) = push_bit 16 (mask 8)"
  "(0xf0000 :: u32) = push_bit 16 (mask 4)" "(0xf :: u32) = mask 4" "(0xf :: u8) = mask 4"
  by (simp_all add: mask_eq_exp_minus_1 push_bit_eq_mult)

lemma gdt_desc_base: "seg_base (make_gdt_desc base limit al ah) = base"
proof (rule bit_word_eqI)
  fix n assume "n < LENGTH(32)"
  then show "bit (seg_base (make_gdt_desc base limit al ah)) n = bit base n"
    unfolding seg_base_def make_gdt_desc_def Let_def masks
    by (cases "n < 24") (auto simp: bit_simps)
qed

lemma low_nibble_clear: "ah AND 0xf = 0 \<Longrightarrow> n < 4 \<Longrightarrow> \<not> bit (ah :: u8) n"
  unfolding masks by (drule arg_cong [of _ _ "\<lambda>w. bit w n"]) (simp add: bit_simps)

lemma gdt_limit_byte:
  assumes "ah AND 0xf = 0"
  shows "ucast (drop_bit 16 (limit AND 0xf0000) + ucast ah :: u32) =
    (ucast (drop_bit 16 limit AND 0xf :: u32) OR ah :: u8)"
proof -
  have "drop_bit 16 (limit AND 0xf0000) + (ucast ah :: u32) = drop_bit 16 (limit AND 0xf0000) OR ucast ah"
    by (rule disjunctive_add) (auto simp: masks bit_simps dest: low_nibble_clear [OF assms])
  then show ?thesis
    by (auto simp: masks bit_eq_iff bit_simps)
qed

lemma gdt_desc_limit:
  assumes "ah AND 0xf = 0" and "limit < 2 ^ 20"
  shows "seg_limit (make_gdt_desc base limit al ah) = limit"
proof (rule bit_word_eqI)
  fix n assume n: "n < LENGTH(32)"
  have hi: "\<not> bit limit n" if "20 \<le> n"
    using assms(2) that less_mask_eq [of limit 20] bit_mask_iff by (metis bit_and_iff linorder_not_less)
  show "bit (seg_limit (make_gdt_desc base limit al ah)) n = bit limit n"
    unfolding seg_limit_def make_gdt_desc_def Let_def gdt_desc.simps gdt_limit_byte [OF assms(1)] 
    unfolding masks using n hi low_nibble_clear [OF assms(1), of "n - 16"] by (cases "n < 20") (auto simp: bit_simps)
qed

lemma gdt_desc_attr:
  assumes "ah AND 0xf = 0"
  shows "seg_attr (make_gdt_desc base limit al ah) = (bit al 7, drop_bit 5 al AND 3, bit al 4, al AND 0xf, bit ah 7)"
  unfolding seg_attr_def make_gdt_desc_def Let_def gdt_desc.simps gdt_limit_byte [OF assms(1)] 
  by (simp add: masks bit_simps)


section \<open>Properties\<close>

text \<open>Reading a descriptor that \<open>make_gdt_desc\<close> made gives back the base address, every limit below
  \<open>2^20\<close>, the present bit, the privilege level, the segment type and the granularity bit, when the high
  attribute leaves the four bits free in which the limit is continued.\<close>
theorem make_gdt_desc_roundtrip:
  assumes "ah AND 0xf = 0" and "limit < 2 ^ 20"
  shows "seg_base (make_gdt_desc base limit al ah) = base \<and>
    seg_limit (make_gdt_desc base limit al ah) = limit \<and>
    seg_attr (make_gdt_desc base limit al ah) =
      (bit al 7, drop_bit 5 al AND 3, bit al 4, al AND 0xf, bit ah 7)"
  using assms by (simp only: gdt_desc_base gdt_desc_limit gdt_desc_attr simp_thms)

theorem make_gdt_desc_roundtrip_witness:
  "seg_base (make_gdt_desc 0xc0012345 0x6abcd 0x89 0x80) = 0xc0012345 \<and>
   seg_limit (make_gdt_desc 0xc0012345 0x6abcd 0x89 0x80) = 0x6abcd \<and>
   seg_attr (make_gdt_desc 0xc0012345 0x6abcd 0x89 0x80) = (True, 0, False, 9, True)"
  using make_gdt_desc_roundtrip [of "0x80" "0x6abcd" "0xc0012345" "0x89"] by simp

lemma attr_values:
  "(ucast TSS_ATTR_LOW :: u8) = 0x89" "(ucast TSS_ATTR_HIGH :: u8) = 0x80"
  "(ucast GDT_CODE_ATTR_LOW_DPL3 :: u8) = 0xf8" "(ucast GDT_DATA_ATTR_LOW_DPL3 :: u8) = 0xf2"
  "(ucast GDT_ATTR_HIGH :: u8) = 0xc0"
  by (simp_all add: attr_defs desc_consts)

lemma selector_values:
  "SELECTOR_K_STACK = 0x10" "SELECTOR_TSS = 0x20" "SELECTOR_U_CODE = 0x2b" "SELECTOR_U_DATA = 0x33"
  by (simp_all add: selector_defs desc_consts)

lemma last_offset_limit:
  "bit ah 7 \<Longrightarrow> ah AND 0xf = 0 \<Longrightarrow> limit < 2 ^ 20 \<Longrightarrow>
   last_offset (make_gdt_desc base limit al ah) = unat limit * 4096 + 4095"
  using gdt_desc_attr [of ah base limit al] gdt_desc_limit [of ah limit base al]
  by (simp add: last_offset_def seg_attr_def Let_def)

text \<open>C34: \<open>tss_init\<close> returns, and through the table register it loads the selectors of \<open>global.h\<close> lead to the
  segments they are named after: the task register's selector to a present, busy task segment of privilege 0
  that starts at \<open>tss\<close>, the two user selectors, which carry privilege 3, to a code and a data segment of
  privilege 3 over all 4 GB, and the ring 0 stack segment is set. The limit of the task segment is not that of
  the structure: the granularity bit makes it reach to the end of 108 pages instead of 108 bytes, so that the
  offset 108 of the I/O permission bits, which is meant to lie outside, lies inside. No other descriptor
  changes.\<close>
theorem tss_init_segments:
  assumes "addr_of s Tss_obj \<noteq> NULL"
  shows "\<exists>t tssd code data. tss_init s = Ok () t \<and>
    gdt_entry (ucast (tr t)) t = Some tssd \<and> seg_base tssd = addr_of s Tss_obj \<and>
    seg_attr tssd = (True, 0, False, 11, True) \<and> seg_limit tssd = 107 \<and> last_offset tssd = 108 * 4096 - 1 \<and>
    unat (tss_io_base (tss t)) \<le> last_offset tssd \<and>
    gdt_entry SELECTOR_U_CODE t = Some code \<and> seg_base code = 0 \<and> last_offset code = 2 ^ 32 - 1 \<and>
    seg_attr code = (True, 3, True, 8, True) \<and>
    gdt_entry SELECTOR_U_DATA t = Some data \<and> seg_base data = 0 \<and> last_offset data = 2 ^ 32 - 1 \<and>
    seg_attr data = (True, 3, True, 2, True) \<and>
    SELECTOR_U_CODE AND 3 = 3 \<and> SELECTOR_U_DATA AND 3 = 3 \<and>
    tss t = zero_tss\<lparr>tss_ss0 := 0x10, tss_io_base := 108\<rparr> \<and>
    (\<forall>sel. sel \<notin> {0x20, 0x28, 0x30} \<longrightarrow> gdt t (0xc0000900 + sel) = gdt s (0xc0000900 + sel))"
proof -
  let ?d = "make_gdt_desc (addr_of s Tss_obj) 107 0x8b 0x80"
  have busy: "(make_gdt_desc (addr_of s Tss_obj) 107 0x89 0x80)
      \<lparr>attr_low_byte := attr_low_byte (make_gdt_desc (addr_of s Tss_obj) 107 0x89 0x80) OR 2\<rparr> = ?d"
    by (simp add: make_gdt_desc_def Let_def)
  obtain t where t: "tss_init s = Ok () t"
    and g: "gdt t = (gdt s)(0xc0000920 := ?d,
       0xc0000928 := make_gdt_desc 0 0xfffff 0xf8 0xc0, 0xc0000930 := make_gdt_desc 0 0xfffff 0xf2 0xc0)"
    and r: "gdtr t = 0xc00009000037" "tr t = 0x20" "tss t = zero_tss\<lparr>tss_ss0 := 0x10, tss_io_base := 108\<rparr>"
    using assms busy unfolding tss_init_def Let_def ltr_def set_gdt_def attr_values selector_values
    by (simp add: put_str_def fun_upd_twist)
  have e: "gdt_entry 0x20 t = Some (gdt t 0xc0000920)" "gdt_entry 0x2b t = Some (gdt t 0xc0000928)"
    "gdt_entry 0x33 t = Some (gdt t 0xc0000930)"
    by (simp_all add: gdt_entry_def r)
  have o: "\<forall>sel. sel \<notin> {0x20, 0x28, 0x30} \<longrightarrow> gdt t (0xc0000900 + sel) = gdt s (0xc0000900 + sel)"
  proof (intro allI impI)
    fix sel :: u32 assume "sel \<notin> {0x20, 0x28, 0x30}"
    then have "0xc0000900 + sel \<noteq> 0xc0000900 + 0x20" "0xc0000900 + sel \<noteq> 0xc0000900 + 0x28"
      "0xc0000900 + sel \<noteq> 0xc0000900 + 0x30"
      unfolding add_left_cancel by simp_all
    then show "gdt t (0xc0000900 + sel) = gdt s (0xc0000900 + sel)"
      unfolding g by simp
  qed
  have d: "gdt t 0xc0000920 = ?d" "gdt t 0xc0000928 = make_gdt_desc 0 0xfffff 0xf8 0xc0"
    "gdt t 0xc0000930 = make_gdt_desc 0 0xfffff 0xf2 0xc0"
    by (simp_all add: g)
  show ?thesis
    by (intro exI [of _ t] exI [of _ "gdt t 0xc0000920"] exI [of _ "gdt t 0xc0000928"]
        exI [of _ "gdt t 0xc0000930"] conjI t o)
      (simp_all add: selector_values r e d gdt_desc_base gdt_desc_limit gdt_desc_attr last_offset_limit)
qed

theorem tss_init_segments_witness:
  "\<exists>t tssd. tss_init demo_base = Ok () t \<and> gdt_entry (ucast (tr t)) t = Some tssd \<and>
     seg_base tssd = 0xc0003300 \<and> seg_attr tssd = (True, 0, False, 11, True) \<and> last_offset tssd = 108 * 4096 - 1"
  using tss_init_segments [of demo_base] by auto

end
