(* ===== verification/Console.thy ===== *)
theory Console
  imports Sync Cstring
begin

text \<open>
  The console, \<open>device/console.c\<close>: output of strings, characters and numbers under the console lock,
  so that the output of one call is not mixed with that of another thread.

  \<open>put_str\<close> of \<open>lib/kernel/print.S\<close> prints the bytes from its argument up to a zero byte;
  \<open>put_str_at\<close> reads them from memory. It does not end where memory holds no zero byte.
  The call is one event of the output. In the code the bytes are printed one by one, and with interrupts on another
  thread may print between two of them; the output of threads that print without the console lock is therefore outside
  the model. A thread that uses the routines below holds the lock from before the first byte until after the last.
\<close>

section \<open>Routines\<close>

partial_function (option) str_bytes :: "bytes \<Rightarrow> u32 \<Rightarrow> u8 list option" where
  "str_bytes m p =
     (if m p = 0 then Some [] else Option.bind (str_bytes m (p + 1)) (\<lambda>bs. Some (m p # bs)))"

definition text_of :: "u8 list \<Rightarrow> string" where
  "text_of bs = map (\<lambda>b. char_of (unat b)) bs"

definition put_str_at :: "u32 \<Rightarrow> 'e machine_scheme \<Rightarrow> (unit, 'e machine_scheme) res" where
  "put_str_at p s = bind (of_loop (str_bytes (mem s) p) s) (\<lambda>bs s. Ok () (put_str (text_of bs) s))"

definition console_init :: "'e kernel_scheme \<Rightarrow> 'e kernel_scheme" where
  "console_init s =
     (let s = put_str (ln ''console init start'') s;
          s = lock_init (addr_of s Console_lock) s
      in put_str (ln ''console init done'') s)"

definition console_acquire :: "'e kernel_scheme \<Rightarrow> (unit, 'e kernel_scheme) res" where
  "console_acquire s = lock_acquire (addr_of s Console_lock) s"

definition console_release :: "'e kernel_scheme \<Rightarrow> (unit, 'e kernel_scheme) res" where
  "console_release s = lock_release (addr_of s Console_lock) s"

definition console_put_str :: "u32 \<Rightarrow> 'e kernel_scheme \<Rightarrow> (unit, 'e kernel_scheme) res" where
  "console_put_str str s =
     bind (console_acquire s) (\<lambda>_ s.
     bind (put_str_at str s) (\<lambda>_ s.
     console_release s))"

definition console_put_char :: "u8 \<Rightarrow> 'e kernel_scheme \<Rightarrow> (unit, 'e kernel_scheme) res" where
  "console_put_char char_ascii s =
     bind (console_acquire s) (\<lambda>_ s.
     let s = put_char char_ascii s in
     console_release s)"

definition console_put_int :: "u32 \<Rightarrow> 'e kernel_scheme \<Rightarrow> (unit, 'e kernel_scheme) res" where
  "console_put_int num s =
     bind (console_acquire s) (\<lambda>_ s.
     let s = put_int num s in
     console_release s)"

section \<open>Printing\<close>

lemma str_bytes_cstr: "cstr m p xs \<Longrightarrow> str_bytes m p = Some xs"
proof (induction m p xs rule: cstr.induct)
  case (1 m p)
  then show ?case by (simp add: str_bytes.simps)
next
  case (2 m p x xs)
  then show ?case by (subst str_bytes.simps) simp
qed

lemma sema_rep_print [simp]:
  "sema_rep (put_str x s) T sp P r rs ws v on = sema_rep s T sp P r rs ws v on"
  "sema_rep (put_char c s) T sp P r rs ws v on = sema_rep s T sp P r rs ws v on"
  "sema_rep (put_int n s) T sp P r rs ws v on = sema_rep s T sp P r rs ws v on"
  by (rule sema_rep_cong; simp add: machine_defs)+

text \<open>The three routines take the lock, print once and give the lock back.\<close>

lemma console_section:
  assumes rep: "sema_rep s T sp (semaphore (addr_of s Console_lock)) r rs ws 1 on"
    and "lock_holder s (addr_of s Console_lock) \<noteq> r" and "lock_repeat s (addr_of s Console_lock) = 0"
    and body: "\<And>u. mem u = mem s \<Longrightarrow> body u = Ok () (u\<lparr>screen := screen u @ [out]\<rparr>)"
  shows "\<exists>t. bind (console_acquire s) (\<lambda>_ s. bind (body s) (\<lambda>_ s. console_release s)) = Ok () t \<and>
    screen t = screen s @ [out] \<and> mem t = mem s \<and> kernel.more t = kernel.more s \<and>
    lock_holder t (addr_of s Console_lock) = NULL \<and> lock_repeat t (addr_of s Console_lock) = 0 \<and>
    (if ws = [] then sema_rep t T sp (semaphore (addr_of s Console_lock)) r rs [] 1 on
     else sema_rep t T sp (semaphore (addr_of s Console_lock)) r (hd ws # rs) (tl ws) 1 on)"
proof -
  let ?L = "addr_of s Console_lock"
  obtain a where a: "lock_acquire ?L s = Ok () a" "sema_rep a T sp (semaphore ?L) r rs ws 0 on"
      "lock_holder a ?L = r" "lock_repeat a ?L = 1" "screen a = screen s" "mem a = mem s"
      "kernel.more a = kernel.more s" "addr_of a = addr_of s"
    using lock_acquire_takes [OF assms(1-3)] by blast
  let ?b = "a\<lparr>screen := screen a @ [out]\<rparr>"
  have "sema_rep ?b T sp (semaphore ?L) r rs ws 0 on"
    using a(2) by (subst sema_rep_cong [where s = a]) simp_all
  from lock_release_gives [OF this] obtain t where t: "lock_release ?L ?b = Ok () t"
      "lock_holder t ?L = NULL" "lock_repeat t ?L = 0" "screen t = screen ?b" "mem t = mem ?b"
      "kernel.more t = kernel.more ?b"
      "if ws = [] then sema_rep t T sp (semaphore ?L) r rs [] 1 on
       else sema_rep t T sp (semaphore ?L) r (hd ws # rs) (tl ws) 1 on"
    using a(3,4) by auto
  have "bind (console_acquire s) (\<lambda>_ s. bind (body s) (\<lambda>_ s. console_release s)) = Ok () t"
    using a(1,6,8) body [of a] t(1) by (simp add: console_acquire_def console_release_def)
  then show ?thesis using t a by simp
qed

section \<open>Property\<close>


definition demo_console :: kernel where "demo_console = lock_init 0xc0003080 (sti demo_kernel)"


end
