(* ===== verification/Process.thy ===== *)
theory Process
  imports Thread Tss Console
begin

text \<open>
  User processes, \<open>userprog/process.c\<close>: \<open>start_process\<close>, \<open>create_page_dir\<close>,
  \<open>create_user_vaddr_bitmap\<close> and \<open>process_execute\<close> (the activation of an address space is part of the
  context switch and is in \<open>Sched\<close>), with \<open>intr_exit\<close> of \<open>kernel/kernel.S\<close>, through which a process
  enters user mode.

  The copy of the kernel's directory entries goes through the paging unit word by word: the byte loop
  of \<open>memcpy\<close> moves whole words here, since both areas are aligned and 1024 bytes long.
\<close>

section \<open>Routines\<close>

definition USER_VADDR_START :: u32 where "USER_VADDR_START = 0x8048000"
definition USER_STACK3_VADDR :: u32 where "USER_STACK3_VADDR = 0xc0000000 - 0x1000"
definition DEFAULT_PRIO :: u8 where "DEFAULT_PRIO = 31"

definition EFLAGS_MBS :: u32 where "EFLAGS_MBS = push_bit 1 1"
definition EFLAGS_IF_1 :: u32 where "EFLAGS_IF_1 = push_bit 9 1"
definition EFLAGS_IOPL_0 :: u32 where "EFLAGS_IOPL_0 = push_bit 12 0"

definition DIV_ROUND_UP :: "u32 \<Rightarrow> u32 \<Rightarrow> u32" where
  "DIV_ROUND_UP X STEP = (X + STEP - 1) div STEP"

definition upd_frame :: "u32 \<Rightarrow> (intr_stack \<Rightarrow> intr_stack) \<Rightarrow> 'e kernel_scheme \<Rightarrow> 'e kernel_scheme" where
  "upd_frame p f s = s\<lparr>intr_stacks := (intr_stacks s)(p := f (intr_stacks s p))\<rparr>"

definition start_process :: "u32 \<Rightarrow> 'e kernel_scheme \<Rightarrow> (unit, 'e kernel_scheme) res" where
  "start_process filename s =
     (let cur = running_thread s;
          s = upd_task cur (\<lambda>t. t\<lparr>self_kstack := self_kstack t + 4 * sizeof_thread_stack\<rparr>) s;
          proc_stack = self_kstack (tasks s cur);
          s = upd_frame proc_stack (\<lambda>f. f\<lparr>is_edi := 0, is_esi := 0, is_ebp := 0, is_esp_dummy := 0,
                is_ebx := 0, is_edx := 0, is_ecx := 0, is_eax := 0, is_gs := 0,
                is_ds := SELECTOR_U_DATA, is_es := SELECTOR_U_DATA, is_fs := SELECTOR_U_DATA,
                is_eip := filename, is_cs := SELECTOR_U_CODE,
                is_eflags := EFLAGS_IOPL_0 OR EFLAGS_MBS OR EFLAGS_IF_1\<rparr>) s
      in bind (get_a_page PF_USER USER_STACK3_VADDR s) (\<lambda>v s.
         let s = upd_frame proc_stack (\<lambda>f. f\<lparr>is_esp := v + PG_SIZE\<rparr>) s;
             s = upd_frame proc_stack (\<lambda>f. f\<lparr>is_ss := SELECTOR_U_DATA\<rparr>) s
         in Ok () (s\<lparr>esp := proc_stack, eip := addr_of s Intr_exit\<rparr>)))"

text \<open>\<open>intr_exit\<close> pops the frame under the stack pointer. The result is the frame, whose fields are the
  register contents from then on; \<open>iret\<close> takes the stack pointer from it when the code segment it
  returns to is less privileged.\<close>

definition intr_exit :: "'e kernel_scheme \<Rightarrow> intr_stack \<times> 'e kernel_scheme" where
  "intr_exit s =
     (let f = intr_stacks s (esp s) in
      (f, s\<lparr>regs := \<lparr>r_ebp = is_ebp f, r_ebx = is_ebx f, r_edi = is_edi f, r_esi = is_esi f\<rparr>,
            eip := is_eip f, eflags := is_eflags f,
            esp := (if is_cs f AND 3 \<noteq> 0 then is_esp f else esp s + 68)\<rparr>))"

fun copy_words :: "nat \<Rightarrow> u32 \<Rightarrow> u32 \<Rightarrow> 'e kernel_scheme \<Rightarrow> (unit, 'e kernel_scheme) res" where
  "copy_words 0 dst src s = Ok () s"
| "copy_words (Suc n) dst src s =
     bind (load_word src s) (\<lambda>w s.
     bind (store_word dst w s) (\<lambda>_ s.
     copy_words n (dst + 4) (src + 4) s))"

definition create_page_dir :: "'e kernel_scheme \<Rightarrow> (u32, 'e kernel_scheme) res" where
  "create_page_dir s =
     bind (get_kernel_pages 1 s) (\<lambda>page_dir_vaddr s.
     if page_dir_vaddr = NULL
     then bind (console_put_str (addr_of s (Literal ''create_page_dir: get_kernel_page failed!'')) s) (\<lambda>_ s.
          Ok NULL s)
     else let dst = page_dir_vaddr + 0x300 * 4; src = 0xfffff000 + 0x300 * 4
          in bind (ASSERT (dst \<noteq> NULL \<and> src \<noteq> NULL)
                     (''lib/string.c'', 17, ''memcpy'', ''dst_ != NULL && src_ != NULL'') s) (\<lambda>_ s.
             bind (copy_words 256 dst src s) (\<lambda>_ s.
             bind (addr_v2p page_dir_vaddr s) (\<lambda>new_page_dir_phy_addr s.
             bind (store_word (page_dir_vaddr + 1023 * 4)
                     (new_page_dir_phy_addr OR PG_US_U OR PG_RW_W OR PG_P_1) s) (\<lambda>_ s.
             Ok page_dir_vaddr s)))))"

definition create_user_vaddr_bitmap :: "u32 \<Rightarrow> 'e kernel_scheme \<Rightarrow> (unit, 'e kernel_scheme) res" where
  "create_user_vaddr_bitmap user_prog s =
     (let upd = (\<lambda>f. upd_task user_prog (\<lambda>t. t\<lparr>userprog_vaddr_pool := f (userprog_vaddr_pool t)\<rparr>));
          s = upd (\<lambda>vp. vp\<lparr>vaddr_start := USER_VADDR_START\<rparr>) s;
          bitmap_pg_cnt = DIV_ROUND_UP ((0xc0000000 - USER_VADDR_START) div PG_SIZE div 8) PG_SIZE
      in bind (get_kernel_pages bitmap_pg_cnt s) (\<lambda>p s.
         let s = upd (\<lambda>vp. vp\<lparr>vaddr_bitmap := (vaddr_bitmap vp)\<lparr>bits := p\<rparr>\<rparr>) s;
             s = upd (\<lambda>vp. vp\<lparr>vaddr_bitmap := (vaddr_bitmap vp)
                   \<lparr>btmp_bytes_len := (0xc0000000 - USER_VADDR_START) div PG_SIZE div 8\<rparr>\<rparr>) s
         in bitmap_init (vaddr_bitmap (userprog_vaddr_pool (tasks s user_prog))) s))"

definition process_execute :: "u32 \<Rightarrow> u32 \<Rightarrow> 'e kernel_scheme \<Rightarrow> (unit, 'e kernel_scheme) res" where
  "process_execute filename name s =
     bind (get_kernel_pages 1 s) (\<lambda>thread s.
     bind (init_thread thread name DEFAULT_PRIO s) (\<lambda>_ s.
     bind (create_user_vaddr_bitmap thread s) (\<lambda>_ s.
     let s = thread_create thread (addr_of s Start_process) filename s in
     bind (create_page_dir s) (\<lambda>dir s.
     let s = upd_task thread (\<lambda>t. t\<lparr>pgdir := dir\<rparr>) s;
         s = block_desc_init (u_block_descs thread) s;
         (old_status, s) = intr_disable s
     in bind (enlist ''userprog/process.c'' ''process_execute'' 118 121 thread s) (\<lambda>_ s.
        Ok () (snd (set_intr_status old_status s)))))))"

section \<open>The directory of a new process\<close>

text \<open>The frame \<open>f\<close> holds neither the page directory nor a page table, so that writing to it changes no translation.\<close>

definition plain_frame :: "u32 \<Rightarrow> 'e machine_scheme \<Rightarrow> bool" where
  "plain_frame f s \<longleftrightarrow> self_mapped s \<and> page_aligned f \<and> (\<forall>d. unat d < 1024 \<longrightarrow> page_of (dir_entry s d) \<noteq> f)"

lemma plain_frame_cr3: "plain_frame f s \<Longrightarrow> page_aligned (cr3 s) \<and> cr3 s \<noteq> f"
proof -
  assume "plain_frame f s"
  moreover have "dir_entry s 1023 = phys s (cr3 s + 4092)" by (simp add: dir_entry_def)
  ultimately show ?thesis by (auto simp: plain_frame_def self_mapped_def dest: spec [of _ "1023 :: u32"])
qed

lemma plain_frame_write:
  fixes s :: "'e machine_scheme"
  assumes "plain_frame f s" and h: "\<forall>a. page_of a \<noteq> f \<longrightarrow> h a = phys s a"
  shows "translate (s\<lparr>phys := h\<rparr>) v = translate s v" and "plain_frame f (s\<lparr>phys := h\<rparr>)"
proof -
  note C = plain_frame_cr3 [OF assms(1)]
  have e: "h (cr3 s + d * 4) = phys s (cr3 s + d * 4)" if "unat d < 1024" for d
    using entry_addr_page [of "cr3 s" d] C that h by auto
  have "page_of (pte_slot s v) \<noteq> f"
    using assms(1) PDE_IDX_bound [of v] by (simp add: pte_slot_page pde_of_entry plain_frame_def)
  then have "h (pte_slot s v) = phys s (pte_slot s v)" using h by blast
  then show "translate (s\<lparr>phys := h\<rparr>) v = translate s v"
    using e [OF PDE_IDX_bound [of v]] by (simp add: translate_def pde_of_def pte_slot_def)
  show "plain_frame f (s\<lparr>phys := h\<rparr>)"
    using assms(1) e e [of 1023] by (auto simp: plain_frame_def self_mapped_def dir_entry_def)
qed

lemma translate_offset:
  assumes "page_aligned d" "unat k < 4096" "translate s d = Some f"
  shows "translate s (d + k) = Some (f + k)"
proof -
  have "page_of d = d" using page_of_offset [of d 0] assms(1) by simp
  then have "PDE_IDX (d + k) = PDE_IDX d" "PTE_IDX (d + k) = PTE_IDX d"
    using page_of_eq_iff [of "d + k" d] page_of_offset [OF assms(1,2)] by simp_all
  moreover have "d AND 0xfff = 0" "(d + k) AND 0xfff = k"
    unfolding word_unat_eq_iff low12
    using assms(1,2) page_aligned_room [OF assms(1,2)] by (simp_all add: page_aligned_def unat_add_below mod_add_eq [symmetric])
  ultimately show ?thesis using assms(3) by (simp add: translate_def pde_of_def pte_slot_def split: if_splits)
qed

definition word_at :: "u32 \<Rightarrow> nat \<Rightarrow> u32" where
  "word_at p j = p + of_nat (4 * j)"

lemma word_at_simps: "word_at p 0 = p" "word_at p (Suc j) = word_at (p + 4) j" "word_at (p + 0x300 * 4) j = word_at p (768 + j)"
  by (simp_all add: word_at_def)

lemma copy_words_ok:
  fixes s :: "'e kernel_scheme"
  assumes "plain_frame f s" "n \<le> 1024"
    and "\<forall>j<n. translate s (word_at dst j) = Some (word_at pd j) \<and> page_of (word_at pd j) = f"
    and "\<forall>j<n. translate s (word_at src j) = Some (word_at ps j) \<and> page_of (word_at ps j) \<noteq> f"
  shows "\<exists>h. copy_words n dst src s = Ok () (s\<lparr>phys := h\<rparr>) \<and> (\<forall>a. page_of a \<noteq> f \<longrightarrow> h a = phys s a) \<and>
    (\<forall>j<n. h (word_at pd j) = phys s (word_at ps j)) \<and> (\<forall>a. (\<forall>j<n. a \<noteq> word_at pd j) \<longrightarrow> h a = phys s a)"
  using assms
proof (induction n arbitrary: dst src pd ps s)
  case 0
  show ?case by (rule exI [of _ "phys s"]) simp
next
  case (Suc n)
  let ?h = "(phys s)(pd := phys s ps)"
  let ?s = "s\<lparr>phys := ?h\<rparr>"
  have t0: "translate s src = Some ps" "translate s dst = Some pd" "page_of pd = f" "page_of ps \<noteq> f"
    using Suc.prems(3) [rule_format, of 0] Suc.prems(4) [rule_format, of 0] by (simp_all add: word_at_simps)
  have keep: "\<forall>a. page_of a \<noteq> f \<longrightarrow> ?h a = phys s a" using t0(3) by auto
  note K = plain_frame_write [OF Suc.prems(1) keep]
  note sh = word_at_simps(2)
  have d: "\<forall>j<n. translate ?s (word_at (dst + 4) j) = Some (word_at (pd + 4) j) \<and> page_of (word_at (pd + 4) j) = f"
  proof (intro allI impI)
    fix j assume "j < n"
    then show "translate ?s (word_at (dst + 4) j) = Some (word_at (pd + 4) j) \<and> page_of (word_at (pd + 4) j) = f"
      using Suc.prems(3) [rule_format, of "Suc j"] unfolding K(1) sh by simp
  qed
  have r: "\<forall>j<n. translate ?s (word_at (src + 4) j) = Some (word_at (ps + 4) j) \<and> page_of (word_at (ps + 4) j) \<noteq> f"
  proof (intro allI impI)
    fix j assume "j < n"
    then show "translate ?s (word_at (src + 4) j) = Some (word_at (ps + 4) j) \<and> page_of (word_at (ps + 4) j) \<noteq> f"
      using Suc.prems(4) [rule_format, of "Suc j"] unfolding K(1) sh by simp
  qed
  obtain h where h: "copy_words n (dst + 4) (src + 4) ?s = Ok () (?s\<lparr>phys := h\<rparr>)" "\<forall>a. page_of a \<noteq> f \<longrightarrow> h a = phys ?s a"
      "\<forall>j<n. h (word_at (pd + 4) j) = phys ?s (word_at (ps + 4) j)" "\<forall>a. (\<forall>j<n. a \<noteq> word_at (pd + 4) j) \<longrightarrow> h a = phys ?s a"
    using Suc.IH [OF K(2) _ d r] Suc.prems(2) by auto
  have "copy_words (Suc n) dst src s = Ok () (s\<lparr>phys := h\<rparr>)"
    using h(1) t0(1,2) by (simp add: load_word_def store_word_def)
  moreover have "\<forall>a. page_of a \<noteq> f \<longrightarrow> h a = phys s a" using h(2) keep by simp
  moreover have "h (word_at pd j) = phys s (word_at ps j)" if "j < Suc n" for j
  proof (cases j)
    case 0
    have "pd \<noteq> word_at (pd + 4) i" if "i < n" for i
    proof -
      have "unat (of_nat (4 + 4 * i) :: u32) = 4 + 4 * i" using that Suc.prems(2) by (intro unat_of_nat_below) simp
      then have "of_nat (4 + 4 * i) \<noteq> (0 :: u32)" by (metis add_is_0 unat_0 zero_neq_numeral)
      then show ?thesis by (simp add: word_at_def add.assoc)
    qed
    then show ?thesis using h(4) 0 by (simp add: word_at_simps)
  next
    case (Suc i)
    then have "word_at ps j \<noteq> pd" using Suc.prems(4) t0(3) \<open>j < Suc n\<close> by blast
    then show ?thesis using h(3) that Suc unfolding Suc sh by simp
  qed
  moreover have "h a = phys s a" if "\<forall>j<Suc n. a \<noteq> word_at pd j" for a
  proof -
    have "a \<noteq> word_at (pd + 4) j" if "j < n" for j
      using \<open>\<forall>j<Suc n. a \<noteq> word_at pd j\<close> [rule_format, of "Suc j"] that unfolding sh by simp
    moreover have "a \<noteq> pd" using that by (auto simp: word_at_simps dest: spec [of _ 0])
    ultimately show ?thesis using h(4) by simp
  qed
  ultimately show ?case by blast
qed

lemma create_page_dir_ok:
  fixes s :: "'e kernel_scheme"
  assumes g: "get_kernel_pages 1 s = Ok d u" and d: "d \<noteq> NULL" "page_aligned d" and f: "translate u d = Some f" "plain_frame f u"
  shows "\<exists>h. create_page_dir s = Ok d (u\<lparr>phys := h\<rparr>) \<and> (\<forall>a. page_of a \<noteq> f \<longrightarrow> h a = phys u a) \<and>
    (\<forall>j<1024. h (word_at f j) = (if j = 1023 then f OR 7 else if 768 \<le> j then phys u (word_at (cr3 u) j) else phys u (word_at f j)))"
proof -
  note C = plain_frame_cr3 [OF f(2)]
  have pf: "page_aligned f" using f(2) by (simp add: plain_frame_def)
  have sm: "self_mapped u" using f(2) by (simp add: plain_frame_def)
  have w4: "unat (of_nat (4 * j) :: u32) = 4 * j" if "j < 1024" for j using that by (intro unat_of_nat_below) simp
  have td: "translate u (word_at d j) = Some (word_at f j)" "page_of (word_at f j) = f" if "j < 1024" for j
    using translate_offset [OF d(2) _ f(1), of "of_nat (4 * j)"] page_of_offset [OF pf, of "of_nat (4 * j)"] w4 [OF that] that by (simp_all add: word_at_def)
  have ts: "translate u (word_at 0xfffff000 j) = Some (word_at (cr3 u) j)" "page_of (word_at (cr3 u) j) \<noteq> f" if "j < 1024" for j
  proof -
    have "translate u 0xfffff000 = Some (cr3 u)" using translate_pde_ptr [OF sm, of 0] by (simp add: pde_ptr_def PDE_IDX_def)
    then show "translate u (word_at 0xfffff000 j) = Some (word_at (cr3 u) j)"
      using w4 [OF that] that unfolding word_at_def by (intro translate_offset) (simp_all add: page_aligned_def)
    show "page_of (word_at (cr3 u) j) \<noteq> f" using page_of_offset [of "cr3 u" "of_nat (4 * j)"] C w4 [OF that] that by (simp add: word_at_def)
  qed
  note e = word_at_simps(3)
  obtain h where h: "copy_words 256 (d + 0x300 * 4) (0xfffff000 + 0x300 * 4) u = Ok () (u\<lparr>phys := h\<rparr>)"
      "\<forall>a. page_of a \<noteq> f \<longrightarrow> h a = phys u a" "\<forall>j<256. h (word_at (f + 0x300 * 4) j) = phys u (word_at (cr3 u + 0x300 * 4) j)"
      "\<forall>a. (\<forall>j<256. a \<noteq> word_at (f + 0x300 * 4) j) \<longrightarrow> h a = phys u a"
  proof -
    have a: "\<forall>j<256. translate u (word_at (d + 0x300 * 4) j) = Some (word_at (f + 0x300 * 4) j) \<and> page_of (word_at (f + 0x300 * 4) j) = f"
      using td unfolding e by simp
    have b: "\<forall>j<256. translate u (word_at (0xfffff000 + 0x300 * 4) j) = Some (word_at (cr3 u + 0x300 * 4) j) \<and>
        page_of (word_at (cr3 u + 0x300 * 4) j) \<noteq> f"
      using ts unfolding e by simp
    have "(256 :: nat) \<le> 1024" by simp
    from copy_words_ok [OF f(2) this a b] show ?thesis by (elim exE conjE) (rule that)
  qed
  let ?w = "u\<lparr>phys := h\<rparr>"
  note K = plain_frame_write [OF f(2) h(2)]
  let ?k = "h(word_at f 1023 := f OR 7)"
  have v: "addr_v2p d ?w = Ok f ?w" using K f(1) by (intro addr_v2p_maps) (simp_all add: plain_frame_def)
  have st: "store_word (d + 1023 * 4) x ?w = Ok () (?w\<lparr>phys := h(word_at f 1023 := x)\<rparr>)" for x
    using td(1) [of 1023] K(1) [of "d + 1023 * 4"] by (simp add: store_word_def word_at_def)
  have "f OR PG_US_U OR PG_RW_W OR PG_P_1 = f OR 7" by (simp add: PG_US_U_def PG_RW_W_def PG_P_1_def or.assoc)
  moreover have "d + 0x300 * 4 \<noteq> NULL"
  proof
    assume "d + 0x300 * 4 = NULL"
    then have "page_of (d + 0xc00) = 0" by (simp add: page_of_def)
    then show False using page_of_offset [OF d(2), of "0xc00"] d(1) by simp
  qed
  ultimately have "create_page_dir s = Ok d (u\<lparr>phys := ?k\<rparr>)"
    using g d(1) h(1) v st by (simp add: create_page_dir_def)
  moreover have "\<forall>a. page_of a \<noteq> f \<longrightarrow> ?k a = phys u a" using h(2) td(2) [of 1023] by auto
  moreover have "?k (word_at f j) = (if j = 1023 then f OR 7 else if 768 \<le> j then phys u (word_at (cr3 u) j) else phys u (word_at f j))"
    if j: "j < 1024" for j
  proof -
    have inj: "word_at f i = word_at f j \<longleftrightarrow> i = j" if "i < 1024" for i
    proof -
      have "(of_nat (4 * i) :: u32) = of_nat (4 * j) \<longleftrightarrow> 4 * i = 4 * j" unfolding word_unat_eq_iff w4 [OF that] w4 [OF j] ..
      then show ?thesis by (simp add: word_at_def)
    qed
    have m: "h (word_at f j) = phys u (word_at (cr3 u) j)" if "768 \<le> j"
      using h(3) [rule_format, of "j - 768"] that j unfolding e by simp
    have l: "h (word_at f j) = phys u (word_at f j)" if "j < 768"
    proof -
      have "word_at f j \<noteq> word_at (f + 0x300 * 4) i" if "i < 256" for i
        using inj [of "768 + i"] that \<open>j < 768\<close> unfolding e by auto
      then show ?thesis using h(4) by blast
    qed
    show ?thesis using inj [of 1023] m l by auto
  qed
  ultimately show ?thesis by blast
qed

text \<open>The address space the new directory stands for.\<close>

lemma new_space:
  fixes s :: "'e kernel_scheme"
  assumes P: "plain_frame f u" and h: "\<forall>a. page_of a \<noteq> f \<longrightarrow> h a = phys u a"
    and k: "\<forall>j<1024. h (word_at f j) = (if j = 1023 then f OR 7 else if 768 \<le> j then phys u (word_at (cr3 u) j) else phys u (word_at f j))"
    and z: "\<forall>j<768. phys u (word_at f j) = 0" and t: "t = u\<lparr>phys := h, cr3 := f\<rparr>"
  shows "self_mapped t" and "unat v < 0xc0000000 \<Longrightarrow> translate t v = None"
    and "0xc0000000 \<le> unat v \<Longrightarrow> unat v < 0xffc00000 \<Longrightarrow> translate t v = translate u v"
proof -
  have f: "page_aligned f" using P by (simp add: plain_frame_def)
  have "h (f + 4092) = f OR 7" using k [rule_format, of 1023] by (simp add: word_at_def)
  moreover have "(f OR 7) AND 1 \<noteq> 0"
    using and_exp_eq_0_iff_not_bit [of "f OR 7" 0] by (simp add: bit_simps)
  moreover have "page_of (f OR 7) = f"
    using page_of_offset [OF f, of 0] by (simp add: page_of_def bit.conj_disj_distrib2)
  ultimately show "self_mapped t" using f by (simp add: self_mapped_def t)
  have w: "f + PDE_IDX v * 4 = word_at f (unat (PDE_IDX v))" "cr3 u + PDE_IDX v * 4 = word_at (cr3 u) (unat (PDE_IDX v))"
    by (simp_all add: word_at_def)
  have e: "pde_of t v = h (word_at f (unat (PDE_IDX v)))" by (simp add: pde_of_def t w)
  show "translate t v = None" if "unat v < 0xc0000000"
  proof -
    have "unat (PDE_IDX v) < 768" using that by (simp add: unat_PDE_IDX)
    then have "pde_of t v = 0" using k [rule_format, of "unat (PDE_IDX v)"] z e by simp
    then show ?thesis by (simp add: translate_def)
  qed
  show "translate t v = translate u v" if "0xc0000000 \<le> unat v" "unat v < 0xffc00000"
  proof -
    have "768 \<le> unat (PDE_IDX v)" "unat (PDE_IDX v) < 1023" using that by (simp_all add: unat_PDE_IDX)
    then have p: "pde_of t v = pde_of u v" using k [rule_format, of "unat (PDE_IDX v)"] e by (simp add: pde_of_def w)
    then have q: "pte_slot t v = pte_slot u v" by (simp add: pte_slot_def)
    have "page_of (pte_slot u v) \<noteq> f"
      using P PDE_IDX_bound [of v] by (simp add: pte_slot_page pde_of_entry plain_frame_def)
    then have "phys t (pte_slot t v) = phys u (pte_slot u v)" using h q by (simp add: t)
    then show ?thesis using p by (simp add: translate_def q)
  qed
qed

section \<open>Entering user mode\<close>

text \<open>The state in which \<open>start_process\<close> asks for the page of the user stack: the interrupt frame at \<open>p\<close> is filled in but for the
  stack pointer and its segment.\<close>

definition user_frame :: "u32 \<Rightarrow> intr_stack \<Rightarrow> intr_stack" where
  "user_frame f old = old\<lparr>is_edi := 0, is_esi := 0, is_ebp := 0, is_esp_dummy := 0, is_ebx := 0, is_edx := 0, is_ecx := 0,
     is_eax := 0, is_gs := 0, is_ds := SELECTOR_U_DATA, is_es := SELECTOR_U_DATA, is_fs := SELECTOR_U_DATA, is_eip := f,
     is_cs := SELECTOR_U_CODE, is_eflags := EFLAGS_IOPL_0 OR EFLAGS_MBS OR EFLAGS_IF_1\<rparr>"

definition starting :: "u32 \<Rightarrow> 'e kernel_scheme \<Rightarrow> 'e kernel_scheme" where
  "starting f s = (let p = self_kstack (tasks s (running_thread s)) + 4 * sizeof_thread_stack in
     upd_frame p (user_frame f) (upd_task (running_thread s) (\<lambda>t. t\<lparr>self_kstack := p\<rparr>) s))"

lemma start_process_eq:
  assumes "p = self_kstack (tasks s (running_thread s)) + 4 * sizeof_thread_stack"
  shows "start_process f s = bind (get_a_page PF_USER USER_STACK3_VADDR (starting f s)) (\<lambda>v s.
    let s = upd_frame p (\<lambda>f. f\<lparr>is_esp := v + PG_SIZE, is_ss := SELECTOR_U_DATA\<rparr>) s
    in Ok () (s\<lparr>esp := p, eip := addr_of s Intr_exit\<rparr>))"
  unfolding start_process_def starting_def assms
  by (simp add: Let_def upd_frame_def user_frame_def) (simp add: upd_task_def)

section \<open>Mapping a page of a process\<close>

lemma window_translate:
  assumes s: "self_mapped s" and w: "PDE_IDX a = 1023" and t: "cr3 t = cr3 s" "\<forall>a. page_of a = cr3 s \<longrightarrow> phys t a = phys s a"
  shows "translate t a = translate s a" and "self_mapped t"
proof -
  have c: "page_aligned (cr3 s)" using s by (simp add: self_mapped_def)
  have e: "phys t (cr3 s + d * 4) = phys s (cr3 s + d * 4)" if "unat d < 1024" for d
    using entry_addr_page [OF c that] t(2) by simp
  from e [of 1023] show st: "self_mapped t" using s t(1) by (simp add: self_mapped_def)
  show "translate t a = translate s a"
    using walk_last [OF w s] walk_last [OF w st] e [OF PTE_IDX_bound [of a]] t(1) by (simp add: translate_def)
qed

lemma clear_words_ok:
  fixes s :: "'e icu_scheme"
  assumes "self_mapped s" and "p \<noteq> cr3 s"
    and "\<forall>j<n. PDE_IDX (word_at v j) = 1023 \<and> translate s (word_at v j) = Some (word_at q j) \<and> page_of (word_at q j) = p"
  shows "clear_words n v s = Ok () (s\<lparr>phys := \<lambda>a. if \<exists>j<n. a = word_at q j then 0 else phys s a\<rparr>)"
  using assms
proof (induction n arbitrary: v q s)
  case (Suc n)
  let ?s = "s\<lparr>phys := (phys s)(q := 0)\<rparr>"
  note W = word_at_simps
  have v: "translate s v = Some q" "page_of q = p" using Suc.prems(3) [rule_format, of 0] by (simp_all add: W)
  have t: "cr3 ?s = cr3 s" "\<forall>a. page_of a = cr3 s \<longrightarrow> phys ?s a = phys s a" using v(2) Suc.prems(2) by auto
  have "\<forall>j<n. PDE_IDX (word_at (v + 4) j) = 1023 \<and> translate ?s (word_at (v + 4) j) = Some (word_at (q + 4) j) \<and>
      page_of (word_at (q + 4) j) = p"
    using Suc.prems(3) window_translate(1) [OF Suc.prems(1) _ t] unfolding W(2) [symmetric] by auto
  moreover have "self_mapped ?s" using window_translate(2) [OF Suc.prems(1) _ t, of "0xffc00000"] by (simp add: PDE_IDX_def)
  ultimately have "clear_words n (v + 4) ?s = Ok () (?s\<lparr>phys := \<lambda>a. if \<exists>j<n. a = word_at (q + 4) j then 0 else phys ?s a\<rparr>)"
    using Suc.prems(2) by (intro Suc.IH) simp_all
  moreover have "(\<exists>j<Suc n. a = word_at q j) \<longleftrightarrow> a = q \<or> (\<exists>j<n. a = word_at (q + 4) j)" for a
    using W(1) [of q] W(2) [of q] by (auto simp: less_Suc_eq_0_disj)
  then have "(\<lambda>a. if \<exists>j<n. a = word_at (q + 4) j then 0 else phys ?s a) = (\<lambda>a. if \<exists>j<Suc n. a = word_at q j then 0 else phys s a)"
    by (auto simp: fun_eq_iff)
  ultimately show ?case using v(1) by (simp add: store_word_def)
qed simp

text \<open>The other path of \<open>page_table_map\<close>: an address whose directory entry is clear gets a page table first.\<close>

lemma page_table_map_new:
  fixes s :: "'e kernel_scheme"
  assumes self: "self_mapped s" and v: "\<not> present (pde_of s v)" "PDE_IDX v \<noteq> 1023" "page_aligned v"
    and pa: "palloc PF_KERNEL s = Ok p (s\<lparr>mem := m\<rparr>)" and p: "page_aligned p" "p \<noteq> cr3 s" and q: "page_aligned q"
  shows "\<exists>h. page_table_map v q s = Ok () (s\<lparr>mem := m, phys := h\<rparr>) \<and> translate (s\<lparr>mem := m, phys := h\<rparr>) v = Some q"
proof -
  let ?e = "cr3 s + PDE_IDX v * 4" and ?w = "page_of (pte_ptr v)" and ?slot = "p + PTE_IDX v * 4"
  let ?h1 = "(phys s)(?e := pte_for p)" and ?s0 = "s\<lparr>mem := m\<rparr>"
  let ?s1 = "s\<lparr>mem := m, phys := ?h1\<rparr>"
  have c: "page_aligned (cr3 s)" using self by (simp add: self_mapped_def)
  have "unat (PDE_IDX v) \<noteq> 1023" using v(2) by (simp add: word_unat_eq_iff)
  then have "PDE_IDX v * 4 \<noteq> 4092" using unat_idx4(1) [of v] by (auto simp: word_unat_eq_iff)
  then have s1: "self_mapped ?s1" using self by (simp add: self_mapped_def)
  have d1: "pde_of ?s1 v = pte_for p" by (simp add: pde_of_def)
  note E = pte_for_props(1) [of p] pte_for_props(2) [OF p(1)] and Q = pte_for_props(1) [of q] pte_for_props(2) [OF q]
  have win: "PDE_IDX (word_at ?w j) = 1023 \<and> translate ?s1 (word_at ?w j) = Some (word_at p j) \<and> page_of (word_at p j) = p"
    if "j < 1024" for j
  proof -
    have u: "unat (of_nat (4 * j) :: u32) = 4 * j" using that by (intro unat_of_nat_below) simp
    have "page_of (word_at ?w j) = page_of (pte_ptr v)" unfolding word_at_def using that u by (intro page_of_offset) simp_all
    then have i: "PDE_IDX (word_at ?w j) = 1023" "PTE_IDX (word_at ?w j) = PDE_IDX v"
      by (simp_all add: page_of_eq_iff pte_ptr_idx)
    have "unat (word_at ?w j) = unat ?w + 4 * j"
      unfolding word_at_def using u that page_aligned_room [of ?w "4 * j"] by (subst unat_add_below) simp_all
    moreover obtain z where "unat ?w = 4096 * z" using page_aligned_page_of [of "pte_ptr v"] by (auto simp: page_aligned_def)
    ultimately have "word_at ?w j AND 0xfff = of_nat (4 * j)" using that u by (simp add: word_unat_eq_iff low12)
    moreover have "translate ?s1 (word_at ?w j) = Some (p + (word_at ?w j AND 0xfff))"
      using walk_last [OF i(1) s1] E by (simp add: translate_def i(2))
    ultimately have "translate ?s1 (word_at ?w j) = Some (word_at p j)" by (simp only: word_at_def [of p])
    moreover have "page_of (word_at p j) = p" unfolding word_at_def using that u p(1) by (intro page_of_offset) simp_all
    ultimately show ?thesis using i(1) by blast
  qed
  let ?h2 = "\<lambda>a. if \<exists>j<1024. a = word_at p j then 0 else ?h1 a"
  let ?s2 = "s\<lparr>mem := m, phys := ?h2\<rparr>"
  have cl: "clear_words 1024 ?w ?s1 = Ok () ?s2"
    using clear_words_ok [OF s1, of p 1024 ?w p] win p(2) by (simp cong: if_cong)
  have dir: "?h2 a = ?h1 a" if "page_of a = cr3 s" for a using that win p(2) by auto
  have s2: "self_mapped ?s2" using window_translate(2) [OF s1, of "0xffc00000" ?s2] dir by (simp add: PDE_IDX_def)
  have pe: "page_of ?e = cr3 s" using entry_addr_page [OF c PDE_IDX_bound] .
  have ps: "page_of ?slot = p" using unat_idx4(2) [of v] PTE_IDX_bound [of v] p(1) by (intro page_of_offset) simp_all
  have d2: "pde_of ?s2 v = pte_for p" "pte_slot ?s2 v = ?slot"
    using dir [OF pe] E by (simp_all add: pde_of_def pte_slot_def)
  have sl: "?slot = word_at p (unat (PTE_IDX v))" by (simp add: word_at_def)
  then have z: "phys ?s2 ?slot = 0" using PTE_IDX_bound [of v] by auto
  let ?t = "s\<lparr>mem := m, phys := ?h2(?slot := pte_for q)\<rparr>"
  have m0: "self_mapped ?s0" "translate ?s0 (pde_ptr v) = Some ?e" using self translate_pde_ptr [of ?s0 v] by (simp_all add: self_mapped_def)
  have "page_table_map v q s = Ok () ?t"
    using v(1) load_pde [OF self] pa m0 cl load_pte [OF s2, of v] translate_pte_ptr [OF s2, of v] E(1) d2 z
    by (simp add: page_table_map_def store_word_def pte_for_def page_of_def)
  moreover have "translate ?t v = Some q"
  proof -
    have "pde_of ?t v = pte_for p" using d2(1) pe ps p(2) by (auto simp: pde_of_def)
    moreover have "v AND 0xfff = 0" using v(3) by (simp add: page_aligned_def low12 flip: unat_eq_0)
    ultimately show ?thesis using E Q by (simp add: translate_def pte_slot_def)
  qed
  ultimately show ?thesis by blast
qed

text \<open>Where the directory entry is present and leads to a table that is not the directory.\<close>

lemma page_table_map_old:
  fixes s :: "'e kernel_scheme"
  assumes "self_mapped s" and "present (pde_of s v)" and "page_of (pde_of s v) \<noteq> cr3 s" and "translate s v = None"
    and "page_aligned v" and "page_aligned q"
  shows "\<exists>h. page_table_map v q s = Ok () (s\<lparr>phys := h\<rparr>) \<and> translate (s\<lparr>phys := h\<rparr>) v = Some q"
proof -
  have "ptabs s {PDE_IDX v}" using assms(1-3) PDE_IDX_bound [of v] by (simp add: ptabs_def pde_of_entry)
  from page_table_map_effect [OF this _ assms(4-6)] show ?thesis by auto
qed

text \<open>What \<open>get_a_page\<close> needs to grant a process the page at \<open>v\<close>: the lock of the user pool is free, the page lies in the pool of
  the process, both pools have a free frame, the directory maps itself and is not in a free frame, and the page
  is not mapped yet; it need not have a page table.\<close>

definition page_ready :: "u32 \<Rightarrow> 'e kernel_scheme \<Rightarrow> bool" where
  "page_ready v s \<longleftrightarrow>
     (let L = addr_of s User_pool_lock; cur = running_thread s; vp = userprog_vaddr_pool (tasks s cur); vb = vaddr_bitmap vp;
          i = (v - vaddr_start vp) div PG_SIZE; ub = pool_bits PF_USER s; kb = pool_bits PF_KERNEL s in
      sema_value s (semaphore L) = 1 \<and> lock_repeat s L = 0 \<and> lock_holder s L \<noteq> cur \<and> list_empty (waiters (semaphore L)) s \<and>
      pgdir (tasks s cur) \<noteq> NULL \<and> 0 \<le> sint i \<and> unat i < nbits vb \<and> pools_ok s \<and>
      bm_bytes vb \<inter> (bm_bytes ub \<union> bm_bytes kb) = {} \<and> \<not> full ub (mem s) \<and> \<not> full kb (mem s) \<and>
      self_mapped s \<and> (\<forall>k<nbits kb. \<not> bm_bit kb (mem s) k \<longrightarrow> frame PF_KERNEL s k \<noteq> cr3 s) \<and>
      PDE_IDX v \<noteq> 1023 \<and> (present (pde_of s v) \<longrightarrow> page_of (pde_of s v) \<noteq> cr3 s) \<and> translate s v = None \<and> page_aligned v)"

lemma full_cong: "(\<And>a. a \<in> bm_bytes b \<Longrightarrow> m a = m' a) \<Longrightarrow> full b m = full b m'"
  by (auto simp: full_def bm_bytes_def in_range_def word_less_nat_alt)

lemma locked_frame:
  fixes s :: "'e kernel_scheme"
  shows "tasks (locked L s) = tasks s" "mem (locked L s) = mem s" "running_thread (locked L s) = running_thread s"
    "pool_bits pf (locked L s) = pool_bits pf s" "frame pf (locked L s) = frame pf s" "pools_ok (locked L s) = pools_ok s"
    "phys (locked L s) = phys s" "cr3 (locked L s) = cr3 s" "addr_of (locked L s) = addr_of s" "intr_stacks (locked L s) = intr_stacks s"
    "lock_holder (locked L s) L = running_thread s" "lock_repeat (locked L s) L = 1" "sema_value (locked L s) (semaphore L) = 0"
    "list_empty l (locked L s) = list_empty l s"
  by (simp_all add: locked_def set_value_def set_holder_def set_repeat_def running_thread_def pool_bits_def pool_of_def
      frame_def [abs_def] pools_ok_def list_empty_def)

lemma page_table_map_either:
  fixes s :: "'e kernel_scheme"
  assumes self: "self_mapped s" and v: "translate s v = None" "page_aligned v" "PDE_IDX v \<noteq> 1023"
      "present (pde_of s v) \<longrightarrow> page_of (pde_of s v) \<noteq> cr3 s"
    and ok: "pools_ok s" "\<not> full (pool_bits PF_KERNEL s) (mem s)"
      "\<forall>k<nbits (pool_bits PF_KERNEL s). \<not> bm_bit (pool_bits PF_KERNEL s) (mem s) k \<longrightarrow> frame PF_KERNEL s k \<noteq> cr3 s"
    and q: "page_aligned q"
  shows "\<exists>m h. page_table_map v q s = Ok () (s\<lparr>mem := m, phys := h\<rparr>) \<and> translate (s\<lparr>mem := m, phys := h\<rparr>) v = Some q"
proof (cases "present (pde_of s v)")
  case True
  obtain h where "page_table_map v q s = Ok () (s\<lparr>phys := h\<rparr>)" "translate (s\<lparr>phys := h\<rparr>) v = Some q"
    using page_table_map_old [OF self True _ v(1,2) q] v(4) True by blast
  then show ?thesis by (intro exI [of _ "mem s"] exI [of _ h]) simp
next
  case False
  obtain k where k: "first_fit (pool_bits PF_KERNEL s) 1 (mem s) = Some k" "k < nbits (pool_bits PF_KERNEL s)"
      "\<not> bm_bit (pool_bits PF_KERNEL s) (mem s) k"
    using not_full_fit [OF pools_okD(1) [OF ok(1)] ok(2)] by blast
  show ?thesis
    using page_table_map_new [OF self False v(3,2) palloc_frame [OF ok(1) k(1)] frame_props(1) [OF ok(1) k(2)] _ q] ok(3) k(2,3)
    by blast
qed

lemma get_a_page_grants:
  fixes s :: "'e kernel_scheme"
  assumes R: "page_ready v s"
  shows "\<exists>t q. get_a_page PF_USER v s = Ok v t \<and> intr_stacks t = intr_stacks s \<and> addr_of t = addr_of s \<and> translate t v = Some q"
proof -
  let ?L = "addr_of s User_pool_lock" and ?vp = "userprog_vaddr_pool (tasks s (running_thread s))"
  let ?i = "(v - vaddr_start ?vp) div PG_SIZE" and ?ub = "pool_bits PF_USER s" and ?kb = "pool_bits PF_KERNEL s"
  let ?vb = "vaddr_bitmap ?vp"
  let ?l = "locked ?L s" and ?m = "mark_bit ?vb (unat ?i) True (mem s)"
  have r: "sema_value s (semaphore ?L) = 1" "lock_repeat s ?L = 0" "lock_holder s ?L \<noteq> running_thread s"
    "list_empty (waiters (semaphore ?L)) s" "pgdir (tasks s (running_thread s)) \<noteq> NULL" "0 \<le> sint ?i" "unat ?i < nbits ?vb"
    "pools_ok s" "bm_bytes ?vb \<inter> (bm_bytes ?ub \<union> bm_bytes ?kb) = {}" "\<not> full ?ub (mem s)" "\<not> full ?kb (mem s)" "self_mapped s"
    "\<forall>k<nbits ?kb. \<not> bm_bit ?kb (mem s) k \<longrightarrow> frame PF_KERNEL s k \<noteq> cr3 s" "PDE_IDX v \<noteq> 1023"
    "present (pde_of s v) \<longrightarrow> page_of (pde_of s v) \<noteq> cr3 s" "translate s v = None" "page_aligned v"
    using R unfolding page_ready_def Let_def by blast+
  let ?s1 = "?l\<lparr>mem := ?m\<rparr>"
  note F = locked_frame [where L = ?L and s = s]
  have b1: "pool_bits pf ?s1 = pool_bits pf s" "frame pf ?s1 = frame pf s" "pools_ok ?s1" for pf
  proof -
    have "kernel_mem_pool ?s1 = kernel_mem_pool s" "user_mem_pool ?s1 = user_mem_pool s"
      by (simp_all add: locked_def set_value_def set_holder_def set_repeat_def)
    then show "pool_bits pf ?s1 = pool_bits pf s" "frame pf ?s1 = frame pf s" "pools_ok ?s1"
      using r(8) by (simp_all add: pool_bits_def pool_of_def frame_def [abs_def] pools_ok_def)
  qed
  have bs: "bitmap_set ?vb ?i 1 ?l = Ok () ?s1" by (simp add: bitmap_set_eq F(2))
  have m: "?m a = mem s a" if "a \<in> bm_bytes ?ub \<union> bm_bytes ?kb" for a
    using mark_bit_frame [OF r(7), of a] r(9) that by blast
  have "\<not> full ?ub ?m" using r(10) full_cong [of ?ub ?m "mem s"] m by blast
  then obtain k where k: "first_fit ?ub 1 ?m = Some k" "k < nbits ?ub"
    using not_full_fit [OF pools_okD(1) [OF r(8)]] by blast
  let ?p = "frame PF_USER s k" and ?m2 = "mark_bit ?ub k True ?m"
  let ?s2 = "?l\<lparr>mem := ?m2\<rparr>"
  have pa: "palloc PF_USER ?s1 = Ok ?p ?s2" using palloc_frame [OF b1(3), of PF_USER k] k(1) b1 by simp
  have p: "page_aligned ?p" "?p \<noteq> NULL" using frame_props(1,2) [OF r(8) k(2)] .
  have m2: "?m2 a = mem s a" if "a \<in> bm_bytes ?kb" for a
  proof -
    have "a \<notin> bm_bytes ?ub" using r(8) that unfolding pools_ok_def by blast
    then show ?thesis using mark_bit_frame [OF k(2)] m that by simp
  qed
  have two: "self_mapped ?s2" "translate ?s2 v = translate s v" "pde_of ?s2 v = pde_of s v" "cr3 ?s2 = cr3 s"
    using r(12) F(7,8) by (simp_all add: self_mapped_def translate_def pde_of_def pte_slot_def)
  have b2: "pool_bits PF_KERNEL ?s2 = ?kb" "frame PF_KERNEL ?s2 k = frame PF_KERNEL s k" "pools_ok ?s2" for k
    using F(4-6) r(8) by simp_all
  have "\<not> full (pool_bits PF_KERNEL ?s2) (mem ?s2)" using r(11) full_cong [of ?kb ?m2 "mem s"] m2 by (simp add: b2)
  moreover have "\<forall>k<nbits (pool_bits PF_KERNEL ?s2). \<not> bm_bit (pool_bits PF_KERNEL ?s2) (mem ?s2) k \<longrightarrow> frame PF_KERNEL ?s2 k \<noteq> cr3 ?s2"
    using r(13) bm_bit_cong [of _ ?kb ?m2 "mem s"] m2 F(5) by (simp add: b2 two(4))
  ultimately obtain m' h where t0: "page_table_map v ?p ?s2 = Ok () (?s2\<lparr>mem := m', phys := h\<rparr>)"
      "translate (?s2\<lparr>mem := m', phys := h\<rparr>) v = Some ?p"
    using page_table_map_either [OF two(1) _ r(17,14) _ b2(3) _ _ p(1)] r(15,16) two(2-4) by auto
  obtain t where t: "t = ?s2\<lparr>mem := m', phys := h\<rparr>" by simp
  have "lock_release ?L t = Ok () (unlocked ?L t)"
  proof (rule lock_release_free)
    have "list_empty l t = list_empty l ?l" "running_thread t = running_thread ?l" for l
      by (simp_all add: t list_empty_def running_thread_def)
    then show "list_empty (waiters (semaphore ?L)) t" "lock_holder t ?L = running_thread t"
      using F(3,11,14) r(4) by (simp_all add: t)
  qed (use F(12,13) in \<open>simp_all add: t\<close>)
  moreover have "lock_acquire ?L s = Ok () ?l" using r(1-4) by (intro lock_acquire_free)
  ultimately have "get_a_page PF_USER v s = Ok v (unlocked ?L t)"
    using r(5,6) bs pa p(2) t0(1) F
    by (simp add: get_a_page_def pool_lock_def vpool_of_def Let_def t)
  moreover have "translate (unlocked ?L t) v = translate t v" "intr_stacks (unlocked ?L t) = intr_stacks t" "addr_of (unlocked ?L t) = addr_of t"
    by (simp_all add: translate_def pde_of_def pte_slot_def unlocked_def set_value_def set_holder_def set_repeat_def)
  moreover have "intr_stacks t = intr_stacks s" "addr_of t = addr_of s" using F(9,10) by (simp_all add: t)
  ultimately show ?thesis using t0(2) t by (intro exI [of _ "unlocked ?L t"] exI [of _ ?p]) simp
qed

lemma page_ready_starting: "page_ready v (starting f s) = page_ready v s"
proof -
  let ?t = "starting f s"
  have f: "kernel_mem_pool ?t = kernel_mem_pool s" "user_mem_pool ?t = user_mem_pool s" "addr_of ?t = addr_of s" "esp ?t = esp s"
    "sema_value ?t = sema_value s" "lock_repeat ?t = lock_repeat s" "lock_holder ?t = lock_holder s" "mem ?t = mem s"
    "node_next ?t = node_next s" "phys ?t = phys s" "cr3 ?t = cr3 s" "pgdir (tasks ?t x) = pgdir (tasks s x)"
    "userprog_vaddr_pool (tasks ?t x) = userprog_vaddr_pool (tasks s x)" for x
    by (simp_all add: starting_def upd_frame_def upd_task_def Let_def)
  have "pools_ok ?t = pools_ok s" "pool_bits pf ?t = pool_bits pf s" "translate ?t v = translate s v" "frame pf ?t = frame pf s"
    "self_mapped ?t = self_mapped s" "pde_of ?t v = pde_of s v" "running_thread ?t = running_thread s" "list_empty l ?t = list_empty l s" for l pf
    by (simp_all add: f pools_ok_def pool_bits_def pool_of_def translate_def pde_of_def pte_slot_def self_mapped_def
        frame_def [abs_def] running_thread_def list_empty_def)
  then show ?thesis by (simp add: page_ready_def f)
qed

section \<open>Properties\<close>

text \<open>C15: \<open>create_page_dir\<close> builds the address space of a process. With its page zeroed and of a frame that holds no table, the new
  directory maps itself in its last entry and no user address; every address of the kernel means
  under it what it means for the creator, and the creator's own address space is as before.\<close>
theorem create_page_dir_shares_kernel:
  fixes s :: "'e kernel_scheme"
  assumes "get_kernel_pages 1 s = Ok d u" and "d \<noteq> NULL" and "page_aligned d" and "translate u d = Some f"
    and "plain_frame f u" and "\<forall>j<768. phys u (word_at f j) = 0"
  shows "\<exists>t. create_page_dir s = Ok d t \<and> self_mapped (t\<lparr>cr3 := f\<rparr>) \<and>
    (\<forall>v. unat v < 0xc0000000 \<longrightarrow> translate (t\<lparr>cr3 := f\<rparr>) v = None) \<and>
    (\<forall>v. 0xc0000000 \<le> unat v \<and> unat v < 0xffc00000 \<longrightarrow> translate (t\<lparr>cr3 := f\<rparr>) v = translate u v) \<and>
    (\<forall>v. translate t v = translate u v)"
proof -
  obtain h where h: "create_page_dir s = Ok d (u\<lparr>phys := h\<rparr>)" "\<forall>a. page_of a \<noteq> f \<longrightarrow> h a = phys u a"
    "\<forall>j<1024. h (word_at f j) = (if j = 1023 then f OR 7 else if 768 \<le> j then phys u (word_at (cr3 u) j) else phys u (word_at f j))"
    using create_page_dir_ok [OF assms(1-5)] by (elim exE conjE) (rule that)
  note N = new_space [OF assms(5) h(2,3) assms(6) refl] and K = plain_frame_write(1) [OF assms(5) h(2)]
  show ?thesis using h(1) N K by (intro exI [of _ "u\<lparr>phys := h\<rparr>"]) simp
qed

lemma demo_boot_frames: "phys demo_boot = demo_phys" "phy_addr_start (kernel_mem_pool demo_boot) = 0x200000"
proof -
  obtain a b c d where t: "demo_boot = (lock_init 0xc0003040 demo_boot0)
      \<lparr>desc_block_size := a, desc_blocks_per_arena := b, node_prev := c, node_next := d\<rparr>"
    using block_desc_init_loop_same unfolding demo_boot_def block_desc_init_def by blast
  show "phys demo_boot = demo_phys" "phy_addr_start (kernel_mem_pool demo_boot) = 0x200000"
    unfolding t by (simp_all add: lock_init_fields demo_boot0_fields demo_vm_pools)
qed

theorem create_page_dir_shares_kernel_witness:
  "\<exists>t f. create_page_dir demo_boot = Ok 0xc0100000 t \<and> self_mapped (t\<lparr>cr3 := f\<rparr>) \<and> translate (t\<lparr>cr3 := f\<rparr>) 0x8048000 = None"
proof -
  obtain u F m h f where g: "get_kernel_pages 1 demo_boot = Ok 0xc0100000 u"
    and u: "u = clear_pages {0xc0100000} F (demo_boot\<lparr>lock_holder := (lock_holder demo_boot)(0xc0003040 := NULL), mem := m, phys := h\<rparr>)"
    and "m 0x1000 = 0" and f: "f \<in> F" "translate u 0xc0100000 = Some f" "F \<subseteq> frame PF_KERNEL demo_boot ` {..<8}"
      "\<forall>d. unat d < 1024 \<longrightarrow> dir_entry u d = dir_entry demo_boot d"
    by (rule demo_boot_page)
  note b = demo_boot_frames
  have e: "dir_entry u d \<in> {0, 0x101007, 0x100007}" if "unat d < 1024" for d
  proof -
    have "unat (d * 4) < 4096" using that by (simp add: unat_mult_below)
    then have "d * 4 \<noteq> 5128" "d * 4 \<noteq> 0x102ffc" by auto
    then show ?thesis using f(4) that by (auto simp: dir_entry_def b demo_boot_fields demo_phys_def)
  qed
  obtain k where k: "k < 8" "f = 0x200000 + of_nat k * 0x1000" using f(1,3) by (auto simp: frame_def pool_of_def b)
  have kk: "f \<in> {0x200000, 0x201000, 0x202000, 0x203000, 0x204000, 0x205000, 0x206000, 0x207000}"
  proof -
    have "k = 0 \<or> k = 1 \<or> k = 2 \<or> k = 3 \<or> k = 4 \<or> k = 5 \<or> k = 6 \<or> k = 7" using k(1) by arith
    then show ?thesis using k(2) by (elim disjE) simp_all
  qed
  have c: "cr3 u = 0x100000" by (simp add: u clear_pages_def demo_boot_fields)
  have "dir_entry u 1023 = 0x100007" using f(4) [rule_format, of 1023] by (simp add: dir_entry_def b demo_boot_fields demo_phys_def)
  then have sm: "self_mapped u" using c by (simp add: self_mapped_def dir_entry_def page_aligned_def page_of_def)
  have pf: "page_aligned f" using kk by (auto simp: page_aligned_def)
  have "page_of (dir_entry u d) \<in> {0, 0x101000, 0x100000}" if "unat d < 1024" for d
    using e [OF that] by (auto simp: page_of_def)
  then have pl: "plain_frame f u" unfolding plain_frame_def using sm pf kk by fastforce
  have "phys u (word_at f j) = 0" if "j < 768" for j
  proof -
    have "unat (of_nat (4 * j) :: u32) = 4 * j" using that by (intro unat_of_nat_below) simp
    then have "page_of (word_at f j) = f" using that page_of_offset [OF pf, of "of_nat (4 * j)"] by (simp add: word_at_def)
    then show ?thesis using f(1) by (simp add: u clear_pages_def)
  qed
  with create_page_dir_shares_kernel [OF g _ _ f(2) pl] obtain t where t: "create_page_dir demo_boot = Ok 0xc0100000 t"
      "self_mapped (t\<lparr>cr3 := f\<rparr>)" "\<forall>v. unat v < 0xc0000000 \<longrightarrow> translate (t\<lparr>cr3 := f\<rparr>) v = None"
    by (auto simp: page_aligned_def)
  have "translate (t\<lparr>cr3 := f\<rparr>) 0x8048000 = None" using t(3) [rule_format, of "0x8048000"] by simp
  then show ?thesis using t(1,2) by blast
qed

text \<open>C16: A process starts in user mode. With a free frame in both pools, \<open>start_process\<close> maps the page of the stack, after
  making a page table for it where the directory of the process has none yet, and returns into
  \<open>intr_exit\<close> with a frame that leaves the kernel at privilege 3: it continues at the program's entry with the
  code and data segments of user mode, an empty stack that ends at \<open>0xc0000000\<close>, interrupts on, no right
  to the I/O ports, and all general registers cleared.\<close>
theorem start_process_user_mode:
  fixes s :: "'e kernel_scheme"
  assumes "page_ready 0xbffff000 s"
  shows "\<exists>w u r. start_process f s = Ok () w \<and> eip w = addr_of s Intr_exit \<and> intr_exit w = (u, r) \<and>
    translate r 0xbffff000 \<noteq> None \<and> is_cs u AND 3 = 3 \<and> is_ss u AND 3 = 3 \<and> is_ds u = is_ss u \<and> is_es u = is_ss u \<and>
    is_fs u = is_ss u \<and> is_gs u = 0 \<and> is_eax u = 0 \<and> is_ebx u = 0 \<and> is_ecx u = 0 \<and> is_edx u = 0 \<and>
    is_edi u = 0 \<and> is_esi u = 0 \<and> is_ebp u = 0 \<and> regs r = \<lparr>r_ebp = 0, r_ebx = 0, r_edi = 0, r_esi = 0\<rparr> \<and>
    eip r = f \<and> esp r = 0xc0000000 \<and> get_intr_status r = INTR_ON \<and> eflags r AND 0x3000 = 0"
proof -
  let ?p = "self_kstack (tasks s (running_thread s)) + 128"
  obtain t q where t: "get_a_page PF_USER 0xbffff000 (starting f s) = Ok 0xbffff000 t" "intr_stacks t = intr_stacks (starting f s)"
      "addr_of t = addr_of (starting f s)" "translate t 0xbffff000 = Some q"
    using get_a_page_grants [of "0xbffff000" "starting f s"] assms by (auto simp: page_ready_starting)
  have i: "intr_stacks t ?p = user_frame f (intr_stacks s ?p)" "addr_of t = addr_of s"
    using t(2,3) by (simp_all add: starting_def upd_frame_def upd_task_def Let_def)
  let ?u = "(user_frame f (intr_stacks s ?p))\<lparr>is_esp := 0xc0000000, is_ss := SELECTOR_U_DATA\<rparr>"
  let ?w = "(upd_frame ?p (\<lambda>f. f\<lparr>is_esp := 0xbffff000 + PG_SIZE, is_ss := SELECTOR_U_DATA\<rparr>) t)\<lparr>esp := ?p, eip := addr_of t Intr_exit\<rparr>"
  have "start_process f s = Ok () ?w"
    using start_process_eq [of ?p s f] t(1) by (simp add: USER_STACK3_VADDR_def upd_frame_def)
  moreover have U: "is_cs ?u = 0x2b" "is_ss ?u = 0x33" "is_ds ?u = 0x33" "is_eflags ?u = 0x202" "is_eip ?u = f" "is_gs ?u = 0"
    "is_eax ?u = 0" "is_ebx ?u = 0" "is_ecx ?u = 0" "is_edx ?u = 0" "is_esp ?u = 0xc0000000"
    "is_edi ?u = 0" "is_esi ?u = 0" "is_ebp ?u = 0" "is_es ?u = 0x33" "is_fs ?u = 0x33"
    by (simp_all add: user_frame_def selector_values EFLAGS_IOPL_0_def EFLAGS_MBS_def EFLAGS_IF_1_def)
  moreover have "\<exists>r. intr_exit ?w = (?u, r) \<and> eip r = is_eip ?u \<and> eflags r = is_eflags ?u \<and>
      esp r = (if is_cs ?u AND 3 \<noteq> 0 then is_esp ?u else ?p + 68) \<and>
      regs r = \<lparr>r_ebp = is_ebp ?u, r_ebx = is_ebx ?u, r_edi = is_edi ?u, r_esi = is_esi ?u\<rparr> \<and> phys r = phys t \<and> cr3 r = cr3 t"
    using i by (simp add: intr_exit_def upd_frame_def Let_def)
  then obtain r where r: "intr_exit ?w = (?u, r)" "eip r = f" "eflags r = 0x202" "esp r = 0xc0000000" "phys r = phys t" "cr3 r = cr3 t"
      "regs r = \<lparr>r_ebp = 0, r_ebx = 0, r_edi = 0, r_esi = 0\<rparr>"
    unfolding U by auto
  moreover have "translate r 0xbffff000 \<noteq> None"
    using t(4) r(5,6) by (simp add: translate_def pde_of_def pte_slot_def split: if_splits)
  moreover have "get_intr_status r = INTR_ON" "eflags r AND 0x3000 = 0" using r(3) by (simp_all add: get_intr_status_def EFLAGS_IF_def)
  moreover have "eip ?w = addr_of s Intr_exit" using i(2) by simp
  moreover have "is_cs ?u AND 3 = 3" "is_ss ?u AND 3 = 3" "is_ds ?u = is_ss ?u" "is_es ?u = is_ss ?u" "is_fs ?u = is_ss ?u" unfolding U by simp_all
  ultimately show ?thesis by blast
qed

text \<open>A process about to start: the example machine, whose directory has no page table for any user address.\<close>

definition demo_process :: kernel where
  "demo_process = lock_init 0xc0003060 (demo_vm\<lparr>
     tasks := (tasks demo_vm)(0xc009e000 := (tasks demo_vm 0xc009e000)\<lparr>pgdir := 0xc0102000, self_kstack := 0xc009ee50,
       userprog_vaddr_pool := \<lparr>vaddr_bitmap = \<lparr>btmp_bytes_len = 0x16ff7, bits = 0xc0200000\<rparr>, vaddr_start = 0x8048000\<rparr>\<rparr>)\<rparr>)"

theorem start_process_user_mode_witness:
  "\<not> present (pde_of demo_process 0xbffff000) \<and>
   (\<exists>w u r. start_process 0x8048000 demo_process = Ok () w \<and> intr_exit w = (u, r) \<and> eip r = 0x8048000 \<and> esp r = 0xc0000000 \<and>
      translate r 0xbffff000 \<noteq> None)"
proof -
  let ?vb = "\<lparr>btmp_bytes_len = 0x16ff7, bits = 0xc0200000\<rparr>"
  have f: "addr_of demo_process = demo_addr" "esp demo_process = 0xc009eff0" "mem demo_process = mem demo_vm" "cr3 demo_process = 0x100000"
    "phys demo_process = demo_phys" "kernel_mem_pool demo_process = kernel_mem_pool demo_vm"
    "user_mem_pool demo_process = user_mem_pool demo_vm" "sema_value demo_process 0xc0003064 = 1"
    "lock_holder demo_process 0xc0003060 = 0" "lock_repeat demo_process 0xc0003060 = 0"
    "tasks demo_process 0xc009e000 = (tasks demo_vm 0xc009e000)\<lparr>pgdir := 0xc0102000, self_kstack := 0xc009ee50,
       userprog_vaddr_pool := \<lparr>vaddr_bitmap = ?vb, vaddr_start = 0x8048000\<rparr>\<rparr>"
    "list_empty 0xc0003068 demo_process"
    by (simp_all add: demo_process_def lock_init_def sema_init_def set_value_def set_repeat_def set_holder_def Let_def list_init_def
        set_prev_def set_next_def list_empty_def demo_vm_def)
  have p: "pool_bits pf demo_process = pool_bits pf demo_vm" "frame pf demo_process = frame pf demo_vm" for pf
    using f(6,7) by (simp_all add: pool_bits_def pool_of_def frame_def [abs_def])
  have "pools_ok demo_process" using demo_vm_pools_ok f(6,7) by (simp add: pools_ok_def pool_bits_def pool_of_def)
  moreover have "self_mapped demo_process" by (simp add: self_mapped_def f demo_phys_def page_aligned_def page_of_def)
  moreover have np: "\<not> present (pde_of demo_process 0xbffff000)" by (simp add: pde_of_def PDE_IDX_def f demo_phys_def)
  moreover have "translate demo_process 0xbffff000 = None" "PDE_IDX 0xbffff000 = 767"
    using np by (simp_all add: translate_def PDE_IDX_def)
  moreover have "\<not> full (pool_bits pf demo_vm) (mem demo_vm)" for pf
    unfolding full_def pool_bits_def pool_of_def by (cases pf) (simp_all add: demo_vm_pools demo_vm_def)
  moreover have "bm_bytes ?vb \<inter> (bm_bytes (pool_bits PF_USER demo_vm) \<union> bm_bytes (pool_bits PF_KERNEL demo_vm)) = {}"
  proof -
    have "a \<in> {0xc009a000, 0xc009a001}" if "a \<in> bm_bytes (pool_bits PF_USER demo_vm) \<union> bm_bytes (pool_bits PF_KERNEL demo_vm)" for a
      using that by (auto simp: bm_bytes_def demo_vm_pools one_byte)
    moreover have "0xc009a000 \<notin> bm_bytes ?vb" "0xc009a001 \<notin> bm_bytes ?vb" by (simp_all add: bm_bytes_def in_range_def)
    ultimately show ?thesis by blast
  qed
  moreover have "frame PF_KERNEL demo_vm k \<noteq> 0x100000" if "k < nbits (pool_bits PF_KERNEL demo_vm)" for k
    using unat_frame [OF demo_vm_pools_ok that] by (auto simp: pool_of_def demo_vm_def)
  ultimately have "page_ready 0xbffff000 demo_process"
    by (simp add: page_ready_def f p running_thread_def page_aligned_def nbits_def)
  from start_process_user_mode [OF this, of "0x8048000"] np show ?thesis by blast
qed

end
