(* ===== verification/Syscall.thy ===== *)
theory Syscall
  imports Process Timer
begin

text \<open>
  System calls: the kernel side \<open>userprog/syscallInit.c\<close>, the entry \<open>syscall_handler\<close> of
  \<open>kernel/kernel.S\<close>, and the user side \<open>lib/user/syscall.c\<close>.

  The register contents of the caller are a value of type \<open>intr_stack\<close>, the structure in which the entry code saves
  them. \<open>int 0x80\<close> goes through an interrupt gate, so interrupts are off in the kernel; a caller in
  user mode is moved to the ring 0 stack the task segment names, one in kernel mode keeps its
  stack. The number of the call is not compared with the size of the table: what runs for a number
  whose entry is none of the four routines is the argument \<open>other\<close>, and \<open>residue\<close> is what a routine
  without a result leaves in \<open>eax\<close>.
\<close>

section \<open>Kernel side\<close>

definition sys_getpid :: "'e kernel_scheme \<Rightarrow> u32" where
  "sys_getpid s = ucast (pid (tasks s (running_thread s)))"

definition sys_write :: "u32 \<Rightarrow> 'e kernel_scheme \<Rightarrow> (u32, 'e kernel_scheme) res" where
  "sys_write str s =
     bind (console_put_str str s) (\<lambda>_ s.
     strlen str s)"

datatype SYSCALL_NR = SYS_GETPID | SYS_WRITE | SYS_MALLOC | SYS_FREE

fun nr :: "SYSCALL_NR \<Rightarrow> u32" where
  "nr SYS_GETPID = 0"
| "nr SYS_WRITE = 1"
| "nr SYS_MALLOC = 2"
| "nr SYS_FREE = 3"

definition syscall_init :: "'e device_scheme \<Rightarrow> 'e device_scheme" where
  "syscall_init s =
     (let s = put_str (ln ''syscall_init start'') s;
          s = s\<lparr>syscall_table := (syscall_table s)(nr SYS_GETPID := addr_of s Sys_getpid)\<rparr>;
          s = s\<lparr>syscall_table := (syscall_table s)(nr SYS_WRITE := addr_of s Sys_write)\<rparr>;
          s = s\<lparr>syscall_table := (syscall_table s)(nr SYS_MALLOC := addr_of s Sys_malloc)\<rparr>;
          s = s\<lparr>syscall_table := (syscall_table s)(nr SYS_FREE := addr_of s Sys_free)\<rparr>
      in put_str (ln ''syscall_init done'') s)"

section \<open>The entry\<close>

type_synonym 'e code = "u32 \<Rightarrow> u32 \<Rightarrow> u32 \<Rightarrow> u32 \<Rightarrow> 'e device_scheme \<Rightarrow> (u32, 'e device_scheme) res"

text \<open>\<open>call [syscall_table + eax*4]\<close> with the three arguments on the stack.\<close>

definition call_syscall ::
    "'e code \<Rightarrow> u32 \<Rightarrow> u32 \<Rightarrow> u32 \<Rightarrow> u32 \<Rightarrow> u32 \<Rightarrow> 'e device_scheme \<Rightarrow> (u32, 'e device_scheme) res" where
  "call_syscall other residue eax ebx ecx edx s =
     (let f = syscall_table s eax in
      if f = addr_of s Sys_getpid then Ok (sys_getpid s) s
      else if f = addr_of s Sys_write then sys_write ebx s
      else if f = addr_of s Sys_malloc then sys_malloc ebx s
      else if f = addr_of s Sys_free then bind (sys_free ebx s) (\<lambda>_ s. Ok residue s)
      else other f ebx ecx edx s)"

definition from_user :: "intr_stack \<Rightarrow> bool" where
  "from_user u \<longleftrightarrow> is_cs u AND 3 \<noteq> 0"

definition syscall_handler ::
    "'e code \<Rightarrow> u32 \<Rightarrow> intr_stack \<Rightarrow> 'e device_scheme \<Rightarrow> (intr_stack, 'e device_scheme) res" where
  "syscall_handler other residue u s =
     (let p = (if from_user u then tss_esp0 (tss s) - 76 else is_esp u - 68);
          old = intr_stacks s p;
          u = (if from_user u then u else u\<lparr>is_esp := is_esp old, is_ss := is_ss old\<rparr>);
          s = cli (s\<lparr>intr_stacks := (intr_stacks s)(p := u\<lparr>is_vec_no := 0x80, is_err_code := 0\<rparr>)\<rparr>);
          s = s\<lparr>esp := p - 16\<rparr>
      in bind (call_syscall other residue (is_eax u) (is_ebx u) (is_ecx u) (is_edx u) s) (\<lambda>eax s.
         let s = s\<lparr>esp := p\<rparr>;
             s = upd_frame p (\<lambda>f. f\<lparr>is_eax := eax\<rparr>) s;
             (f, s) = intr_exit s
         in Ok f s))"

section \<open>User side\<close>

text \<open>The macros \<open>_syscall0\<close>, \<open>_syscall1\<close>, \<open>_syscall2\<close> and \<open>_syscall3\<close>: the result is the value left in \<open>eax\<close> and
  the registers afterwards.\<close>

definition syscall0 ::
    "'e code \<Rightarrow> u32 \<Rightarrow> u32 \<Rightarrow> intr_stack \<Rightarrow> 'e device_scheme \<Rightarrow> (u32 \<times> intr_stack, 'e device_scheme) res" where
  "syscall0 other residue NUMBER u s =
     bind (syscall_handler other residue (u\<lparr>is_eax := NUMBER\<rparr>) s) (\<lambda>u s. Ok (is_eax u, u) s)"

definition syscall1 ::
    "'e code \<Rightarrow> u32 \<Rightarrow> u32 \<Rightarrow> u32 \<Rightarrow> intr_stack \<Rightarrow> 'e device_scheme \<Rightarrow> (u32 \<times> intr_stack, 'e device_scheme) res" where
  "syscall1 other residue NUMBER ARG1 u s =
     bind (syscall_handler other residue (u\<lparr>is_eax := NUMBER, is_ebx := ARG1\<rparr>) s) (\<lambda>u s. Ok (is_eax u, u) s)"

definition syscall2 ::
    "'e code \<Rightarrow> u32 \<Rightarrow> u32 \<Rightarrow> u32 \<Rightarrow> u32 \<Rightarrow> intr_stack \<Rightarrow> 'e device_scheme \<Rightarrow>
     (u32 \<times> intr_stack, 'e device_scheme) res" where
  "syscall2 other residue NUMBER ARG1 ARG2 u s =
     bind (syscall_handler other residue (u\<lparr>is_eax := NUMBER, is_ebx := ARG1, is_ecx := ARG2\<rparr>) s)
       (\<lambda>u s. Ok (is_eax u, u) s)"

definition syscall3 ::
    "'e code \<Rightarrow> u32 \<Rightarrow> u32 \<Rightarrow> u32 \<Rightarrow> u32 \<Rightarrow> u32 \<Rightarrow> intr_stack \<Rightarrow> 'e device_scheme \<Rightarrow>
     (u32 \<times> intr_stack, 'e device_scheme) res" where
  "syscall3 other residue NUMBER ARG1 ARG2 ARG3 u s =
     bind (syscall_handler other residue (u\<lparr>is_eax := NUMBER, is_ebx := ARG1, is_ecx := ARG2, is_edx := ARG3\<rparr>) s)
       (\<lambda>u s. Ok (is_eax u, u) s)"

definition getpid ::
    "'e code \<Rightarrow> u32 \<Rightarrow> intr_stack \<Rightarrow> 'e device_scheme \<Rightarrow> (u32 \<times> intr_stack, 'e device_scheme) res" where
  "getpid other residue u s = syscall0 other residue (nr SYS_GETPID) u s"

definition write_call ::
    "'e code \<Rightarrow> u32 \<Rightarrow> u32 \<Rightarrow> intr_stack \<Rightarrow> 'e device_scheme \<Rightarrow> (u32 \<times> intr_stack, 'e device_scheme) res" where
  "write_call other residue str u s = syscall1 other residue (nr SYS_WRITE) str u s"

definition malloc ::
    "'e code \<Rightarrow> u32 \<Rightarrow> u32 \<Rightarrow> intr_stack \<Rightarrow> 'e device_scheme \<Rightarrow> (u32 \<times> intr_stack, 'e device_scheme) res" where
  "malloc other residue sz u s = syscall1 other residue (nr SYS_MALLOC) sz u s"

definition free ::
    "'e code \<Rightarrow> u32 \<Rightarrow> u32 \<Rightarrow> intr_stack \<Rightarrow> 'e device_scheme \<Rightarrow> (intr_stack, 'e device_scheme) res" where
  "free other residue ptr u s =
     bind (syscall1 other residue (nr SYS_FREE) ptr u s) (\<lambda>(_, u) s. Ok u s)"

section \<open>The way of a call\<close>

text \<open>The frame of a call from user mode, and the state in which the routine of the call runs.\<close>

definition call_frame :: "intr_stack \<Rightarrow> intr_stack" where
  "call_frame u = u\<lparr>is_vec_no := 0x80, is_err_code := 0\<rparr>"

definition call_stack :: "'e kernel_scheme \<Rightarrow> u32" where
  "call_stack s = tss_esp0 (tss s) - 76"

definition entered :: "intr_stack \<Rightarrow> 'e device_scheme \<Rightarrow> 'e device_scheme" where
  "entered u s = (cli (s\<lparr>intr_stacks := (intr_stacks s)(call_stack s := call_frame u)\<rparr>))\<lparr>esp := call_stack s - 16\<rparr>"

text \<open>The state back in the program: the frame is left behind on the kernel stack.\<close>

definition left :: "u32 \<Rightarrow> intr_stack \<Rightarrow> u32 \<Rightarrow> 'e device_scheme \<Rightarrow> 'e device_scheme" where
  "left p u r t = t\<lparr>intr_stacks := (intr_stacks t)(p := (call_frame u)\<lparr>is_eax := r\<rparr>),
     regs := \<lparr>r_ebp = is_ebp u, r_ebx = is_ebx u, r_edi = is_edi u, r_esi = is_esi u\<rparr>,
     eip := is_eip u, eflags := is_eflags u, esp := is_esp u\<rparr>"

lemma syscall_handler_user:
  assumes "from_user u" and "call_syscall other residue (is_eax u) (is_ebx u) (is_ecx u) (is_edx u) (entered u s) = Ok r t"
    and "intr_stacks t (call_stack s) = call_frame u"
  shows "syscall_handler other residue u s = Ok ((call_frame u)\<lparr>is_eax := r\<rparr>) (left (call_stack s) u r t)"
  using assms
  by (simp add: syscall_handler_def entered_def call_stack_def [symmetric] call_frame_def Let_def intr_exit_def upd_frame_def
      left_def from_user_def)

lemma syscall_init_table:
  "syscall_table (syscall_init s) (nr n) = addr_of s (case n of SYS_GETPID \<Rightarrow> Sys_getpid | SYS_WRITE \<Rightarrow> Sys_write
     | SYS_MALLOC \<Rightarrow> Sys_malloc | SYS_FREE \<Rightarrow> Sys_free)"
  by (cases n) (simp_all add: syscall_init_def put_str_def)

lemma entered_fields [simp]:
  "syscall_table (entered u s) = syscall_table s" "addr_of (entered u s) = addr_of s" "tasks (entered u s) = tasks s"
  "mem (entered u s) = mem s" "screen (entered u s) = screen s" "sema_value (entered u s) = sema_value s"
  "lock_holder (entered u s) = lock_holder s" "lock_repeat (entered u s) = lock_repeat s"
  "node_next (entered u s) = node_next s" "node_prev (entered u s) = node_prev s"
  "intr_stacks (entered u s) (call_stack s) = call_frame u" "kernel.more (entered u s) = kernel.more s"
  "list_empty l (entered u s) = list_empty l s"
  by (simp_all add: entered_def cli_def list_empty_def)

lemma entered_thread:
  assumes "tss_esp0 (tss s) = cur + 0x1000" "page_of cur = cur"
  shows "running_thread (entered u s) = cur"
  using page_low [OF assms(2), of 4004] assms(1)
  by (simp add: running_thread_def entered_def call_stack_def page_of_def add.commute [of cur])

lemma left_fields [simp]:
  "eip (left p u r t) = is_eip u" "esp (left p u r t) = is_esp u" "eflags (left p u r t) = is_eflags u"
  "tasks (left p u r t) = tasks t" "mem (left p u r t) = mem t" "screen (left p u r t) = screen t"
  "kernel.more (left p u r t) = kernel.more t" "sema_value (left p u r t) = sema_value t"
  "lock_holder (left p u r t) = lock_holder t" "lock_repeat (left p u r t) = lock_repeat t"
  by (simp_all add: left_def)

text \<open>The call \<open>write\<close> when nobody uses the console or waits for it.\<close>

definition console_free :: "u32 \<Rightarrow> 'e kernel_scheme \<Rightarrow> bool" where
  "console_free cur s \<longleftrightarrow> (let L = addr_of s Console_lock in
     sema_value s (semaphore L) = 1 \<and> lock_repeat s L = 0 \<and> lock_holder s L \<noteq> cur \<and> list_empty (waiters (semaphore L)) s)"

lemma console_put_str_free:
  assumes "console_free (running_thread s) s" and "cstr (mem s) str bs"
  shows "console_put_str str s = Ok () (put_str (text_of bs) (unlocked (addr_of s Console_lock) (locked (addr_of s Console_lock) s)))"
proof -
  let ?L = "addr_of s Console_lock"
  let ?l = "locked ?L s"
  let ?p = "put_str (text_of bs) ?l"
  have l: "lock_acquire ?L s = Ok () ?l" using assms(1) by (intro lock_acquire_free) (simp_all add: console_free_def Let_def)
  have lf: "addr_of ?l = addr_of s" "mem ?l = mem s" "running_thread ?l = running_thread s" "sema_value ?l (semaphore ?L) = 0"
    "lock_holder ?l ?L = running_thread s" "lock_repeat ?l ?L = 1" "list_empty w ?l = list_empty w s" for w
    by (simp_all add: locked_def set_value_def set_holder_def set_repeat_def running_thread_def list_empty_def)
  have "put_str_at str ?l = Ok () ?p" using str_bytes_cstr [OF assms(2)] lf(2) by (simp add: put_str_at_def)
  moreover have pf: "sema_value ?p = sema_value ?l" "lock_holder ?p = lock_holder ?l" "lock_repeat ?p = lock_repeat ?l"
    "running_thread ?p = running_thread ?l" "list_empty w ?p = list_empty w ?l" for w
    by (simp_all add: put_str_def running_thread_def list_empty_def)
  moreover have "lock_release ?L ?p = Ok () (unlocked ?L ?p)"
    using lf assms(1) by (intro lock_release_free) (simp_all add: pf console_free_def Let_def)
  moreover have "unlocked ?L ?p = put_str (text_of bs) (unlocked ?L ?l)"
    by (simp add: unlocked_def put_str_def set_value_def set_holder_def set_repeat_def)
  moreover have "addr_of ?p = addr_of s" using lf(1) by (simp add: put_str_def)
  ultimately show ?thesis using l by (simp add: console_put_str_def console_acquire_def console_release_def)
qed

lemma sys_write_free:
  assumes "console_free (running_thread s) s" and "cstr (mem s) str bs" and "str \<noteq> NULL"
  shows "sys_write str s = Ok (of_nat (length bs)) (put_str (text_of bs) (unlocked (addr_of s Console_lock) (locked (addr_of s Console_lock) s)))"
  using console_put_str_free [OF assms(1,2)] strlen_loop_cstr [OF assms(2)] assms(3)
  by (simp add: sys_write_def strlen_def put_str_def)

section \<open>Properties\<close>

text \<open>C19: \<open>getpid\<close> from user mode returns with the number of the thread on whose kernel stack the task segment has put the call.
  The program goes on where it was, with its stack, its flags and all its registers but \<open>eax\<close> as before the
  call, and the call leaves memory, tasks and devices alone.\<close>
theorem syscall_getpid_context:
  fixes s :: "'e device_scheme"
  assumes "from_user u" and "tss_esp0 (tss s) = cur + 0x1000" and "page_of cur = cur"
    and "syscall_table s 0 = addr_of s Sys_getpid"
  shows "\<exists>t. getpid other residue u s = Ok (ucast (pid (tasks s cur)), u\<lparr>is_eax := ucast (pid (tasks s cur)), is_vec_no := 0x80,
      is_err_code := 0\<rparr>) t \<and> eip t = is_eip u \<and> esp t = is_esp u \<and> eflags t = is_eflags u \<and>
    tasks t = tasks s \<and> mem t = mem s \<and> screen t = screen s \<and> kernel.more t = kernel.more s"
proof -
  let ?u = "u\<lparr>is_eax := 0\<rparr>"
  have "call_syscall other residue (is_eax ?u) (is_ebx ?u) (is_ecx ?u) (is_edx ?u) (entered ?u s) =
      Ok (ucast (pid (tasks s cur))) (entered ?u s)"
    using assms(4) entered_thread [OF assms(2,3)] by (simp add: call_syscall_def sys_getpid_def)
  then have "syscall_handler other residue ?u s = Ok ((call_frame ?u)\<lparr>is_eax := ucast (pid (tasks s cur))\<rparr>)
      (left (call_stack s) ?u (ucast (pid (tasks s cur))) (entered ?u s))"
    using assms(1) by (intro syscall_handler_user) (simp_all add: from_user_def)
  then show ?thesis by (simp add: getpid_def syscall0_def call_frame_def)
qed

text \<open>The user program of the third example thread, in the middle of a call of number 0.\<close>

definition demo_user :: device where
  "demo_user = (syscall_init demo_device)\<lparr>tss := (zero_tss)\<lparr>tss_esp0 := 0xc0102000\<rparr>\<rparr>"

definition demo_context :: intr_stack where
  "demo_context = zero_intr_stack\<lparr>is_cs := 0x2b, is_ss := 0x33, is_ds := 0x33, is_eip := 0x8048100, is_esp := 0xbffffff0,
     is_eflags := 0x202, is_ebx := 5\<rparr>"

lemma demo_user_fields:
  "tss_esp0 (tss demo_user) = 0xc0101000 + 0x1000" "page_of 0xc0101000 = 0xc0101000" "from_user demo_context"
  "syscall_table demo_user 0 = addr_of demo_user Sys_getpid" "tasks demo_user = demo_tasks" "addr_of demo_user = demo_addr"
  "syscall_table demo_user 1 = addr_of demo_user Sys_write"
  by (simp_all add: demo_user_def page_of_def from_user_def demo_context_def syscall_init_def put_str_def demo_device_kernel)

theorem syscall_getpid_context_witness:
  "\<exists>v t. getpid (\<lambda>_ _ _ _ s. Blocked s) 0 demo_context demo_user = Ok (0, v) t \<and> is_ebx v = 5 \<and> esp t = 0xbffffff0 \<and>
    eip t = 0x8048100 \<and> eflags t = 0x202"
  using syscall_getpid_context [OF demo_user_fields(3) demo_user_fields(1,2,4), of "\<lambda>_ _ _ _ s. Blocked s" 0]
  by (auto simp: demo_user_fields demo_tasks_def zero_task_def demo_context_def)

end
