(* ===== verification/Stdio.thy ===== *)
theory Stdio
  imports Syscall
begin

text \<open>
  Formatted output of user programs, \<open>lib/stdio.c\<close>: \<open>itoa\<close>, \<open>vsprintf\<close>, \<open>printf\<close> and \<open>sprintf\<close>, over the
  byte memory of the program. A variable argument list is the address of the last named argument; the
  macro \<open>va_arg\<close> moves it on by four and reads there. Where the compiler puts the buffer and the
  arguments are arguments of the definitions.

  \<open>itoa\<close> gives \<open>None\<close> where the call does not return: it divides by zero for base 0 and recurses for ever for
  base 1. A string argument that is \<open>NULL\<close> fails the assertion in \<open>strcpy\<close>, which is the result \<open>Inl\<close> of
  the loop of \<open>vsprintf\<close>.
\<close>

section \<open>Routines\<close>

definition digit_char :: "u32 \<Rightarrow> u8" where
  "digit_char m = (if m < 10 then ucast (m + 48) else ucast (m - 10 + 65))"

partial_function (option) itoa :: "u32 \<Rightarrow> u32 \<Rightarrow> u8 \<Rightarrow> bytes \<Rightarrow> (u32 \<times> bytes) option" where
  "itoa v buf base m =
     (if base = 0 then None
      else Option.bind (if v div ucast base \<noteq> 0 then itoa (v div ucast base) buf base m else Some (buf, m))
             (\<lambda>r. Some (fst r + 1, (snd r)(fst r := digit_char (v mod ucast base)))))"

text \<open>A 32-bit value on the stack, lowest byte first.\<close>

definition read32 :: "bytes \<Rightarrow> u32 \<Rightarrow> u32" where
  "read32 m a = ucast (m a) OR push_bit 8 (ucast (m (a + 1))) OR push_bit 16 (ucast (m (a + 2)))
     OR push_bit 24 (ucast (m (a + 3)))"

definition write32 :: "u32 \<Rightarrow> u32 \<Rightarrow> bytes \<Rightarrow> bytes" where
  "write32 a v m = m(a := ucast v, a + 1 := ucast (drop_bit 8 v), a + 2 := ucast (drop_bit 16 v),
     a + 3 := ucast (drop_bit 24 v))"

text \<open>One conversion: the character after the percent sign is \<open>c\<close>. The result is the new end of the
  output, the new argument pointer and the memory.\<close>

definition convert ::
    "u8 \<Rightarrow> u32 \<Rightarrow> u32 \<Rightarrow> bytes \<Rightarrow> (site + u32 \<times> u32 \<times> bytes) option" where
  "convert c dst ap m =
     (if c = 0x78 then
        let ap = ap + 4; arg_int = read32 m ap
        in map_option (\<lambda>(dst, m). Inr (dst, ap, m)) (itoa arg_int dst 16 m)
      else if c = 0x73 then
        let ap = ap + 4; arg_str = read32 m ap
        in if dst = NULL \<or> arg_str = NULL
           then Some (Inl (''lib/string.c'', 43, ''strcpy'', ''dst_ != NULL && src_ != NULL''))
           else Option.bind (strcpy_loop dst arg_str m) (\<lambda>m.
                Option.bind (strlen_loop m arg_str) (\<lambda>p. Some (Inr (dst + (p - arg_str - 1), ap, m))))
      else if c = 0x63 then
        let ap = ap + 4 in Some (Inr (dst + 1, ap, m(dst := m ap)))
      else if c = 0x64 then
        let ap = ap + 4; arg_int = read32 m ap
        in if sint arg_int < 0
           then let m = m(dst := 0x2d); dst = dst + 1; arg_int = 0 - arg_int
                in map_option (\<lambda>(dst, m). Inr (dst, ap, m)) (itoa arg_int dst 10 m)
           else map_option (\<lambda>(dst, m). Inr (dst, ap, m)) (itoa arg_int dst 10 m)
      else Some (Inr (dst, ap, m)))"

partial_function (option) vsprintf_loop ::
    "u32 \<Rightarrow> u32 \<Rightarrow> u32 \<Rightarrow> bytes \<Rightarrow> (site + bytes) option" where
  "vsprintf_loop dst src ap m =
     (if m src = 0 then Some (Inr m)
      else if m src \<noteq> 0x25 then vsprintf_loop (dst + 1) (src + 1) ap (m(dst := m src))
      else Option.bind (convert (m (src + 1)) dst ap m) (\<lambda>r.
           case r of Inl site \<Rightarrow> Some (Inl site)
           | Inr (dst, ap, m) \<Rightarrow> vsprintf_loop dst (src + 2) ap m))"

definition vsprintf :: "u32 \<Rightarrow> u32 \<Rightarrow> u32 \<Rightarrow> 'e machine_scheme \<Rightarrow> (u32, 'e machine_scheme) res" where
  "vsprintf str format ap s =
     bind (of_loop (vsprintf_loop str format ap (mem s)) s) (\<lambda>r s.
     case r of Inl site \<Rightarrow> PANIC site s | Inr m \<Rightarrow> strlen str (s\<lparr>mem := m\<rparr>))"

text \<open>\<open>format_arg\<close> is the address of the argument \<open>format\<close> and \<open>buf\<close> that of the local array.\<close>

definition printf ::
    "'e code \<Rightarrow> u32 \<Rightarrow> u32 \<Rightarrow> u32 \<Rightarrow> intr_stack \<Rightarrow> 'e device_scheme \<Rightarrow> (u32 \<times> intr_stack, 'e device_scheme) res" where
  "printf other residue buf format_arg u s =
     (let args = format_arg;
          format = read32 (mem s) format_arg;
          s = s\<lparr>mem := memset_loop 1024 buf 0 (mem s)\<rparr>
      in bind (vsprintf buf format args s) (\<lambda>_ s.
         write_call other residue buf u s))"

definition sprintf :: "u32 \<Rightarrow> u32 \<Rightarrow> 'e machine_scheme \<Rightarrow> (u32, 'e machine_scheme) res" where
  "sprintf buf format_arg s =
     (let args = format_arg;
          format = read32 (mem s) format_arg
      in bind (vsprintf buf format args s) (\<lambda>len s.
         Ok len s))"

section \<open>Numerals\<close>

function digits :: "nat \<Rightarrow> nat \<Rightarrow> nat list" where
  "digits b v = (if v < b \<or> b < 2 then [v] else digits b (v div b) @ [v mod b])"
  by pat_completeness auto
termination by (relation "measure snd") (auto intro: div_less_dividend)

declare digits.simps [simp del]

definition number :: "nat \<Rightarrow> nat list \<Rightarrow> nat" where
  "number b ds = foldl (\<lambda>a d. a * b + d) 0 ds"

text \<open>The value of a digit character.\<close>

definition digit_value :: "u8 \<Rightarrow> nat" where
  "digit_value c = (if c < 0x41 then unat c - 48 else unat c - 55)"

definition numeral_text :: "nat \<Rightarrow> nat \<Rightarrow> u8 list" where
  "numeral_text b v = map (\<lambda>d. digit_char (of_nat d)) (digits b v)"

lemma number_digits: "2 \<le> b \<Longrightarrow> number b (digits b v) = v"
proof (induction b v rule: digits.induct)
  case (1 b v)
  then show ?case by (subst digits.simps) (auto simp: number_def)
qed

lemma digits_range: "2 \<le> b \<Longrightarrow> d \<in> set (digits b v) \<Longrightarrow> d < b"
proof (induction b v rule: digits.induct)
  case (1 b v)
  then show ?case by (subst (asm) (2) digits.simps) (auto split: if_splits)
qed

lemma digits_head: "2 \<le> b \<Longrightarrow> 0 < v \<Longrightarrow> hd (digits b v) \<noteq> 0"
proof (induction b v rule: digits.induct)
  case (1 b v)
  have "digits b w \<noteq> []" for w by (subst digits.simps) simp
  moreover have "\<not> v < b \<Longrightarrow> 0 < v div b" using 1(2) by (simp add: div_greater_zero_iff)
  ultimately show ?case using 1 by (subst digits.simps) (auto simp: hd_append)
qed

lemma digits_length: "2 \<le> b \<Longrightarrow> v < b ^ n \<Longrightarrow> 0 < n \<Longrightarrow> length (digits b v) \<le> n"
proof (induction b v arbitrary: n rule: digits.induct)
  case (1 b v)
  show ?case
  proof (cases "v < b")
    case True
    then show ?thesis using 1(4) by (subst digits.simps) simp
  next
    case False
    then have n: "n \<noteq> 1" using 1(3) by (metis power_one_right)
    then obtain k where k: "n = Suc k" "0 < k" using 1(4) by (cases n) auto
    then have "v div b < b ^ k" using 1(2,3) by (simp add: less_mult_imp_div_less mult.commute)
    then show ?thesis using 1(1) [of k] False 1(2) k by (subst digits.simps) simp
  qed
qed

lemma digit_char_code: "d < 36 \<Longrightarrow> unat (digit_char (of_nat d)) = (if d < 10 then d + 48 else d + 55)"
proof -
  assume d: "d < 36"
  have u: "unat (ucast (of_nat n :: u32) :: u8) = n" if "n < 256" for n
    using that by (simp add: unsigned_ucast_eq unsigned_of_nat take_bit_nat_eq_self)
  have "(of_nat d :: u32) < 10 \<longleftrightarrow> d < 10" using d by (simp add: word_less_nat_alt unat_of_nat_below)
  moreover have "\<not> d < 10 \<Longrightarrow> of_nat d - 10 + 65 = (of_nat (d + 55) :: u32)" by (simp add: of_nat_add)
  moreover have "of_nat d + 48 = (of_nat (d + 48) :: u32)" by simp
  ultimately show ?thesis using d u [of "d + 48"] u [of "d + 55"] by (simp add: digit_char_def del: of_nat_add)
qed

lemma digit_char_value: "d < 36 \<Longrightarrow> digit_value (digit_char (of_nat d)) = d"
  using digit_char_code [of d] by (auto simp: digit_value_def word_less_nat_alt)

lemma numeral_text_reads:
  assumes "2 \<le> b" "b \<le> 36"
  shows "number b (map digit_value (numeral_text b v)) = v"
proof -
  have "map digit_value (numeral_text b v) = digits b v"
    unfolding numeral_text_def map_map comp_def
    by (rule map_idI) (rule digit_char_value, use digits_range [OF assms(1), of _ v] assms(2) in \<open>auto intro: less_le_trans\<close>)
  then show ?thesis using number_digits [OF assms(1)] by simp
qed

section \<open>Writing\<close>

fun poke :: "u32 \<Rightarrow> u8 list \<Rightarrow> bytes \<Rightarrow> bytes" where
  "poke a [] m = m"
| "poke a (x # xs) m = poke (a + 1) xs (m(a := x))"

lemma poke_append: "poke a (xs @ ys) m = poke (a + of_nat (length xs)) ys (poke a xs m)"
  by (induction xs arbitrary: a m) (simp_all add: add.assoc)

lemma itoa_writes:
  assumes "2 \<le> base"
  shows "itoa v buf base m = Some (buf + of_nat (length (numeral_text (unat base) (unat v))),
    poke buf (numeral_text (unat base) (unat v)) m)"
proof (induction "unat v" arbitrary: v rule: less_induct)
  case less
  let ?b = "ucast base :: u32"
  have b: "unat ?b = unat base" "2 \<le> unat base" "base \<noteq> 0"
    using assms unsigned_less [of base, where 'a = nat]
    by (auto simp: word_le_nat_alt unsigned_ucast_eq take_bit_nat_eq_self)
  have q: "unat (v div ?b) = unat v div unat base" "unat (v mod ?b) = unat v mod unat base"
    using b(1) by (simp_all add: unat_div unat_mod)
  have z: "v div ?b \<noteq> 0 \<longleftrightarrow> \<not> unat v < unat base"
    using b(2) unfolding word_unat_eq_iff q(1) by (simp add: div_eq_0_iff)
  have d: "digit_char (v mod ?b) = digit_char (of_nat (unat v mod unat base))" by (simp flip: q(2))
  show ?case
  proof (cases "unat v < unat base")
    case True
    then have "itoa v buf base m = Some (buf + 1, m(buf := digit_char (v mod ?b)))"
      using z b(3) by (subst itoa.simps) simp
    moreover have "numeral_text (unat base) (unat v) = [digit_char (v mod ?b)]"
      using True d by (subst numeral_text_def, subst digits.simps) simp
    ultimately show ?thesis by simp
  next
    case False
    let ?t = "numeral_text (unat base) (unat v div unat base)"
    have t: "numeral_text (unat base) (unat v) = ?t @ [digit_char (v mod ?b)]"
      using False d b(2) by (simp add: numeral_text_def digits.simps [of _ "unat v"])
    have "unat (v div ?b) < unat v" using False b(2) q(1) by (simp add: div_less_dividend)
    then have "itoa (v div ?b) buf base m = Some (buf + of_nat (length ?t), poke buf ?t m)"
      using less.hyps [of "v div ?b"] q(1) by simp
    then show ?thesis
      using z False b(3) by (subst itoa.simps) (simp add: t poke_append)
  qed
qed

lemma poke_outside: "\<not> in_range a (length xs) b \<Longrightarrow> poke a xs m b = m b"
  by (induction xs arbitrary: a m) (auto simp: in_range_Suc)

lemma poke_at: "i < length xs \<Longrightarrow> length xs \<le> 2 ^ 32 \<Longrightarrow> poke a xs m (a + of_nat i) = xs ! i"
proof (induction xs arbitrary: a m i)
  case (Cons x xs)
  show ?case
  proof (cases i)
    case 0
    have "\<not> in_range (a + 1) (length xs) a"
      using not_in_range_before [of 1 "length xs" "a + 1"] Cons.prems(2) by simp
    then show ?thesis using 0 by (simp add: poke_outside)
  next
    case (Suc j)
    then show ?thesis using Cons.prems by (simp add: Cons.IH flip: add.assoc)
  qed
qed simp

lemma cstr_poke:
  assumes "0 \<notin> set xs" "length xs < 2 ^ 32" "m (a + of_nat (length xs)) = 0"
  shows "cstr (poke a xs m) a xs"
proof -
  have "\<not> in_range a (length xs) (a + of_nat (length xs))"
    using assms(2) by (simp add: in_range_offset unat_of_nat_below)
  then show ?thesis
    using assms poke_outside [of a xs "a + of_nat (length xs)" m] by (auto simp: cstr_iff poke_at in_set_conv_nth)
qed

text \<open>Two ranges of memory without a common byte.\<close>

definition apart :: "u32 \<Rightarrow> nat \<Rightarrow> u32 \<Rightarrow> nat \<Rightarrow> bool" where
  "apart a n b k \<longleftrightarrow> (\<forall>x. \<not> (in_range a n x \<and> in_range b k x))"

lemma in_range_bounds:
  fixes a x :: u32
  assumes "in_range a n x" "unat a + n \<le> 2 ^ 32"
  shows "unat a \<le> unat x" "unat x < unat a + n"
proof -
  have "unat (a + (x - a)) = unat a + unat (x - a)" using assms by (intro unat_add_below) (simp add: in_range_def)
  then show "unat a \<le> unat x" "unat x < unat a + n" using assms(1) by (simp_all add: in_range_def)
qed

lemma apart_below: "unat a + n \<le> unat b \<Longrightarrow> unat b + k \<le> 2 ^ 32 \<Longrightarrow> apart a n b k"
  unfolding apart_def using in_range_bounds [of a n] in_range_bounds [of b k]
  by (meson le_trans less_le_not_le less_le_trans le_add1)

lemma apart_commute: "apart a n b k = apart b k a n"
  by (auto simp: apart_def)

lemma in_range_part:
  fixes a x :: u32
  assumes "in_range (a + of_nat i) k x" "i + k \<le> n" "n \<le> 2 ^ 32"
  shows "in_range a n x"
proof -
  let ?y = "x - (a + of_nat i)"
  have k: "unat ?y < k" using assms(1) by (simp add: in_range_def)
  have "unat (?y + of_nat i) = unat ?y + i"
    using assms(2,3) k by (subst unat_add_below) (simp_all add: unat_of_nat_below)
  moreover have "?y + of_nat i = x - a" by simp
  ultimately show ?thesis using k assms(2) by (simp add: in_range_def)
qed

lemma apart_sub:
  assumes "apart a n b k" "i + n' \<le> n" "n \<le> 2 ^ 32" "j + k' \<le> k" "k \<le> 2 ^ 32"
  shows "apart (a + of_nat i) n' (b + of_nat j) k'"
  using assms in_range_part [of a i n' _ n] in_range_part [of b j k' _ k] by (auto simp: apart_def)

lemma cstr_length: "cstr m p xs \<Longrightarrow> length xs < 2 ^ 32"
proof (rule ccontr)
  assume c: "cstr m p xs" and "\<not> length xs < 2 ^ 32"
  then have l: "2 ^ 32 \<le> length xs" by simp
  let ?i = "unat (of_nat (length xs) :: u32)"
  have "?i < length xs" using l u32_bound [of "of_nat (length xs)"] by simp
  then have "m (p + of_nat ?i) \<noteq> 0" using c unfolding cstr_iff by metis
  moreover have "m (p + of_nat ?i) = 0" using cstr_terminator [OF c] by simp
  ultimately show False by simp
qed

lemma cstr_poke_apart: "apart a (length ys) p (Suc (length xs)) \<Longrightarrow> cstr (poke a ys m) p xs = cstr m p xs"
proof -
  assume ap: "apart a (length ys) p (Suc (length xs))"
  have "poke a ys m (p + of_nat i) = m (p + of_nat i)" if "i \<le> length xs" "length xs < 2 ^ 32" for i
    using ap that by (intro poke_outside) (auto simp: apart_def in_range_offset unat_of_nat_below)
  moreover have "length xs < 2 ^ 32" if "cstr m' p xs" for m' using cstr_length [OF that] .
  ultimately show ?thesis unfolding cstr_iff
    by (metis (no_types, lifting) cstr_iff less_or_eq_imp_le order_refl)
qed

lemma read32_poke: "apart a (length ys) p 4 \<Longrightarrow> read32 (poke a ys m) p = read32 m p"
proof -
  assume ap: "apart a (length ys) p 4"
  have "poke a ys m (p + of_nat i) = m (p + of_nat i)" if "i < 4" for i
    using ap that by (intro poke_outside) (auto simp: apart_def in_range_offset unat_of_nat_below)
  from this [of 0] this [of 1] this [of 2] this [of 3] show ?thesis by (simp add: read32_def)
qed

lemma read32_low: "ucast (read32 m p) = m p"
  by (rule bit_word_eqI) (auto simp: read32_def bit_simps)

section \<open>Formatting\<close>

text \<open>What a format means, on lists: \<open>st\<close> gives the strings the pointers among the arguments stand for. There is no
  result when the format ends in a percent sign, when an argument is missing or when a pointer is
  not that of a string.\<close>

definition conversion :: "(u32 \<rightharpoonup> u8 list) \<Rightarrow> u8 \<Rightarrow> u32 \<Rightarrow> u8 list option" where
  "conversion st c a =
     (if c = 0x78 then Some (numeral_text 16 (unat a))
      else if c = 0x73 then st a
      else if c = 0x63 then Some [ucast a]
      else Some (if sint a < 0 then 0x2d # numeral_text 10 (nat (- sint a)) else numeral_text 10 (nat (sint a))))"

definition specifier :: "u8 \<Rightarrow> bool" where
  "specifier c \<longleftrightarrow> c \<in> {0x78, 0x73, 0x63, 0x64}"

fun expand :: "(u32 \<rightharpoonup> u8 list) \<Rightarrow> u8 list \<Rightarrow> u32 list \<Rightarrow> u8 list option" where
  "expand st [] as = Some []"
| "expand st [x] as = (if x = 0x25 then None else Some [x])"
| "expand st (x # c # f) as =
     (if x \<noteq> 0x25 then map_option ((#) x) (expand st (c # f) as)
      else if \<not> specifier c then expand st f as
      else case as of [] \<Rightarrow> None
        | a # as \<Rightarrow> Option.bind (conversion st c a) (\<lambda>xs. map_option ((@) xs) (expand st f as)))"

fun args_at :: "bytes \<Rightarrow> u32 \<Rightarrow> u32 list \<Rightarrow> bool" where
  "args_at m ap [] \<longleftrightarrow> True"
| "args_at m ap (a # as) \<longleftrightarrow> read32 m (ap + 4) = a \<and> args_at m (ap + 4) as"

text \<open>The strings of the table are in memory, away from the output.\<close>

definition strings_at :: "(u32 \<rightharpoonup> u8 list) \<Rightarrow> bytes \<Rightarrow> u32 \<Rightarrow> nat \<Rightarrow> bool" where
  "strings_at st m dst n \<longleftrightarrow> (\<forall>a xs. st a = Some xs \<longrightarrow> a \<noteq> NULL \<and> cstr m a xs \<and> apart dst n a (Suc (length xs)))"

lemma sint_magnitude: "sint a < 0 \<Longrightarrow> unat (0 - a) = nat (- sint a)" "0 \<le> sint a \<Longrightarrow> unat a = nat (sint a)" for a :: u32
proof -
  have b: "- (2 ^ 31) \<le> sint a" "sint a < 2 ^ 31" using sint_greater_eq [of a] sint_less [of a] by simp_all
  have u: "unat (of_int k :: u32) = nat k" if "0 \<le> k" "k \<le> 2 ^ 31" for k
    using that by (simp add: unat_eq_nat_uint unsigned_of_int take_bit_int_eq_self)
  show "unat (0 - a) = nat (- sint a)" if "sint a < 0" using u [of "- sint a"] b that by simp
  show "unat a = nat (sint a)" if "0 \<le> sint a" using u [of "sint a"] b that by simp
qed

lemma copy_is_poke:
  assumes "cstr m a xs" "apart dst (length xs) a (Suc (length xs))"
  shows "strcpy_loop dst a m = Some (poke dst xs m)"
proof (cases "xs = []")
  case True
  then show ?thesis using assms(1) by (subst strcpy_loop.simps) simp
next
  case False
  then have "in_range dst (length xs) dst" by (simp add: in_range_def)
  then have "\<not> in_range a (Suc (length xs)) dst" using assms(2) unfolding apart_def by blast
  then have far: "length xs < unat (dst - a)" by (simp add: in_range_def)
  have "memcpy_loop (length xs) dst a m x = poke dst xs m x" for x
  proof (cases "in_range dst (length xs) x")
    case True
    let ?i = "unat (x - dst)"
    have i: "?i < length xs" "x = dst + of_nat ?i" using True by (simp_all add: in_range_def)
    have "poke dst xs m x = xs ! ?i" using poke_at [of ?i xs dst m] i cstr_length [OF assms(1)] by simp
    moreover have "memcpy_loop (length xs) dst a m x = m (a + of_nat ?i)" using True far by (simp add: memcpy_loop_eq)
    ultimately show ?thesis using cstr_bytes [OF assms(1) i(1)] by simp
  next
    case False
    then show ?thesis using far by (simp add: memcpy_loop_eq poke_outside)
  qed
  then have "memcpy_loop (length xs) dst a m = poke dst xs m" by (rule ext)
  then show ?thesis using strcpy_loop_cstr [OF assms(1), of dst] far by simp
qed

lemma convert_writes:
  assumes c: "specifier c" and a: "read32 m (ap + 4) = a" and o: "conversion st c a = Some out"
    and st: "strings_at st m dst (length out)" and dst: "dst \<noteq> NULL"
  shows "convert c dst ap m = Some (Inr (dst + of_nat (length out), ap + 4, poke dst out m))"
proof -
  consider "c = 0x78" | "c = 0x73" | "c = 0x63" | "c = 0x64" using c by (auto simp: specifier_def)
  then show ?thesis
  proof cases
    case 1
    then show ?thesis using a o by (simp add: convert_def conversion_def itoa_writes)
  next
    case 2
    then have s: "st a = Some out" using o by (simp add: conversion_def)
    then have x: "a \<noteq> NULL" "cstr m a out" "apart dst (length out) a (Suc (length out))"
      using st by (auto simp: strings_at_def)
    have "strlen_loop (poke dst out m) a = Some (a + of_nat (length out) + 1)"
      using x(2) cstr_poke_apart [OF x(3)] by (intro strlen_loop_cstr) simp
    then show ?thesis using 2 a x(1) dst copy_is_poke [OF x(2,3)] by (simp add: convert_def)
  next
    case 3
    then show ?thesis using a o read32_low [of m "ap + 4"] by (auto simp: convert_def conversion_def Let_def)
  next
    case 4
    then show ?thesis
      using a o sint_magnitude [of a] by (auto simp: convert_def conversion_def itoa_writes Let_def split: if_splits)
  qed
qed

lemma args_at_poke:
  assumes "args_at m ap as" "apart a (length ys) (ap + 4) (4 * length as)" "4 * length as \<le> 2 ^ 32" "length ys \<le> 2 ^ 32"
  shows "args_at (poke a ys m) ap as"
  using assms
proof (induction as arbitrary: ap)
  case (Cons x as)
  have "apart a (length ys) (ap + 4) 4"
    using apart_sub [OF Cons.prems(2), of 0 "length ys" 0 4] Cons.prems(3,4) by simp
  moreover have "apart a (length ys) (ap + 4 + 4) (4 * length as)"
    using apart_sub [OF Cons.prems(2), of 0 "length ys" 4 "4 * length as"] Cons.prems(3,4) by simp
  ultimately show ?case using Cons by (simp add: read32_poke)
qed simp

text \<open>What is left to do after the first part of the output has been written.\<close>

lemma strings_at_rest:
  assumes "strings_at st m dst (length xs + n)" "length xs + n \<le> 2 ^ 32"
  shows "strings_at st m dst (length xs)" "strings_at st (poke dst xs m) (dst + of_nat (length xs)) n"
proof -
  have "apart dst (length xs) a (Suc (length ys)) \<and> apart (dst + of_nat (length xs)) n a (Suc (length ys))"
    if "st a = Some ys" for a ys
  proof -
    have "apart dst (length xs + n) a (Suc (length ys))" and c: "cstr m a ys"
      using assms(1) that by (auto simp: strings_at_def)
    moreover have "length ys < 2 ^ 32" using cstr_length [OF c] .
    ultimately show ?thesis
      using apart_sub [of dst "length xs + n" a "Suc (length ys)" 0 "length xs" 0 "Suc (length ys)"]
        apart_sub [of dst "length xs + n" a "Suc (length ys)" "length xs" n 0 "Suc (length ys)"] assms(2) by simp
  qed
  then show "strings_at st m dst (length xs)" "strings_at st (poke dst xs m) (dst + of_nat (length xs)) n"
    using assms(1) by (auto simp: strings_at_def cstr_poke_apart)
qed

text \<open>The conditions of a run, and that they survive a step.\<close>

definition run_ok :: "(u32 \<rightharpoonup> u8 list) \<Rightarrow> u8 list \<Rightarrow> u32 list \<Rightarrow> nat \<Rightarrow> u32 \<Rightarrow> u32 \<Rightarrow> u32 \<Rightarrow> bytes \<Rightarrow> bool" where
  "run_ok st f as n dst src ap m \<longleftrightarrow> cstr m src f \<and> args_at m ap as \<and> strings_at st m dst n \<and>
     apart dst n src (Suc (length f)) \<and> apart dst n (ap + 4) (4 * length as) \<and>
     4 * length as \<le> 2 ^ 32 \<and> dst \<noteq> NULL \<and> unat dst + n < 2 ^ 32"

lemma cstr_append:
  assumes "\<forall>i<length xs. m (p + of_nat i) = xs ! i" and "0 \<notin> set xs" and "cstr m (p + of_nat (length xs)) ys"
  shows "cstr m p (xs @ ys)"
  using assms
proof (induction xs arbitrary: p)
  case (Cons x xs)
  have "m (p + 1 + of_nat i) = xs ! i" if "i < length xs" for i
    using Cons.prems(1) [rule_format, of "Suc i"] that by (simp add: add.assoc)
  then have "cstr m (p + 1) (xs @ ys)" using Cons.IH [of "p + 1"] Cons.prems by (simp add: add.assoc)
  then show ?case using Cons.prems(1) [rule_format, of 0] Cons.prems(2) by simp
qed simp

lemma cstr_suffix: "cstr m p (xs @ ys) \<Longrightarrow> cstr m (p + of_nat (length xs)) ys"
  by (induction xs arbitrary: p) (simp_all flip: add.assoc)

lemma args_at_suffix: "args_at m ap (as @ bs) \<Longrightarrow> args_at m (ap + 4 * of_nat (length as)) bs"
proof (induction as arbitrary: ap)
  case (Cons a as)
  then show ?case using Cons.IH [of "ap + 4"] by (simp add: add.assoc)
qed simp

lemma run_ok_step:
  assumes R: "run_ok st (g @ f) (bs @ as) (length xs + n) dst src ap m"
  shows "run_ok st f as n (dst + of_nat (length xs)) (src + of_nat (length g)) (ap + 4 * of_nat (length bs)) (poke dst xs m)"
proof -
  have r: "cstr m src (g @ f)" "args_at m ap (bs @ as)" "strings_at st m dst (length xs + n)"
    "apart dst (length xs + n) src (Suc (length (g @ f)))" "apart dst (length xs + n) (ap + 4) (4 * length (bs @ as))"
    "4 * length (bs @ as) \<le> 2 ^ 32" "dst \<noteq> NULL" "unat dst + (length xs + n) < 2 ^ 32" "length xs + n \<le> 2 ^ 32"
    using R by (simp_all add: run_ok_def)
  have l: "Suc (length (g @ f)) \<le> 2 ^ 32" using cstr_length [OF r(1)] by simp
  let ?d = "dst + of_nat (length xs)" and ?s = "src + of_nat (length g)" and ?a = "ap + 4 * of_nat (length bs)"
  have "apart dst (length xs) ?s (Suc (length f))" "apart ?d n ?s (Suc (length f))"
    using apart_sub [OF r(4), of 0 "length xs" "length g" "Suc (length f)"] l r(9)
      apart_sub [OF r(4), of "length xs" n "length g" "Suc (length f)"] by simp_all
  moreover have e: "?a + 4 = ap + 4 + of_nat (4 * length bs)" by simp
  have "apart dst (length xs) (?a + 4) (4 * length as)" "apart ?d n (?a + 4) (4 * length as)"
    unfolding e using apart_sub [OF r(5), of 0 "length xs" "4 * length bs" "4 * length as"] r(6,9)
      apart_sub [OF r(5), of "length xs" n "4 * length bs" "4 * length as"] by simp_all
  moreover have "unat ?d = unat dst + length xs"
    using r(8) by (subst unat_add_below) (simp_all add: unat_of_nat_below)
  ultimately show ?thesis
    using r cstr_suffix [OF r(1)] args_at_suffix [OF r(2)] strings_at_rest(2) [OF r(3,9)]
    by (auto simp: run_ok_def cstr_poke_apart args_at_poke)
qed

lemma vsprintf_loop_expands:
  assumes "expand st f as = Some out" and "run_ok st f as (length out) dst src ap m"
  shows "vsprintf_loop dst src ap m = Some (Inr (poke dst out m))"
  using assms
proof (induction st f as arbitrary: out dst src ap m rule: expand.induct)
  case (1 st as)
  then show ?case by (subst vsprintf_loop.simps) (simp add: run_ok_def)
next
  case (2 st x as)
  then have x: "m src = x" "x \<noteq> 0" "x \<noteq> 0x25" "m (src + 1) = 0" "out = [x]" "apart dst 1 src 2"
    by (auto simp: run_ok_def numeral_2_eq_2 split: if_splits)
  have "in_range src 2 (src + 1)" by (simp add: in_range_def)
  then have "\<not> in_range dst 1 (src + 1)" using x(6) unfolding apart_def by blast
  then have "poke dst [x] m (src + 1) = m (src + 1)" by (intro poke_outside) simp
  then show ?case using x by (subst vsprintf_loop.simps, subst vsprintf_loop.simps) simp
next
  case (3 st x c f as)
  have x: "m src = x" "x \<noteq> 0" "m (src + 1) = c" "dst \<noteq> NULL"
    using 3(5) by (simp_all add: run_ok_def)
  show ?case
  proof (cases "x = 0x25")
    case False
    then obtain out' where o: "expand st (c # f) as = Some out'" "out = x # out'" using 3(4) by auto
    have "run_ok st (c # f) as (length out') (dst + 1) (src + 1) ap (m(dst := x))"
      using run_ok_step [of st "[x]" "c # f" "[]" as "[x]" "length out'" dst src ap m] 3(5) o by simp
    then show ?thesis using 3(1) [OF False o(1)] False x o(2) by (subst vsprintf_loop.simps) simp
  next
    case True
    show ?thesis
    proof (cases "specifier c")
      case False
      then have o: "expand st f as = Some out" using 3(4) True by simp
      have "run_ok st f as (length out) dst (src + 2) ap m"
        using run_ok_step [of st "[x, c]" f "[]" as "[]" "length out" dst src ap m] 3(5) by simp
      moreover have "convert c dst ap m = Some (Inr (dst, ap, m))" using False by (simp add: convert_def specifier_def)
      ultimately show ?thesis using 3(2) [OF _ False o] True x by (subst vsprintf_loop.simps) simp
    next
      case sp: True
      then obtain a as' xs out' where o: "as = a # as'" "conversion st c a = Some xs" "expand st f as' = Some out'" "out = xs @ out'"
        using 3(4) True by (auto simp: bind_eq_Some_conv split: list.splits)
      have st: "strings_at st m dst (length xs)"
        using strings_at_rest(1) [of st m dst xs "length out'"] 3(5) o(4) by (simp add: run_ok_def)
      have ar: "read32 m (ap + 4) = a" using 3(5) o(1) by (simp add: run_ok_def)
      have "run_ok st f as' (length out') (dst + of_nat (length xs)) (src + 2) (ap + 4) (poke dst xs m)"
        using run_ok_step [of st "[x, c]" f "[a]" as' xs "length out'" dst src ap m] 3(5) o by simp
      then have "vsprintf_loop (dst + of_nat (length xs)) (src + 2) (ap + 4) (poke dst xs m) =
          Some (Inr (poke (dst + of_nat (length xs)) out' (poke dst xs m)))"
        using 3(3) [OF _ _ o(1,2,3)] True sp by simp
      then show ?thesis
        using convert_writes [OF sp ar o(2) st x(4)] True x o(4) by (subst vsprintf_loop.simps) (simp add: poke_append)
    qed
  qed
qed

text \<open>No terminator is written: the string at \<open>str\<close> afterwards is the text followed by the string that was behind it.\<close>

lemma vsprintf_returns:
  assumes "expand st f as = Some out" and "run_ok st f as (length out) str format ap (mem s)"
    and "0 \<notin> set out" and "cstr (mem s) (str + of_nat (length out)) rest" and "length out + length rest < 2 ^ 32"
  shows "vsprintf str format ap s = Ok (of_nat (length out + length rest)) (s\<lparr>mem := poke str out (mem s)\<rparr>) \<and>
    cstr (poke str out (mem s)) str (out @ rest)"
proof -
  let ?m = "poke str out (mem s)"
  have str: "str \<noteq> NULL" using assms(2) by (simp add: run_ok_def)
  have "\<not> in_range str (length out) x" if x: "in_range (str + of_nat (length out)) (Suc (length rest)) x" for x
  proof -
    let ?y = "x - (str + of_nat (length out))"
    have "unat ?y < Suc (length rest)" using x by (simp add: in_range_def)
    then have "unat (?y + of_nat (length out)) = unat ?y + length out"
      using assms(5) by (subst unat_add_below) (simp_all add: unat_of_nat_below)
    then show ?thesis by (simp add: in_range_def)
  qed
  then have "apart str (length out) (str + of_nat (length out)) (Suc (length rest))" by (auto simp: apart_def)
  from cstr_poke_apart [OF this, of "mem s"] have r: "cstr ?m (str + of_nat (length out)) rest" using assms(4) by simp
  have "?m (str + of_nat i) = out ! i" if "i < length out" for i using poke_at [of i out str "mem s"] that assms(5) by simp
  then have c: "cstr ?m str (out @ rest)"
    using r assms(3) by (intro cstr_append) simp_all
  then have "strlen_loop ?m str = Some (str + of_nat (length (out @ rest)) + 1)" by (rule strlen_loop_cstr)
  then show ?thesis
    using vsprintf_loop_expands [OF assms(1,2)] c str by (simp add: vsprintf_def strlen_def)
qed

lemma vsprintf_writes:
  assumes "expand st f as = Some out" and "run_ok st f as (length out) str format ap (mem s)"
    and "0 \<notin> set out" and "mem s (str + of_nat (length out)) = 0"
  shows "vsprintf str format ap s = Ok (of_nat (length out)) (s\<lparr>mem := poke str out (mem s)\<rparr>) \<and>
    cstr (poke str out (mem s)) str out"
  using vsprintf_returns [OF assms(1-3), of "[]"] assms(2,4) by (simp add: run_ok_def)

section \<open>Printing from a program\<close>

lemma memset_poke: "memset_loop n d v m = poke d (replicate n v) m"
  by (induction n arbitrary: d m) simp_all

lemma run_ok_zeroed:
  assumes "run_ok st f as n dst src ap m" "k \<le> n"
  shows "run_ok st f as k dst src ap (memset_loop n dst 0 m)"
proof -
  let ?z = "replicate n 0"
  have r: "cstr m src f" "args_at m ap as" "strings_at st m dst n"
    "apart dst n src (Suc (length f))" "apart dst n (ap + 4) (4 * length as)"
    "4 * length as \<le> 2 ^ 32" "dst \<noteq> NULL" "unat dst + n < 2 ^ 32"
    using assms by (simp_all add: run_ok_def)
  have "cstr (poke dst ?z m) a xs" if "st a = Some xs" for a xs
    using r(3) that cstr_poke_apart [of dst ?z a xs m] by (simp add: strings_at_def)
  then have "strings_at st (poke dst ?z m) dst k"
    using r(3) assms(2) by (auto simp: strings_at_def apart_def in_range_def intro: less_le_trans)
  moreover have "apart dst k src (Suc (length f))" "apart dst k (ap + 4) (4 * length as)"
    using r(4,5) assms(2) by (auto simp: apart_def in_range_def intro: less_le_trans)
  ultimately show ?thesis
    using r assms(2) cstr_poke_apart [of dst ?z src f m] args_at_poke [of m ap as dst ?z]
    by (simp add: run_ok_def memset_poke)
qed

lemma run_ok_shrink: "run_ok st f as n dst src ap m \<Longrightarrow> k \<le> n \<Longrightarrow> run_ok st f as k dst src ap m"
  by (auto simp: run_ok_def strings_at_def apart_def in_range_def intro: less_le_trans)

lemma zeroed_at: "i < n \<Longrightarrow> n \<le> 2 ^ 32 \<Longrightarrow> memset_loop n dst 0 m (dst + of_nat i) = 0"
  by (simp add: memset_poke poke_at)

text \<open>The call \<open>write\<close> from user mode, with the console free.\<close>

lemma write_call_user:
  fixes s :: "'e device_scheme"
  assumes "from_user u" and "tss_esp0 (tss s) = cur + 0x1000" and "page_of cur = cur"
    and "syscall_table s 1 = addr_of s Sys_write" and "addr_of s Sys_write \<noteq> addr_of s Sys_getpid"
    and "console_free cur s" and "cstr (mem s) str bs" and "str \<noteq> NULL"
  shows "\<exists>t. write_call other residue str u s = Ok (of_nat (length bs), u\<lparr>is_eax := of_nat (length bs), is_ebx := str,
      is_vec_no := 0x80, is_err_code := 0\<rparr>) t \<and> screen t = screen s @ [Put_str (text_of bs)] \<and> mem t = mem s \<and>
    eip t = is_eip u \<and> esp t = is_esp u \<and> eflags t = is_eflags u"
proof -
  let ?u = "u\<lparr>is_eax := 1, is_ebx := str\<rparr>" and ?L = "addr_of s Console_lock"
  let ?t = "put_str (text_of bs) (unlocked ?L (locked ?L (entered ?u s)))"
  have r: "running_thread (entered ?u s) = cur" using entered_thread [OF assms(2,3)] .
  then have "console_free (running_thread (entered ?u s)) (entered ?u s)"
    using assms(6) by (simp add: console_free_def)
  then have "call_syscall other residue (is_eax ?u) (is_ebx ?u) (is_ecx ?u) (is_edx ?u) (entered ?u s) = Ok (of_nat (length bs)) ?t"
    using sys_write_free [of "entered ?u s" str bs] assms(4,5,7,8) by (simp add: call_syscall_def)
  moreover have "intr_stacks ?t (call_stack s) = call_frame ?u" by (simp add: put_str_def)
  ultimately have "syscall_handler other residue ?u s = Ok ((call_frame ?u)\<lparr>is_eax := of_nat (length bs)\<rparr>)
      (left (call_stack s) ?u (of_nat (length bs)) ?t)"
    using assms(1) by (intro syscall_handler_user) (simp_all add: from_user_def)
  then show ?thesis by (simp add: write_call_def syscall1_def call_frame_def put_str_def)
qed

section \<open>A concrete program\<close>

text \<open>It prints \<open>-5\<close> and the string at \<open>0x300\<close> with the format \<open>a%d%s\<close>; the arguments start at \<open>0x200\<close>, the buffer
  at \<open>0x400\<close>.\<close>

abbreviation (input) demo_format :: "u8 list" where "demo_format \<equiv> [0x61, 0x25, 0x64, 0x25, 0x73]"
abbreviation (input) demo_out :: "u8 list" where "demo_out \<equiv> [0x61, 0x2d, 0x35, 0x6f, 0x6b]"

definition demo_print :: machine where
  "demo_print = demo\<lparr>mem := poke 0x100 demo_format (poke 0x200 [0, 1, 0, 0, 0xfb, 0xff, 0xff, 0xff, 0, 3, 0, 0]
     (poke 0x300 [0x6f, 0x6b] (\<lambda>_. 0)))\<rparr>"

definition demo_printing :: device where
  "demo_printing = (lock_init 0xc0003080 demo_user)\<lparr>mem := mem demo_print\<rparr>"

lemma demo_expand: "expand [0x300 \<mapsto> [0x6f, 0x6b]] demo_format [0xfffffffb, 0x300] = Some demo_out"
proof -
  have "numeral_text 10 5 = [0x35]" by (simp add: numeral_text_def digits.simps digit_char_def)
  then show ?thesis by (simp add: specifier_def conversion_def)
qed

lemma demo_print_mem:
  "read32 (mem demo_print) 0x200 = 0x100" "read32 (mem demo_print) 0x204 = 0xfffffffb" "read32 (mem demo_print) 0x208 = 0x300"
  "cstr (mem demo_print) 0x100 demo_format" "cstr (mem demo_print) 0x300 [0x6f, 0x6b]" "mem demo_print 0x405 = 0"
  by (simp_all add: demo_print_def read32_def)

lemma demo_run_ok: "run_ok [0x300 \<mapsto> [0x6f, 0x6b]] demo_format [0xfffffffb, 0x300] 1024 0x400 0x100 0x200 (mem demo_print)"
proof -
  have "apart 0x400 1024 0x300 (Suc (length [0x6f, 0x6b :: u8]))" "apart 0x400 1024 0x100 (Suc (length demo_format))"
    "apart 0x400 1024 0x204 8"
    unfolding apart_commute [of "0x400"] by (rule apart_below; simp)+
  then show ?thesis using demo_print_mem by (simp add: run_ok_def strings_at_def)
qed

lemma demo_old_rest:
  "run_ok [0x300 \<mapsto> [0x6f, 0x6b]] demo_format [0xfffffffb, 0x300] (length demo_out) 0x400 0x100 0x200
     (poke 0x405 [0x21] (mem demo_print))"
proof -
  have "read32 (mem demo_print) a = read32 (poke 0x405 [0x21] (mem demo_print)) a" if "a = 0x204 \<or> a = 0x208" for a
    using that by (auto simp: read32_def)
  then show ?thesis
    using run_ok_shrink [OF demo_run_ok, of "length demo_out"] demo_print_mem by (simp add: run_ok_def strings_at_def)
qed

section \<open>Properties\<close>

text \<open>C21: \<open>itoa\<close> returns for every value and every base from 2 to 36. It writes at most 32 characters from the buffer on and
  nothing else, moves the buffer pointer behind them, and reading the characters as a numeral of that base
  gives the value back; there are no leading zeros.\<close>
theorem itoa_roundtrip:
  assumes "2 \<le> base" and "base \<le> 36"
  shows "\<exists>cs. itoa v buf base m = Some (buf + of_nat (length cs), poke buf cs m) \<and>
    number (unat base) (map digit_value cs) = unat v \<and> length cs \<le> 32 \<and> (0 < v \<longrightarrow> digit_value (hd cs) \<noteq> 0)"
proof -
  let ?cs = "numeral_text (unat base) (unat v)"
  have b: "2 \<le> unat base" "unat base \<le> 36" using assms by (simp_all add: word_le_nat_alt)
  have "unat v < 2 ^ 32" using u32_bound .
  also have "\<dots> \<le> unat base ^ 32" using b(1) by (rule power_mono) simp
  finally have "length ?cs \<le> 32" using digits_length [OF b(1), of "unat v" 32] by (simp add: numeral_text_def)
  moreover have "digit_value (hd ?cs) = hd (digits (unat base) (unat v))"
  proof -
    have "digits (unat base) (unat v) \<noteq> []" by (subst digits.simps) simp
    then show ?thesis
      using digits_range [OF b(1), of "hd (digits (unat base) (unat v))" "unat v"] b(2)
      by (simp add: numeral_text_def hd_map digit_char_value)
  qed
  ultimately show ?thesis
    using itoa_writes [OF assms(1), of v buf m] numeral_text_reads [OF b, of "unat v"] digits_head [OF b(1), of "unat v"]
    by (intro exI [of _ ?cs]) (simp add: word_less_nat_alt)
qed

theorem itoa_roundtrip_witness:
  "\<exists>cs. itoa 0xbeef 0x1000 16 (\<lambda>_. 0) = Some (0x1000 + of_nat (length cs), poke 0x1000 cs (\<lambda>_. 0)) \<and>
    number 16 (map digit_value cs) = 0xbeef"
  using itoa_roundtrip [of 16 "0xbeef" "0x1000" "\<lambda>_. 0"] by auto

text \<open>C20: \<open>vsprintf\<close> writes what its format means: the characters of the format with every conversion \<open>%d\<close>, \<open>%x\<close>,
  \<open>%c\<close>, \<open>%s\<close> replaced by the text of its argument, and a percent sign before any other character, another percent sign
  included, replaced by nothing together with that character. The text is written from \<open>str\<close> on and no other byte is
  changed, so there is no terminator behind it: the string at \<open>str\<close> is then the text followed by the string \<open>rest\<close>
  that was in the memory behind it, and the result is the length of both, which is that of the text only
  where the byte behind it was zero. The output must not overlap the format, the arguments and the strings, and the
  format must not end in a percent sign.\<close>
theorem vsprintf_expands:
  assumes "expand st f as = Some out" and "run_ok st f as (length out) str format ap (mem s)"
    and "0 \<notin> set out" and "cstr (mem s) (str + of_nat (length out)) rest" and "length out + length rest < 2 ^ 32"
  shows "vsprintf str format ap s = Ok (of_nat (length out + length rest)) (s\<lparr>mem := poke str out (mem s)\<rparr>) \<and>
    cstr (poke str out (mem s)) str (out @ rest)"
  using assms by (rule vsprintf_returns)

theorem vsprintf_expands_witness:
  "(\<exists>t. vsprintf 0x400 0x100 0x200 demo_print = Ok 5 t \<and> cstr (mem t) 0x400 [0x61, 0x2d, 0x35, 0x6f, 0x6b]) \<and>
   (\<exists>t. vsprintf 0x400 0x100 0x200 (demo_print\<lparr>mem := (mem demo_print)(0x405 := 0x21)\<rparr>) = Ok 6 t \<and>
      cstr (mem t) 0x400 [0x61, 0x2d, 0x35, 0x6f, 0x6b, 0x21])"
proof
  show "\<exists>t. vsprintf 0x400 0x100 0x200 demo_print = Ok 5 t \<and> cstr (mem t) 0x400 [0x61, 0x2d, 0x35, 0x6f, 0x6b]"
    using vsprintf_expands [OF demo_expand run_ok_shrink [OF demo_run_ok], of "[]"] demo_print_mem(6) by simp
  let ?s = "demo_print\<lparr>mem := poke 0x405 [0x21] (mem demo_print)\<rparr>"
  have r: "run_ok [0x300 \<mapsto> [0x6f, 0x6b]] demo_format [0xfffffffb, 0x300] (length demo_out) 0x400 0x100 0x200 (mem ?s)"
    using demo_old_rest by simp
  have "cstr (mem ?s) 0x405 [0x21]" by (simp add: demo_print_def)
  then show "\<exists>t. vsprintf 0x400 0x100 0x200 (demo_print\<lparr>mem := (mem demo_print)(0x405 := 0x21)\<rparr>) = Ok 6 t \<and>
      cstr (mem t) 0x400 [0x61, 0x2d, 0x35, 0x6f, 0x6b, 0x21]"
    using vsprintf_expands [OF demo_expand r, of "[0x21]"] by simp
qed

text \<open>C17: \<open>printf\<close> from user mode prints what its format means. With the buffer apart from the format, the arguments and the
  strings, and text shorter than the buffer, the call goes through \<open>vsprintf\<close>, the system call and the console
  lock and returns: the text is printed in one piece, the result is its length, and the program goes on with its
  stack, its flags and its other registers as they were.\<close>
theorem printf_prints:
  fixes s :: "'e device_scheme"
  assumes "expand st f as = Some out" and "run_ok st f as 1024 buf (read32 (mem s) format_arg) format_arg (mem s)"
    and "0 \<notin> set out" and "length out < 1024"
    and "from_user u" and "tss_esp0 (tss s) = cur + 0x1000" and "page_of cur = cur"
    and "syscall_table s 1 = addr_of s Sys_write" and "addr_of s Sys_write \<noteq> addr_of s Sys_getpid" and "console_free cur s"
  shows "\<exists>t. printf other residue buf format_arg u s = Ok (of_nat (length out), u\<lparr>is_eax := of_nat (length out),
      is_ebx := buf, is_vec_no := 0x80, is_err_code := 0\<rparr>) t \<and> screen t = screen s @ [Put_str (text_of out)] \<and>
    eip t = is_eip u \<and> esp t = is_esp u \<and> eflags t = is_eflags u"
proof -
  let ?z = "memset_loop 1024 buf 0 (mem s)" and ?fmt = "read32 (mem s) format_arg"
  let ?s = "s\<lparr>mem := ?z\<rparr>" and ?m = "poke buf out (memset_loop 1024 buf 0 (mem s))"
  have ok: "run_ok st f as (length out) buf ?fmt format_arg (mem ?s)"
    using run_ok_zeroed [OF assms(2), of "length out"] assms(4) by simp
  have "mem ?s (buf + of_nat (length out)) = 0" using zeroed_at [of "length out" 1024] assms(4) by simp
  then have v: "vsprintf buf ?fmt format_arg ?s = Ok (of_nat (length out)) (?s\<lparr>mem := ?m\<rparr>)" "cstr ?m buf out"
    using vsprintf_writes [OF assms(1) ok assms(3)] by simp_all
  have "console_free cur (?s\<lparr>mem := ?m\<rparr>)" using assms(10) by (simp add: console_free_def list_empty_def)
  then obtain t where "write_call other residue buf u (?s\<lparr>mem := ?m\<rparr>) = Ok (of_nat (length out), u\<lparr>is_eax := of_nat (length out),
      is_ebx := buf, is_vec_no := 0x80, is_err_code := 0\<rparr>) t" "screen t = screen s @ [Put_str (text_of out)]"
      "eip t = is_eip u" "esp t = is_esp u" "eflags t = is_eflags u"
    using write_call_user [of u "?s\<lparr>mem := ?m\<rparr>" cur buf out other residue] assms(5-9) v(2) assms(2)
    by (auto simp: run_ok_def)
  then show ?thesis using v(1) by (simp add: printf_def Let_def)
qed

theorem printf_prints_witness:
  "\<exists>v t. printf (\<lambda>_ _ _ _ s. Blocked s) 0 0x400 0x200 demo_context demo_printing = Ok (5, v) t \<and>
    screen t = screen demo_printing @ [Put_str ''a-5ok''] \<and> esp t = 0xbffffff0"
proof -
  have f: "mem demo_printing = mem demo_print" "tss demo_printing = tss demo_user" "addr_of demo_printing = demo_addr"
    "syscall_table demo_printing 1 = demo_addr Sys_write"
    using demo_user_fields(6,7)
    by (simp_all add: demo_printing_def lock_init_def sema_init_def set_value_def set_repeat_def set_holder_def list_init_def
        set_prev_def set_next_def Let_def)
  have "console_free 0xc0101000 demo_printing"
    by (simp add: console_free_def f list_empty_def)
      (simp add: demo_printing_def lock_init_def sema_init_def set_value_def set_repeat_def set_holder_def list_init_def
        set_prev_def set_next_def Let_def)
  then show ?thesis
    using printf_prints [OF demo_expand, of "0x400" demo_printing "0x200" demo_context "0xc0101000" "\<lambda>_ _ _ _ s. Blocked s" 0]
      demo_run_ok demo_print_mem(1) demo_user_fields(1-3)
    by (simp add: f text_of_def char_of_def bit_0 demo_context_def) blast
qed

end
