(* ===== verification/Init.thy ===== *)
theory Init
  imports Keyboard Stdio
begin

text \<open>
  Start of the kernel: \<open>init_all\<close> of \<open>kernel/init.c\<close> and \<open>kernel/main.c\<close> with its two kernel threads and
  two user programs. The entry stubs of \<open>kernel/kernel.S\<close> are the argument \<open>entries\<close>.

  \<open>main\<close> and the four threads end in endless loops, so their result is \<open>Halt\<close>. The routines run here one
  after the other; a timer interrupt in between is a step of the scheduler and not part of them. The
  delay loops (\<open>while (cpu_delay-- > 0);\<close>) change nothing but their own counter.
\<close>

section \<open>Initialisation\<close>

definition init_all :: "(nat \<Rightarrow> u32) \<Rightarrow> 'e device_scheme \<Rightarrow> (unit, 'e device_scheme) res" where
  "init_all entries s =
     (let s = put_str (ln ''init all start'') s;
          s = init_intr entries (addr_of s Syscall_handler) (addr_of s General_intr_handler) (addr_of s Idt_obj) s;
          s = init_timer s
      in bind (mem_init s) (\<lambda>_ s.
         bind (thread_init s) (\<lambda>_ s.
         let s = console_init s;
             s = keyboard_init s
         in bind (tss_init s) (\<lambda>_ s.
            let s = syscall_init s
            in Ok () (put_str (ln ''init all done'') s)))))"

definition main :: "(nat \<Rightarrow> u32) \<Rightarrow> 'e device_scheme \<Rightarrow> (unit, 'e device_scheme) res" where
  "main entries s =
     (let s = put_str (ln ''I am kernel'') s in
      bind (init_all entries s) (\<lambda>_ s.
      let s = snd (intr_enable s) in
      bind (thread_start (addr_of s (Literal ''k_thread_a'')) 31 (addr_of s K_thread_a)
              (addr_of s (Literal ''argA '')) s) (\<lambda>_ s.
      bind (process_execute (addr_of s U_prog_a) (addr_of s (Literal ''user_prog_a'')) s) (\<lambda>_ s.
      bind (process_execute (addr_of s U_prog_b) (addr_of s (Literal ''user_prog_b'')) s) (\<lambda>_ s.
      bind (thread_start (addr_of s (Literal ''k_thread_b'')) 31 (addr_of s K_thread_b)
              (addr_of s (Literal ''argB '')) s) (\<lambda>_ s.
      Halt s))))))"

section \<open>The threads and programs\<close>

text \<open>The two kernel threads differ in the text they print. They call \<open>free\<close> of the user library, which
  enters the kernel by \<open>int 0x80\<close> with the registers \<open>u\<close>.\<close>

definition k_thread ::
    "string \<Rightarrow> 'e code \<Rightarrow> u32 \<Rightarrow> intr_stack \<Rightarrow> u32 \<Rightarrow> 'e device_scheme \<Rightarrow> (unit, 'e device_scheme) res" where
  "k_thread text other residue u str s =
     bind (sys_malloc 256 s) (\<lambda>addr1 s.
     bind (sys_malloc 255 s) (\<lambda>addr2 s.
     bind (sys_malloc 254 s) (\<lambda>addr3 s.
     bind (console_put_str (addr_of s (Literal text)) s) (\<lambda>_ s.
     bind (console_put_int addr1 s) (\<lambda>_ s.
     bind (console_put_char 0x2c s) (\<lambda>_ s.
     bind (console_put_int addr2 s) (\<lambda>_ s.
     bind (console_put_char 0x2c s) (\<lambda>_ s.
     bind (console_put_int addr3 s) (\<lambda>_ s.
     bind (console_put_char 0x0a s) (\<lambda>_ s.
     bind (free other residue addr1 u s) (\<lambda>u s.
     bind (free other residue addr2 u s) (\<lambda>u s.
     bind (free other residue addr3 u s) (\<lambda>_ s.
     Halt s)))))))))))))"

definition k_thread_a ::
    "'e code \<Rightarrow> u32 \<Rightarrow> intr_stack \<Rightarrow> u32 \<Rightarrow> 'e device_scheme \<Rightarrow> (unit, 'e device_scheme) res" where
  "k_thread_a = k_thread ''thread a malloc addr: 0x''"

definition k_thread_b ::
    "'e code \<Rightarrow> u32 \<Rightarrow> intr_stack \<Rightarrow> u32 \<Rightarrow> 'e device_scheme \<Rightarrow> (unit, 'e device_scheme) res" where
  "k_thread_b = k_thread ''thread b malloc addr: 0x''"

text \<open>The two user programs differ in the format. \<open>args\<close> is where the arguments of \<open>printf\<close> are put on the stack
  and \<open>buf\<close> where \<open>printf\<close> has its buffer.\<close>

definition u_prog ::
    "string \<Rightarrow> 'e code \<Rightarrow> u32 \<Rightarrow> u32 \<Rightarrow> u32 \<Rightarrow> intr_stack \<Rightarrow> 'e device_scheme \<Rightarrow> (unit, 'e device_scheme) res" where
  "u_prog format other residue buf args u s =
     bind (malloc other residue 256 u s) (\<lambda>(addr1, u) s.
     bind (malloc other residue 255 u s) (\<lambda>(addr2, u) s.
     bind (malloc other residue 254 u s) (\<lambda>(addr3, u) s.
     let s = s\<lparr>mem := write32 args (addr_of s (Literal format)) (write32 (args + 4) addr1
                 (write32 (args + 8) addr2 (write32 (args + 12) addr3 (mem s))))\<rparr>
     in bind (printf other residue buf args u s) (\<lambda>(_, u) s.
        bind (free other residue addr1 u s) (\<lambda>u s.
        bind (free other residue addr2 u s) (\<lambda>u s.
        bind (free other residue addr3 u s) (\<lambda>_ s.
        Halt s)))))))"

definition u_prog_a ::
    "'e code \<Rightarrow> u32 \<Rightarrow> u32 \<Rightarrow> u32 \<Rightarrow> intr_stack \<Rightarrow> 'e device_scheme \<Rightarrow> (unit, 'e device_scheme) res" where
  "u_prog_a = u_prog (ln ''prog_a malloc addr :0x%x,0x%x,0x%x'')"

definition u_prog_b ::
    "'e code \<Rightarrow> u32 \<Rightarrow> u32 \<Rightarrow> u32 \<Rightarrow> intr_stack \<Rightarrow> 'e device_scheme \<Rightarrow> (unit, 'e device_scheme) res" where
  "u_prog_b = u_prog (ln ''prog_b malloc addr :0x%x,0x%x,0x%x'')"

end
