(* ===== verification/Startup.thy ===== *)
theory Startup
  imports Init
begin

text \<open>
  What the start of the kernel establishes. The routines called by \<open>init_all\<close> set up objects at different addresses; \<open>touches\<close>
  says which addresses a routine may change, so that what one routine has set up is still there after the others. The
  result is that the invariants under which the components are verified hold in the first state: the heap of \<open>Heap\<close>, the
  scheduler of \<open>Sched\<close>, the locks, the queue of \<open>Ioqueue\<close>, the tables of \<open>Interrupt\<close> and \<open>Syscall\<close>.
\<close>

section \<open>Regions of memory\<close>

text \<open>The objects that the initialisation sets up, with their sizes, and where the linker may put them: anywhere below
  the bitmaps, without overlap.\<close>

abbreviation region :: "u32 \<Rightarrow> nat \<Rightarrow> u32 set" where "region p n \<equiv> {a. in_range p n a}"

definition objects :: "(global_obj \<times> nat) list" where
  "objects = [(Thread_ready_list, 16), (Thread_all_list, 16), (Pid_lock, 28), (Kernel_pool_lock, 28), (User_pool_lock, 28),
     (Console_lock, 28), (Keyboard_buf, 108), (K_block_descs, 168)]"

definition linked :: "(global_obj \<Rightarrow> u32) \<Rightarrow> bool" where
  "linked addr \<longleftrightarrow>
     list_all (\<lambda>(x, n). addr x \<noteq> NULL \<and> unat (addr x) + n \<le> 0xc009a000) objects \<and>
     list_all (\<lambda>(x, n). list_all (\<lambda>(y, k). x \<noteq> y \<longrightarrow> unat (addr x) + n \<le> unat (addr y) \<or> unat (addr y) + k \<le> unat (addr x))
       objects) objects"

lemma linked_object:
  assumes "linked addr" and "(x, n) \<in> set objects"
  shows "addr x \<noteq> NULL" and "a \<in> region (addr x) n \<Longrightarrow> unat a < 0xc009a000"
proof -
  have x: "addr x \<noteq> NULL \<and> unat (addr x) + n \<le> 0xc009a000" using assms unfolding linked_def list_all_iff by blast
  then show "addr x \<noteq> NULL" by simp
  have "unat (addr x) + n \<le> 2 ^ 32" using x by simp
  then show "a \<in> region (addr x) n \<Longrightarrow> unat a < 0xc009a000" using x by (simp add: in_range_unat)
qed

lemma linked_apart:
  assumes "linked addr" and "(x, n) \<in> set objects" and "(y, k) \<in> set objects" and "x \<noteq> y"
  shows "region (addr x) n \<inter> region (addr y) k = {}"
proof -
  have "unat (addr x) + n \<le> 0xc009a000" "unat (addr y) + k \<le> 0xc009a000"
    using assms(1-3) unfolding linked_def list_all_iff by blast+
  then have "unat (addr x) + n \<le> 2 ^ 32" "unat (addr y) + k \<le> 2 ^ 32" by simp_all
  moreover have "unat (addr x) + n \<le> unat (addr y) \<or> unat (addr y) + k \<le> unat (addr x)"
    using assms unfolding linked_def list_all_iff by fastforce
  ultimately show ?thesis by (auto simp: in_range_unat)
qed

text \<open>\<open>touches X s t\<close>: of the lists, locks and descriptors only those in \<open>X\<close> differ between the states.\<close>

definition touches :: "u32 set \<Rightarrow> 'e kernel_scheme \<Rightarrow> 'e kernel_scheme \<Rightarrow> bool" where
  "touches X s t \<longleftrightarrow> addr_of t = addr_of s \<and> esp t = esp s \<and> phys t = phys s \<and> cr3 t = cr3 s \<and> eflags t = eflags s \<and>
     (\<forall>a. a \<notin> X \<longrightarrow> node_next t a = node_next s a \<and> node_prev t a = node_prev s a \<and> sema_value t a = sema_value s a \<and>
        lock_holder t a = lock_holder s a \<and> lock_repeat t a = lock_repeat s a \<and>
        desc_block_size t a = desc_block_size s a \<and> desc_blocks_per_arena t a = desc_blocks_per_arena s a)"

lemma touchesD:
  assumes "touches X s t"
  shows "addr_of t = addr_of s" "esp t = esp s" "phys t = phys s" "cr3 t = cr3 s" "eflags t = eflags s"
    and "a \<notin> X \<Longrightarrow> sema_value t a = sema_value s a" "a \<notin> X \<Longrightarrow> lock_holder t a = lock_holder s a"
    and "a \<notin> X \<Longrightarrow> lock_repeat t a = lock_repeat s a" and "a \<notin> X \<Longrightarrow> desc_ok t a i = desc_ok s a i"
    and "running_thread t = running_thread s"
  using assms by (simp_all add: touches_def desc_ok_def running_thread_def)

lemma touches_paging:
  assumes "touches X s t"
  shows "translate t v = translate s v" "ptabs t D = ptabs s D" "dir_entry t d = dir_entry s d"
  using touchesD(3,4) [OF assms]
  by (simp_all add: translate_def pde_of_def pte_slot_def ptabs_def self_mapped_def dir_entry_def)

lemma touches_dll:
  assumes "touches X s t" and "foot l xs \<inter> X = {}"
  shows "dll t l xs = dll s l xs"
  using assms by (intro dll_cong) (auto simp: touches_def)

lemma touches_trans: "touches X s t \<Longrightarrow> touches Y t u \<Longrightarrow> touches (X \<union> Y) s u"
  by (simp add: touches_def)

lemma touches_weaken: "touches X s t \<Longrightarrow> X \<subseteq> Y \<Longrightarrow> touches Y s t"
  by (auto simp: touches_def)

lemma touches_list_init: "touches (region l 16) s (list_init l s)"
  by (auto simp: touches_def list_init_def set_prev_def set_next_def in_range_def)

lemma touches_lock_init: "touches (region L 28) s (lock_init L s)"
  by (auto simp: touches_def lock_init_def sema_init_def set_value_def set_repeat_def set_holder_def list_init_def set_prev_def
      set_next_def in_range_def Let_def add.assoc [symmetric])


lemma touches_refl [simp]:
  "touches {} s s" "touches {} s (put_str x s)" "touches {} s (put_char c s)" "touches {} s (put_int n s)"
  by (simp_all add: touches_def put_str_def put_char_def put_int_def)

lemma block_desc_init_touches:
  assumes "unat (descs :: u32) + 168 \<le> 2 ^ 32"
  shows "touches (region descs 168) s (block_desc_init_loop descs j m s)"
proof (induction descs j m s rule: block_desc_init_loop.induct)
  case (1 descs j m s)
  let ?d = "desc_at descs (ucast j)"
  show ?case
  proof (cases "unat j < MEM_BLOCK_DESC_CNT")
    case True
    then have j: "unat j < 7" by (simp add: MEM_BLOCK_DESC_CNT_def)
    have "in_range descs 168 (descs + of_nat (24 * unat j + k))" if "k < 24" for k
      using j that by (simp only: in_range_offset) (subst unat_of_nat_below; simp)
    then have d: "in_range descs 168 (?d + of_nat k)" if "k < 24" for k
      using that by (simp add: desc_at_def add.assoc)
    let ?s = "list_init (free_list ?d) (s\<lparr>desc_block_size := (desc_block_size s)(?d := ucast m),
       desc_blocks_per_arena := (desc_blocks_per_arena s)(?d := (PG_SIZE - sizeof_arena) div ucast m)\<rparr>)"
    have "touches (region descs 168) s ?s"
      using d [of 0] d [of 8] d [of 16]
      by (auto simp: touches_def list_init_def set_prev_def set_next_def add.assoc)
    moreover have "block_desc_init_loop descs j m s = block_desc_init_loop descs (j + 1) (m * 2) ?s"
      using True by (subst block_desc_init_loop.simps) (simp add: Let_def)
    moreover have "touches (region descs 168) ?s (block_desc_init_loop descs (j + 1) (m * 2) ?s)"
      using 1 [OF True refl refl refl refl] by simp
    ultimately show ?thesis using touches_trans [of "region descs 168" s ?s "region descs 168"] by simp
  next
    case False
    then show ?thesis by (subst block_desc_init_loop.simps) (simp add: touches_def)
  qed
qed

section \<open>Memory\<close>

lemma lock_init_screen: "lock_init L (s\<lparr>screen := x\<rparr>) = (lock_init L s)\<lparr>screen := x\<rparr>"
  by (simp add: lock_init_def sema_init_def set_value_def set_repeat_def set_holder_def list_init_def set_prev_def set_next_def)

lemma lock_init_others [simp]:
  "mem (lock_init L s) = mem s" "tasks (lock_init L s) = tasks s" "next_pid (lock_init L s) = next_pid s"
  "handlers (lock_init L s) = handlers s" "idt (lock_init L s) = idt s" "kernel.more (lock_init L s) = kernel.more s"
  "addr_of (lock_init L s) = addr_of s" "esp (lock_init L s) = esp s" "main_thread (lock_init L s) = main_thread s"
  "kernel_mem_pool (lock_init L s) = kernel_mem_pool s" "user_mem_pool (lock_init L s) = user_mem_pool s"
  "kernel_vaddr_pool (lock_init L s) = kernel_vaddr_pool s"
  by (simp_all add: lock_init_def sema_init_def set_value_def set_repeat_def set_holder_def list_init_def set_prev_def set_next_def)


text \<open>What \<open>mem_pool_init\<close> leaves alone: all bytes but those of the bitmaps, and all but the two locks.\<close>

lemma mem_pool_init_frame:
  fixes all_mem :: u32 and s t :: "'e kernel_scheme"
  assumes bound: "0x200000 \<le> unat all_mem" "unat all_mem \<le> 0x15600000" and run: "mem_pool_init all_mem s = Ok () t"
    and u: "u = lock_init (addr_of s User_pool_lock) (lock_init (addr_of s Kernel_pool_lock) s)"
  shows "touches {} u t" "tasks t = tasks s" "next_pid t = next_pid s" "handlers t = handlers s" "idt t = idt s"
    "kernel.more t = kernel.more s" and "vaddr_start (kvp t) = 0xc0100000" "phy_addr_start (kernel_mem_pool t) = 0x200000"
    and "a \<in> bitmaps t \<Longrightarrow> 0xc009a000 \<le> unat a \<and> unat a < 0xc009e000"
    and "nbits (kvb t) = (unat all_mem - 0x200000) div 4096 div 2 div 8 * 8" "nbits (pool_bits PF_KERNEL t) = nbits (kvb t)"
    and "unat a < 0xc009a000 \<or> 0xc009e000 \<le> unat a \<Longrightarrow> mem t a = mem s a"
proof -
  obtain n where n: "n = (unat all_mem - 0x200000) div 4096" by simp
  obtain fp where fp: "fp = (all_mem - 0x200000) div 4096" by simp
  note P = pool_sizes [OF bound, folded n fp]
  obtain k m where k: "k = fp div 2 div 8" and m: "m = (fp - fp div 2) div 8" by simp
  have km: "unat k \<le> 5440" "unat m \<le> 5440" unfolding k m P(4,5) using P(7) by linarith+
  then have "unat k \<le> 8192" "unat m \<le> 8192" by simp_all
  note L = bitmaps_layout [OF this]
  let ?kb = "\<lparr>btmp_bytes_len = k, bits = 0xc009a000\<rparr> :: bitmap" and ?ub = "\<lparr>btmp_bytes_len = m, bits = 0xc009a000 + k\<rparr> :: bitmap"
    and ?vb = "\<lparr>btmp_bytes_len = k, bits = 0xc009a000 + k + m\<rparr> :: bitmap"
  have "\<exists>x. t = u\<lparr>kernel_mem_pool := \<lparr>mem_pool_bitmap = ?kb, phy_addr_start = 0x200000, pool_size = fp div 2 * 4096\<rparr>,
      user_mem_pool := \<lparr>mem_pool_bitmap = ?ub, phy_addr_start = 0x200000 + fp div 2 * 4096, pool_size = (fp - fp div 2) * 4096\<rparr>,
      mem := cleared ?vb (cleared ?ub (cleared ?kb (mem s))),
      kernel_vaddr_pool := \<lparr>vaddr_bitmap = ?vb, vaddr_start = 0xc0100000\<rparr>, screen := x\<rparr>"
    using run [symmetric] u unfolding mem_pool_init_def Let_def
    by (simp add: MEM_BITMAP_BASE_def K_HEAP_START_def bitmap_init_eq L fp [symmetric] k [symmetric] m [symmetric]
        put_str_def put_int_def put_char_def lock_init_screen) (rule exI, rule refl)
  then obtain x where t: "t = u\<lparr>kernel_mem_pool := \<lparr>mem_pool_bitmap = ?kb, phy_addr_start = 0x200000, pool_size = fp div 2 * 4096\<rparr>,
      user_mem_pool := \<lparr>mem_pool_bitmap = ?ub, phy_addr_start = 0x200000 + fp div 2 * 4096, pool_size = (fp - fp div 2) * 4096\<rparr>,
      mem := cleared ?vb (cleared ?ub (cleared ?kb (mem s))),
      kernel_vaddr_pool := \<lparr>vaddr_bitmap = ?vb, vaddr_start = 0xc0100000\<rparr>, screen := x\<rparr>"
    by (elim exE) (rule that)
  show "touches {} u t" unfolding t by (simp add: touches_def)
  show "tasks t = tasks s" "next_pid t = next_pid s" "handlers t = handlers s" "idt t = idt s" "kernel.more t = kernel.more s"
    "vaddr_start (kvp t) = 0xc0100000" "phy_addr_start (kernel_mem_pool t) = 0x200000"
    unfolding t by (simp_all add: u pool_bits_def pool_of_def)
  show "nbits (kvb t) = (unat all_mem - 0x200000) div 4096 div 2 div 8 * 8" "nbits (pool_bits PF_KERNEL t) = nbits (kvb t)"
    unfolding t using P(4) by (simp_all add: nbits_def pool_bits_def pool_of_def k n)
  have un: "unat (0xc009a000 + k) = 0xc009a000 + unat k" "unat (0xc009a000 + k + m) = 0xc009a000 + unat k + unat m"
    using km by (simp_all add: unat_add_below)
  have "0xc009a000 \<le> unat c \<and> unat c < 0xc009e000"
    if "c \<in> bm_bytes b" "wf_bitmap b" "0xc009a000 \<le> unat (bits b)" "unat (bits b) + unat (btmp_bytes_len b) \<le> 0xc009e000" for b c
    using that by (auto simp: bm_bytes_def in_range_unat wf_bitmap_def)
  then have R: "0xc009a000 \<le> unat c \<and> unat c < 0xc009e000" if "c \<in> bm_bytes ?kb \<union> bm_bytes ?ub \<union> bm_bytes ?vb" for c
    using that L(1-3) km un by (elim UnE) simp_all
  show "0xc009a000 \<le> unat a \<and> unat a < 0xc009e000" if "a \<in> bitmaps t"
    using that R [of a] unfolding t by (auto simp: pool_bits_def pool_of_def)
  assume "unat a < 0xc009a000 \<or> 0xc009e000 \<le> unat a"
  then have "a \<notin> bm_bytes ?kb" "a \<notin> bm_bytes ?ub" "a \<notin> bm_bytes ?vb" using R [of a] by auto
  then show "mem t a = mem s a" unfolding t by (simp add: cleared_apply)
qed


text \<open>A lock that nobody holds or waits for.\<close>

definition fresh_lock :: "u32 \<Rightarrow> 'e kernel_scheme \<Rightarrow> bool" where
  "fresh_lock L s \<longleftrightarrow> sema_value s (semaphore L) = 1 \<and> lock_holder s L = NULL \<and> lock_repeat s L = 0 \<and> dll s (waiters (semaphore L)) []"

lemma fresh_lock_init: "fresh_lock L (lock_init L s)"
  using lock_init_fields [of L s] by (simp add: fresh_lock_def)

lemma lock_offsets: "L \<in> region L 28" "semaphore L \<in> region L 28" "foot (waiters (semaphore L)) [] \<subseteq> region L 28"
  by (auto simp: in_range_def span_def add.assoc)

lemma fresh_lock_keep:
  assumes "fresh_lock L s" and "touches X s t" and "region L 28 \<inter> X = {}"
  shows "fresh_lock L t"
proof -
  have "L \<notin> X" "semaphore L \<notin> X" "foot (waiters (semaphore L)) [] \<inter> X = {}" using assms(3) lock_offsets [of L] by blast+
  then show ?thesis using assms(1) touchesD(6-8) [OF assms(2)] touches_dll [OF assms(2)] by (simp add: fresh_lock_def)
qed

lemma fresh_lock_empty: "fresh_lock L s \<Longrightarrow> list_empty (waiters (semaphore L)) s"
  using list_empty_dll [of s "waiters (semaphore L)" "[]"] by (simp add: fresh_lock_def)

text \<open>The heap before the first allocation, without what it needs of the running thread.\<close>

definition fresh_heap :: "u32 set \<Rightarrow> 'e kernel_scheme \<Rightarrow> bool" where
  "fresh_heap D s \<longleftrightarrow> pools_ok s \<and> vpool_ok (kvp s) \<and> ptabs s D \<and> bm_bytes (kvb s) \<inter> bm_bytes (pool_bits PF_KERNEL s) = {} \<and>
     (\<forall>i<nbits (kvb s). PDE_IDX (page (kvp s) i) \<in> D \<and> translate s (page (kvp s) i) = None) \<and>
     bm.in_use (kvb s) (mem s) = {} \<and> frames_apart D s \<and> vaddr_start (kvp s) = K_HEAP_START \<and>
     (\<forall>a \<in> bitmaps s. 0xc009a000 \<le> unat a \<and> unat a < 0xc009e000) \<and> fresh_lock (klock s) s \<and>
     (\<forall>i<7. desc_ok s (cls s i) i \<and> dll s (free_list (cls s i)) [])"

lemma desc_offsets:
  assumes "i < 7"
  shows "desc_at d (of_nat i) \<in> region d 168" and "foot (free_list (desc_at d (of_nat i))) [] \<subseteq> region d 168"
proof -
  have r: "d + of_nat k \<in> region d 168" if "k < 168" for k :: nat
    unfolding mem_Collect_eq in_range_offset using that by (subst unat_of_nat_below) simp_all
  have "desc_at d (of_nat i) = d + of_nat (24 * i)" by (simp add: desc_at_def)
  then show "desc_at d (of_nat i) \<in> region d 168" using r [of "24 * i"] assms by simp
  show "foot (free_list (desc_at d (of_nat i))) [] \<subseteq> region d 168"
    unfolding desc_foot using r [of "24 * i + 8"] r [of "24 * i + 16"] assms by simp
qed

lemma fresh_heap_keep:
  assumes h: "fresh_heap D s" and T: "touches X s t"
    and X: "region (klock s) 28 \<inter> X = {}" "region (addr_of s K_block_descs) 168 \<inter> X = {}"
    and eq: "kvp t = kvp s" "kernel_mem_pool t = kernel_mem_pool s" "user_mem_pool t = user_mem_pool s"
    and m: "\<And>a. 0xc009a000 \<le> unat a \<Longrightarrow> unat a < 0xc009e000 \<Longrightarrow> mem t a = mem s a"
  shows "fresh_heap D t"
proof -
  note D = touchesD [OF T]
  have pb: "pool_bits pf t = pool_bits pf s" for pf using eq by (simp add: pool_bits_def pool_of_def)
  have "pools_ok t = pools_ok s" using eq pb by (simp add: pools_ok_def)
  moreover have "bm.in_use (kvb s) (mem t) = bm.in_use (kvb s) (mem s)"
    using h m by (intro in_use_cong) (simp add: fresh_heap_def)
  moreover have "frames_apart D t = frames_apart D s" using D(3,4) eq(2) by (intro frames_apart_cong)
  moreover have "fresh_lock (klock s) t" using h by (intro fresh_lock_keep [OF _ T X(1)]) (simp add: fresh_heap_def)
  moreover have "desc_ok t (cls s i) i = desc_ok s (cls s i) i" "dll t (free_list (cls s i)) [] = dll s (free_list (cls s i)) []"
    if "i < 7" for i
    using X(2) desc_offsets [OF that, of "addr_of s K_block_descs"] unfolding cls_def
    by (intro D(9) touches_dll [OF T]; blast)+
  ultimately show ?thesis
    using h D(1) unfolding fresh_heap_def eq(1) pb touches_paging [OF T] cls_cong [OF D(1)] by simp
qed

lemma fresh_heap_inv:
  assumes h: "fresh_heap D s" and l: "linked (addr_of s)" and r: "running_thread s = 0xc009e000" "pgdir (tasks s 0xc009e000) = NULL"
  shows "heap_inv D no_chunks no_blocks s"
proof -
  have ob: "(Kernel_pool_lock, 28) \<in> set objects" "(K_block_descs, 168) \<in> set objects" by (simp_all add: objects_def)
  note H = h [unfolded fresh_heap_def]
  have "\<not> bm_bit (kvb s) (mem s) i" if "i < nbits (kvb s)" for i using H that by (auto simp: bm.in_use_def)
  then have vm: "vm_rep D (\<lambda>i. i) s" using H by (simp add: vm_rep_def Let_def)
  have below: "below_heap s A" if "\<And>a. a \<in> A \<Longrightarrow> unat a < 0xc009e000" for A
    using that H by (fastforce simp: below_heap_def K_HEAP_START_def)
  have e1: "below_heap s (bitmaps s)" using H by (intro below) blast
  have e2: "below_heap s (foot (kwait s) [])"
    using linked_object(2) [OF l ob(1)] lock_offsets(3) [of "klock s"] by (intro below) fastforce
  have e3: "below_heap s (insert (cls s i) (foot (free_list (cls s i)) []))" if "i < 7" for i
    using linked_object(2) [OF l ob(2)] desc_offsets [OF that, of "addr_of s K_block_descs"] unfolding cls_def
    by (intro below) fastforce
  have e4: "cls s i \<noteq> NULL" if "i < 7" for i
  proof -
    let ?d = "addr_of s K_block_descs"
    have d: "?d \<noteq> NULL" "unat ?d + 168 \<le> 0xc009a000" using l by (simp_all add: linked_def objects_def)
    have "unat (?d + of_nat (24 * i)) = unat ?d + 24 * i"
      using d(2) that by (subst unat_add_below; subst unat_of_nat_below; simp)
    then show ?thesis using d(1) by (auto simp: cls_def desc_at_def unat_eq_0)
  qed
  have e5: "foot (kwait s) [] \<inter> foot (free_list (cls s i)) [] = {}" if "i < 7" for i
    using linked_apart [OF l ob] lock_offsets(3) [of "klock s"] desc_offsets(2) [OF that, of "addr_of s K_block_descs"]
    unfolding cls_def by blast
  have e6: "page (kvp s) i \<noteq> running_thread s" if "i < nbits (kvb s)" for i
    using page_props(1) [of "kvp s" i] H that r(1) by (auto simp: K_HEAP_START_def)
  have "\<exists>fr. vm_rep D fr s" using vm by blast
  moreover have "dll s (kwait s) []" "frames_apart D s" "vaddr_start (kvp s) = K_HEAP_START" using H by (simp_all add: fresh_lock_def)
  ultimately have "heap_env D no_chunks s"
    using e1 e2 e3 e4 e5 e6 r unfolding heap_env_def by simp
  moreover have "heap_lists no_chunks no_blocks s" using H by (simp add: heap_lists_def)
  moreover have "heap_chunks no_chunks no_blocks s" by (simp add: heap_chunks_def)
  moreover have "lock_idle (klock s) s" using H r(1) by (simp add: lock_idle_def fresh_lock_def)
  ultimately show ?thesis by (simp add: heap_inv_def heap_core_def)
qed


text \<open>The literal that names the first thread.\<close>

definition main_name :: "u32 \<Rightarrow> bytes \<Rightarrow> bool" where
  "main_name p m \<longleftrightarrow> p \<noteq> NULL \<and> unat p + 5 \<le> 0xc009a000 \<and> cstr m p (map of_char ''main'')"

text \<open>The state in which the boot code enters the kernel with \<open>n\<close> bytes of memory: the linker's placement, the stack of the
  main thread, interrupts off, the directory at 1 MB with the page tables \<open>D\<close> behind it, no page of the heap mapped.\<close>

definition booted :: "u32 set \<Rightarrow> u32 \<Rightarrow> 'e kernel_scheme \<Rightarrow> bool" where
  "booted D n s \<longleftrightarrow> linked (addr_of s) \<and> addr_of s Tss_obj \<noteq> NULL \<and> running_thread s = 0xc009e000 \<and> get_intr_status s = INTR_OFF \<and>
     cr3 s = 0x100000 \<and> 0x200000 \<le> unat n \<and> unat n \<le> 0x15600000 \<and> (case translate s 0xb00 of None \<Rightarrow> False | Some p \<Rightarrow> phys s p = n) \<and>
     ptabs s D \<and> (\<forall>d\<in>D. unat (page_of (dir_entry s d)) < 0x200000) \<and>
     (\<forall>i<(unat n - 0x200000) div 4096 div 2 div 8 * 8.
        PDE_IDX (0xc0100000 + of_nat i * 4096) \<in> D \<and> translate s (0xc0100000 + of_nat i * 4096) = None) \<and>
     main_name (addr_of s (Literal ''main'')) (mem s)"

lemma bootedD:
  assumes "booted D n s"
  shows "linked (addr_of s)" "addr_of s Tss_obj \<noteq> NULL" "cr3 s = 0x100000" "ptabs s D"
    and "\<And>d. d \<in> D \<Longrightarrow> unat (page_of (dir_entry s d)) < 0x200000"
    and "\<And>i. i < (unat n - 0x200000) div 4096 div 2 div 8 * 8 \<Longrightarrow>
      PDE_IDX (0xc0100000 + of_nat i * 4096) \<in> D \<and> translate s (0xc0100000 + of_nat i * 4096) = None"
    and "running_thread s = 0xc009e000" "get_intr_status s = INTR_OFF"
    and "main_name (addr_of s (Literal ''main'')) (mem s)"
  using assms unfolding booted_def by blast+

lemma translate_put_str: "translate (put_str x s) v = translate s v"
  by (simp add: put_str_def translate_def pde_of_def pte_slot_def)

lemma mem_init_fresh:
  fixes s :: "'e kernel_scheme"
  assumes b: "booted D n s"
  shows "\<exists>t. mem_init s = Ok () t \<and> fresh_heap D t \<and>
    touches (region (klock s) 28 \<union> region (addr_of s User_pool_lock) 28 \<union> region (addr_of s K_block_descs) 168) s t \<and>
    tasks t = tasks s \<and> next_pid t = next_pid s \<and> handlers t = handlers s \<and> idt t = idt s \<and> kernel.more t = kernel.more s \<and>
    (\<forall>a. unat a < 0xc009a000 \<or> 0xc009e000 \<le> unat a \<longrightarrow> mem t a = mem s a)"
proof -
  let ?p = "put_str (ln ''mem_init start'') s"
  note B = bootedD [OF b]
  let ?K = "region (klock s) 28" and ?U = "region (addr_of s User_pool_lock) 28" and ?d = "addr_of s K_block_descs"
  have p: "addr_of ?p = addr_of s" "phys ?p = phys s" "cr3 ?p = cr3 s" "mem ?p = mem s" "tasks ?p = tasks s" "next_pid ?p = next_pid s"
    "handlers ?p = handlers s" "idt ?p = idt s" "kernel.more ?p = kernel.more s" by (simp_all add: put_str_def)
  have n: "0x200000 \<le> unat n" "unat n \<le> 0x15600000" and l: "linked (addr_of s)" using b by (simp_all add: booted_def)
  obtain t where t: "mem_pool_init n ?p = Ok () t" "pools_ok t" "vpool_ok (kvp t)"
      "bm_bytes (pool_bits PF_KERNEL t) \<inter> bm_bytes (kvb t) = {}"
      "unat (bits (kvb t)) + unat (btmp_bytes_len (kvb t)) \<le> 0xc009e000" "bm.in_use (kvb t) (mem t) = {}"
    using mem_pool_layout [OF n, of ?p] by (elim exE conjE) (rule that)
  let ?u = "lock_init (addr_of s User_pool_lock) (lock_init (klock s) ?p)"
  note F = mem_pool_init_frame [OF n t(1) refl, unfolded p]
  have T: "touches (?K \<union> ?U) s t"
    using touches_trans [OF touches_trans [OF touches_trans [OF touches_refl(2) touches_lock_init] touches_lock_init] F(1)]
    by simp
  note D = touchesD [OF T]
  let ?v = "block_desc_init ?d t"
  have "unat ?d + 168 \<le> 2 ^ 32" using l by (simp add: linked_def objects_def)
  then have V: "touches (region ?d 168) t ?v" unfolding block_desc_init_def by (rule block_desc_init_touches)
  obtain a b' c d where v: "?v = t\<lparr>desc_block_size := a, desc_blocks_per_arena := b', node_prev := c, node_next := d\<rparr>"
    using block_desc_init_loop_same [of ?d 0 16 t, folded block_desc_init_def] by (elim exE) (rule that)
  let ?w = "put_str (ln ''mem_init done'') ?v"
  have W: "touches (region ?d 168) t ?w" using touches_trans [OF V touches_refl(2)] by simp
  have w: "kvp ?w = kvp t" "kernel_mem_pool ?w = kernel_mem_pool t" "user_mem_pool ?w = user_mem_pool t" "mem ?w = mem t"
    "tasks ?w = tasks t" "next_pid ?w = next_pid t" "handlers ?w = handlers t" "idt ?w = idt t" "kernel.more ?w = kernel.more t"
    unfolding v by (simp_all add: put_str_def)
  obtain q where "translate s 0xb00 = Some q" "phys s q = n" using b by (auto simp: booted_def split: option.splits)
  then have "load_word 0xb00 ?p = Ok n ?p" using p(2) by (simp add: load_word_def translate_put_str)
  then have "mem_init s = Ok () ?w" using t(1) D(1) by (simp add: mem_init_def Let_def)
  moreover have "touches (?K \<union> ?U \<union> region ?d 168) s ?w" using touches_trans [OF T W] .
  moreover have "fresh_heap D ?w"
  proof -
    have ob: "(Kernel_pool_lock, 28) \<in> set objects" "(User_pool_lock, 28) \<in> set objects" "(K_block_descs, 168) \<in> set objects"
      by (simp_all add: objects_def)
    have "fresh_lock (klock s) ?u"
      using linked_apart [OF l ob(1,2)] by (intro fresh_lock_keep [OF fresh_lock_init touches_lock_init]) simp
    then have "fresh_lock (klock s) t" using fresh_lock_keep [OF _ F(1)] by simp
    then have "fresh_lock (klock s) ?w" using linked_apart [OF l ob(1,3)] by (intro fresh_lock_keep [OF _ W]) simp_all
    moreover have "desc_ok ?w (cls s i) i \<and> dll ?w (free_list (cls s i)) []" if "i < 7" for i
      using block_desc_init_classes [OF that refl, of ?d t] unfolding cls_def
      by (simp add: desc_ok_def dll_def put_str_def)
    moreover have "0xc009a000 \<le> unat a \<and> unat a < 0xc009e000" if "a \<in> bitmaps t" for a using F(9) that .
    moreover have "frames_apart D ?w"
    proof -
      have "0x200000 \<le> unat (frame PF_KERNEL t i)" if "i < nbits (pool_bits PF_KERNEL t)" for i
        using unat_frame [OF t(2) that] F(8) by (simp add: pool_of_def)
      then have "frames_apart D t"
        using B(3,5) D(4) unfolding frames_apart_def touches_paging [OF T] by fastforce
      then show ?thesis using touchesD(3,4) [OF W] w(2) frames_apart_cong [of ?w t D] by simp
    qed
    moreover have "ptabs ?w D" "translate ?w x = translate s x" for x
      using B(4) by (simp_all only: touches_paging [OF T] touches_paging [OF W])
    moreover have "pool_bits pf ?w = pool_bits pf t" for pf using w(2,3) by (simp add: pool_bits_def pool_of_def)
    moreover have "pools_ok ?w" using t(2) w(2,3) by (simp add: pools_ok_def pool_bits_def pool_of_def)
    moreover have "page (kvp t) i = 0xc0100000 + of_nat i * 4096" for i using F(7) by (simp add: page_def)
    moreover have "addr_of ?w = addr_of s" using D(1) touchesD(1) [OF W] by simp
    ultimately show ?thesis
      using t(3,4,6) F(7,10) B(6) cls_cong [of ?w s] w(1,4)
      by (simp add: fresh_heap_def K_HEAP_START_def Int_commute)
  qed
  ultimately show ?thesis using w F by (intro exI [of _ ?w]) simp
qed


section \<open>Threads\<close>

text \<open>The task of the kernel's first thread, on the page of the boot stack.\<close>

abbreviation main_task :: u32 where "main_task \<equiv> 0xc009e000"

lemma touches_append:
  assumes "dll s l xs"
  shows "touches (insert x (foot l xs)) s (list_append l x s)"
proof -
  have "node_next (list_append l x s) a = node_next s a" "node_prev (list_append l x s) a = node_prev s a"
    if "a \<notin> insert x (foot l xs)" for a
    using insert_before_outside [of s l xs "[]" a x] assms that unfolding list_append_as_insert by (simp_all add: foot_simps)
  then show ?thesis unfolding touches_def by (simp add: list_ops_upd)
qed

text \<open>Where the objects of this section lie with respect to each other and to the task.\<close>

lemma foot_region: "foot l [] \<subseteq> region l 16"
  by (auto simp: span_def in_range_def)

lemma linked_main:
  assumes "linked addr" and "(x, n) \<in> set objects"
  shows "region (addr x) n \<inter> region main_task 240 = {}"
proof -
  have "\<not> in_range main_task 240 a" if "unat a < 0xc009a000" for a using that by (simp add: in_range_unat)
  then show ?thesis using linked_object(2) [OF assms] by blast
qed

lemma thread_objects:
  assumes l: "linked addr"
  defines "R \<equiv> region (addr Thread_ready_list) 16" and "A \<equiv> region (addr Thread_all_list) 16" and "P \<equiv> region (addr Pid_lock) 28"
  shows "R \<inter> A = {}" "R \<inter> P = {}" "A \<inter> P = {}" "R \<inter> region main_task 240 = {}" "A \<inter> region main_task 240 = {}"
    "P \<inter> region main_task 240 = {}"
proof -
  have ob: "(Thread_ready_list, 16) \<in> set objects" "(Thread_all_list, 16) \<in> set objects" "(Pid_lock, 28) \<in> set objects"
    by (simp_all add: objects_def)
  show "R \<inter> A = {}" "R \<inter> P = {}" "A \<inter> P = {}"
    unfolding R_def A_def P_def using linked_apart [OF l ob(1,2)] linked_apart [OF l ob(1,3)] linked_apart [OF l ob(2,3)] by simp_all
  show "R \<inter> region main_task 240 = {}" "A \<inter> region main_task 240 = {}" "P \<inter> region main_task 240 = {}"
    unfolding R_def A_def P_def by (rule linked_main [OF l], rule ob)+
qed

definition main_struct :: "u16 \<Rightarrow> task_struct" where
  "main_struct n = (new_task main_task n 31)\<lparr>status := TASK_RUNNING\<rparr>"

lemma init_main_task:
  fixes s :: "'e kernel_scheme"
  assumes l: "linked (addr_of s)" and r: "running_thread s = main_task" "main_thread s = main_task"
    and P: "fresh_lock (addr_of s Pid_lock) s" and name: "main_name name (mem s)"
  shows "\<exists>u. init_thread main_task name 31 s = Ok () u \<and> tasks u = (tasks s)(main_task := main_struct (next_pid s + 1)) \<and>
    touches (region (addr_of s Pid_lock) 28 \<union> region main_task 240) s u \<and> fresh_lock (addr_of s Pid_lock) u \<and>
    next_pid u = next_pid s + 1 \<and> main_thread u = main_task \<and>
    kvp u = kvp s \<and> kernel_mem_pool u = kernel_mem_pool s \<and> user_mem_pool u = user_mem_pool s \<and>
    handlers u = handlers s \<and> idt u = idt s \<and> kernel.more u = kernel.more s \<and>
    (\<forall>a. unat a < 0xc009e000 \<longrightarrow> mem u a = mem s a)"
proof -
  let ?P = "addr_of s Pid_lock" and ?nm = "map of_char ''main'' :: u8 list"
  have N: "name \<noteq> NULL" "unat name + 5 \<le> 0xc009a000" "cstr (mem s) name ?nm" using name unfolding main_name_def by blast+
  have m: "in_range main_task 240 a \<longleftrightarrow> 0xc009e000 \<le> unat a \<and> unat a < 0xc009e0f0" for a by (simp add: in_range_unat)
  have pf: "pid_free s" using P r fresh_lock_empty [OF P] by (simp add: pid_free_def Let_def fresh_lock_def)
  have w: "\<not> in_range main_task 240 (waiters (semaphore ?P))"
    using thread_objects(6) [OF l] lock_offsets(3) [of ?P] by (auto simp: span_def)
  have len: "length ?nm < unat (main_task + 12 - name)"
    using N(2) by (simp add: unat_sub_le word_le_nat_alt)
  have off: "\<forall>a. in_range name (Suc (length ?nm)) a \<longrightarrow> \<not> in_range main_task 240 a"
    using N(2) by (auto simp: in_range_unat m)
  have x: "TASK_RUNNING = (if main_task = main_thread s then TASK_RUNNING else TASK_READY)" using r(2) by simp
  have nz: "main_task \<noteq> NULL" "main_task + 12 \<noteq> NULL" by simp_all
  obtain u where u: "init_thread main_task name 31 s = Ok () u" "tasks u = (tasks s)(main_task := main_struct (next_pid s + 1))"
      "addr_of u = addr_of s" "esp u = esp s" "phys u = phys s" "cr3 u = cr3 s" "thread_stacks u = thread_stacks s"
      "eflags u = eflags s" "next_pid u = next_pid s + 1"
      "\<forall>a. \<not> in_range main_task 240 a \<longrightarrow> node_next u a = node_next s a \<and> node_prev u a = node_prev s a \<and>
         desc_block_size u a = desc_block_size s a \<and> desc_blocks_per_arena u a = desc_blocks_per_arena s a"
      "mem u = memcpy_loop (length ?nm) (main_task + 12) name (\<lambda>a. if in_range main_task 240 a then 0 else mem s a)"
      "sema_value u = sema_value s" "lock_repeat u = lock_repeat s" "lock_holder u = (lock_holder s)(?P := NULL)"
      "kvp u = kvp s" "kernel_mem_pool u = kernel_mem_pool s" "user_mem_pool u = user_mem_pool s" "main_thread u = main_thread s"
      "handlers u = handlers s" "idt u = idt s" "kernel.more u = kernel.more s"
    using init_thread_runs [OF nz(1) pf w N(1) nz(2) N(3) len off x, of 31, folded main_struct_def]
    by (elim exE conjE) (rule that)
  have T: "touches (region ?P 28 \<union> region main_task 240) s u"
    using u lock_offsets(1) [of ?P] unfolding touches_def by auto
  have "fresh_lock ?P u"
  proof -
    have "foot (waiters (semaphore ?P)) [] \<inter> region main_task 240 = {}" using thread_objects(6) [OF l] lock_offsets(3) [of ?P] by blast
    then have "dll u (waiters (semaphore ?P)) [] = dll s (waiters (semaphore ?P)) []" using u(10) by (intro dll_cong) blast+
    then show ?thesis using P u(12-14) by (simp add: fresh_lock_def)
  qed
  moreover have "mem u a = mem s a" if "unat a < 0xc009e000" for a
  proof -
    have "\<not> in_range (main_task + 12) (length ?nm) a" "\<not> in_range main_task 240 a" using that by (simp_all add: in_range_unat)
    then show ?thesis using len unfolding u(11) by (subst memcpy_loop_eq) simp_all
  qed
  moreover have "main_thread u = main_task" using u(18) r(2) by simp
  ultimately show ?thesis using u(1,2,9,15-17,19-21) T by blast
qed


lemma make_main_thread_ok:
  fixes s :: "'e kernel_scheme"
  assumes l: "linked (addr_of s)" and r: "running_thread s = main_task"
    and R: "dll s (thread_ready_list s) []" and A: "dll s (thread_all_list s) []"
    and P: "fresh_lock (addr_of s Pid_lock) s" and name: "main_name (addr_of s (Literal ''main'')) (mem s)"
    and X: "X = region (thread_all_list s) 16 \<union> region (addr_of s Pid_lock) 28 \<union> region main_task 240"
  shows "\<exists>t. make_main_thread s = Ok () t \<and> tasks t = (tasks s)(main_task := main_struct (next_pid s + 1)) \<and>
    touches X s t \<and> fresh_lock (addr_of s Pid_lock) t \<and> dll t (thread_ready_list s) [] \<and> dll t (thread_all_list s) [all_list_tag main_task] \<and>
    next_pid t = next_pid s + 1 \<and> main_thread t = main_task \<and>
    kvp t = kvp s \<and> kernel_mem_pool t = kernel_mem_pool s \<and> user_mem_pool t = user_mem_pool s \<and>
    handlers t = handlers s \<and> idt t = idt s \<and> kernel.more t = kernel.more s \<and>
    (\<forall>a. unat a < 0xc009e000 \<longrightarrow> mem t a = mem s a)"
proof -
  let ?m = "s\<lparr>main_thread := main_task\<rparr>" and ?R = "thread_ready_list s" and ?A = "thread_all_list s" and ?P = "addr_of s Pid_lock"
  let ?tag = "all_list_tag main_task"
  have Tm: "touches {} s ?m" by (simp add: touches_def)
  have m: "linked (addr_of ?m)" "running_thread ?m = main_task" "main_thread ?m = main_task" "fresh_lock (addr_of ?m Pid_lock) ?m"
    "main_name (addr_of ?m (Literal ''main'')) (mem ?m)"
    using l r name fresh_lock_keep [OF P Tm] by (simp_all add: running_thread_def)
  obtain u where u: "init_thread main_task (addr_of ?m (Literal ''main'')) 31 ?m = Ok () u"
      "tasks u = (tasks ?m)(main_task := main_struct (next_pid ?m + 1))"
      "touches (region (addr_of ?m Pid_lock) 28 \<union> region main_task 240) ?m u" "fresh_lock (addr_of ?m Pid_lock) u"
      "next_pid u = next_pid ?m + 1" "main_thread u = main_task"
      "kvp u = kvp ?m" "kernel_mem_pool u = kernel_mem_pool ?m" "user_mem_pool u = user_mem_pool ?m"
      "handlers u = handlers ?m" "idt u = idt ?m" "kernel.more u = kernel.more ?m"
      "\<forall>a. unat a < 0xc009e000 \<longrightarrow> mem u a = mem ?m a"
    using init_main_task [OF m] by (elim exE conjE) (rule that)
  note O = thread_objects [OF l]
  have Tu: "touches (region ?P 28 \<union> region main_task 240) s u" using touches_trans [OF Tm u(3)] by simp
  have au: "addr_of u = addr_of s" by (rule touchesD(1) [OF Tu])
  have Ru: "dll u ?R []" using touches_dll [OF Tu, of ?R "[]"] foot_region [of ?R] O(2,4) R by blast
  have Au: "dll u ?A []" using touches_dll [OF Tu, of ?A "[]"] foot_region [of ?A] O(3,5) A by blast
  have tag: "?tag \<in> region main_task 240" using tags_in_page(2) [of main_task] by simp
  then have out: "?tag \<notin> foot ?A []" using foot_region [of ?A] O(5) by blast
  let ?v = "list_append ?A ?tag u"
  have Tv: "touches (insert ?tag (foot ?A [])) u ?v" by (rule touches_append [OF Au])
  have disR: "foot ?R [] \<inter> insert ?tag (foot ?A []) = {}" using foot_region [of ?R] foot_region [of ?A] O(1,4) tag by blast
  have disP: "region ?P 28 \<inter> insert ?tag (foot ?A []) = {}" using foot_region [of ?A] O(3,6) tag by blast
  have "make_main_thread s = Ok () ?v"
    using u(1,6) r au node_find_dll [OF Au, of ?tag] by (simp add: make_main_thread_def Let_def running_thread_def)
  moreover have "touches X s ?v"
    using foot_region [of ?A] tag X by (intro touches_weaken [OF touches_trans [OF Tu Tv]]) blast
  moreover have "fresh_lock ?P ?v" using u(4) by (intro fresh_lock_keep [OF _ Tv disP]) simp
  moreover have "dll ?v ?R []" using Ru touches_dll [OF Tv disR] by simp
  moreover have "dll ?v ?A [?tag]" using list_append_dll [OF Au out] by simp
  moreover have "tasks ?v = tasks u" "next_pid ?v = next_pid u" "main_thread ?v = main_thread u" "kvp ?v = kvp u" "mem ?v = mem u"
    "kernel_mem_pool ?v = kernel_mem_pool u" "user_mem_pool ?v = user_mem_pool u" "handlers ?v = handlers u" "idt ?v = idt u"
    "kernel.more ?v = kernel.more u" by (simp_all add: list_ops_upd)
  ultimately show ?thesis using u by (intro exI [of _ ?v]) simp
qed


lemma thread_init_ok:
  fixes s :: "'e kernel_scheme"
  assumes l: "linked (addr_of s)" and r: "running_thread s = main_task" and name: "main_name (addr_of s (Literal ''main'')) (mem s)"
    and X: "X = region (thread_ready_list s) 16 \<union> region (thread_all_list s) 16 \<union> region (addr_of s Pid_lock) 28 \<union> region main_task 240"
  shows "\<exists>t. thread_init s = Ok () t \<and> tasks t = (tasks s)(main_task := main_struct (next_pid s + 1)) \<and>
    touches X s t \<and> fresh_lock (addr_of s Pid_lock) t \<and> dll t (thread_ready_list s) [] \<and> dll t (thread_all_list s) [all_list_tag main_task] \<and>
    next_pid t = next_pid s + 1 \<and> main_thread t = main_task \<and>
    kvp t = kvp s \<and> kernel_mem_pool t = kernel_mem_pool s \<and> user_mem_pool t = user_mem_pool s \<and>
    handlers t = handlers s \<and> idt t = idt s \<and> kernel.more t = kernel.more s \<and>
    (\<forall>a. unat a < 0xc009e000 \<longrightarrow> mem t a = mem s a)"
proof -
  let ?R = "thread_ready_list s" and ?A = "thread_all_list s" and ?P = "addr_of s Pid_lock"
  let ?p = "list_init ?R (put_str (ln ''thread_init start'') s)"
  let ?q = "lock_init ?P (list_init ?A ?p)"
  note O = thread_objects [OF l]
  have T1: "touches (region ?R 16) s ?p" using touches_trans [OF touches_refl(2) touches_list_init] by simp
  note T2 = touches_trans [OF touches_list_init [of ?A ?p] touches_lock_init [of ?P]]
  have Tq: "touches (region ?R 16 \<union> (region ?A 16 \<union> region ?P 28)) s ?q" using touches_trans [OF T1 T2] .
  have q: "addr_of ?q = addr_of s" "running_thread ?q = running_thread s" "mem ?q = mem s" "tasks ?q = tasks s" "next_pid ?q = next_pid s"
    "kvp ?q = kvp s" "kernel_mem_pool ?q = kernel_mem_pool s" "user_mem_pool ?q = user_mem_pool s" "handlers ?q = handlers s"
    "idt ?q = idt s" "kernel.more ?q = kernel.more s"
    using touchesD(1,10) [OF Tq] by (simp_all add: put_str_def list_init_def set_prev_def set_next_def)
  have "dll ?q ?R []" using touches_dll [OF T2, of ?R "[]"] foot_region [of ?R] O(1,2) list_init_dll by blast
  moreover have "dll ?q ?A []" using touches_dll [OF touches_lock_init, of ?A "[]" ?P] foot_region [of ?A] O(3) list_init_dll by blast
  moreover have "linked (addr_of ?q)" "running_thread ?q = main_task" "main_name (addr_of ?q (Literal ''main'')) (mem ?q)"
    using l r name unfolding q by simp_all
  moreover note fresh_lock_init [of ?P "list_init ?A ?p"]
  ultimately obtain t where t: "make_main_thread ?q = Ok () t" "tasks t = (tasks ?q)(main_task := main_struct (next_pid ?q + 1))"
      "touches (region ?A 16 \<union> region ?P 28 \<union> region main_task 240) ?q t" "fresh_lock ?P t" "dll t ?R []"
      "dll t ?A [all_list_tag main_task]" "next_pid t = next_pid ?q + 1" "main_thread t = main_task"
      "kvp t = kvp ?q" "kernel_mem_pool t = kernel_mem_pool ?q" "user_mem_pool t = user_mem_pool ?q"
      "handlers t = handlers ?q" "idt t = idt ?q" "kernel.more t = kernel.more ?q" "\<forall>a. unat a < 0xc009e000 \<longrightarrow> mem t a = mem ?q a"
    using make_main_thread_ok [of ?q, OF _ _ _ _ _ _ refl, unfolded q(1)] unfolding q(1) by (elim meta_impE exE conjE) (assumption | rule that)+
  let ?t = "put_str (ln ''thread_init done'') t"
  have "touches X s ?t"
    unfolding X by (rule touches_weaken [OF touches_trans [OF touches_trans [OF Tq t(3)] touches_refl(2)]]) blast
  moreover have "thread_init s = Ok () ?t"
    using t(1) by (simp add: thread_init_def Let_def put_str_def)
  moreover have "fresh_lock ?P ?t" using t(4) by (rule fresh_lock_keep [OF _ touches_refl(2)]) simp
  moreover have "dll ?t k ks = dll t k ks" for k ks by (rule touches_dll [OF touches_refl(2)]) simp
  moreover have "tasks ?t = tasks t" "next_pid ?t = next_pid t" "main_thread ?t = main_thread t" "kvp ?t = kvp t" "mem ?t = mem t"
    "kernel_mem_pool ?t = kernel_mem_pool t" "user_mem_pool ?t = user_mem_pool t" "handlers ?t = handlers t" "idt ?t = idt t"
    "kernel.more ?t = kernel.more t" by (simp_all add: put_str_def)
  ultimately show ?thesis using t(2,5-15) q by (intro exI [of _ ?t]) simp
qed


section \<open>Interrupts and devices\<close>

lemma init_exception_upd: "\<exists>h n. init_exception g s = s\<lparr>handlers := h, intr_name := n\<rparr>"
proof -
  have names: "\<exists>n. fold (\<lambda>(i, nm) s. s\<lparr>intr_name := (intr_name s)(i := nm)\<rparr>) xs v = v\<lparr>intr_name := n\<rparr>" for xs and v :: "'a icu_scheme"
  proof (induction xs arbitrary: v)
    case Nil
    then show ?case by (intro exI [of _ "intr_name v"]) simp
  next
    case (Cons x xs)
    obtain i nm where x: "x = (i, nm)" by (cases x)
    obtain n where "fold (\<lambda>(i, nm) s. s\<lparr>intr_name := (intr_name s)(i := nm)\<rparr>) xs (v\<lparr>intr_name := (intr_name v)(i := nm)\<rparr>) =
        v\<lparr>intr_name := (intr_name v)(i := nm), intr_name := n\<rparr>" using Cons [of "v\<lparr>intr_name := (intr_name v)(i := nm)\<rparr>"] by blast
    then show ?case unfolding x by (intro exI [of _ n]) (simp add: fun_upd_def)
  qed
  let ?v = "s\<lparr>handlers := \<lambda>i. if i < IDT_DESC_CNT then g else handlers s i,
    intr_name := \<lambda>i. if i < IDT_DESC_CNT then ''unknown'' else intr_name s i\<rparr>"
  obtain n where "fold (\<lambda>(i, nm) s. s\<lparr>intr_name := (intr_name s)(i := nm)\<rparr>) exception_names ?v = ?v\<lparr>intr_name := n\<rparr>"
    using names [of exception_names ?v] by (elim exE) (rule that)
  then have "init_exception g s = s\<lparr>handlers := \<lambda>i. if i < IDT_DESC_CNT then g else handlers s i, intr_name := n\<rparr>"
    unfolding init_exception_def exceptions_loop Let_def by simp
  then show ?thesis by (intro exI)
qed

lemma early_init:
  fixes s :: "'e kernel_scheme"
  assumes u: "u = init_timer (init_intr entries sys general base (put_str x s))"
  shows "touches {} s u" "tasks u = tasks s" "next_pid u = next_pid s" "mem u = mem s" "kernel.more u = kernel.more s"
    "handlers u 0x20 = addr_of s Intr_timer_handler" "i < 0x80 \<Longrightarrow> gate_target (idt u i) = entries i" "gate_target (idt u 0x80) = sys"
proof -
  let ?i = "init_idt entries sys (put_str (ln ''interrupt start'') (put_str x s))"
  obtain h n where e: "init_exception general ?i = ?i\<lparr>handlers := h, intr_name := n\<rparr>"
    using init_exception_upd [of general ?i] by (elim exE) (rule that)
  have g: "idt u = idt ?i"
    unfolding u init_timer_def init_intr_def Let_def e by (simp add: init_pic_def set_frequency_def register_handler_def put_str_def outb_def Let_def)
  show "touches {} s u" "tasks u = tasks s" "next_pid u = next_pid s" "mem u = mem s" "kernel.more u = kernel.more s"
    "handlers u 0x20 = addr_of s Intr_timer_handler"
    unfolding u init_timer_def init_intr_def Let_def e touches_def
    by (simp_all add: init_pic_def set_frequency_def register_handler_def put_str_def outb_def init_idt_def Let_def)
  show "i < 0x80 \<Longrightarrow> gate_target (idt u i) = entries i" "gate_target (idt u 0x80) = sys"
    by (simp_all add: g idt_init_idt gate_target_init)
qed

text \<open>What the last part of the initialisation adds to the state \<open>s\<close>.\<close>

definition devices_ready :: "'e device_scheme \<Rightarrow> 'e device_scheme \<Rightarrow> bool" where
  "devices_ready s u \<longleftrightarrow> (let q = addr_of s Keyboard_buf in
     touches (region (addr_of s Console_lock) 28 \<union> region q 108) s u \<and>
     fresh_lock (addr_of s Console_lock) u \<and> fresh_lock q u \<and> tasks u = tasks s \<and> mem u = mem s \<and> main_thread u = main_thread s \<and>
     kvp u = kvp s \<and> kernel_mem_pool u = kernel_mem_pool s \<and> user_mem_pool u = user_mem_pool s \<and> idt u = idt s \<and>
     handlers u = (handlers s)(0x21 := addr_of s Intr_keyboard_handler) \<and>
     ioq_head u q = 0 \<and> ioq_tail u q = 0 \<and> ioq_producer u q = NULL \<and> ioq_consumer u q = NULL \<and>
     tss u = zero_tss\<lparr>tss_ss0 := 0x10, tss_io_base := 108\<rparr> \<and>
     (\<forall>n. syscall_table u (nr n) = addr_of s (case n of SYS_GETPID \<Rightarrow> Sys_getpid | SYS_WRITE \<Rightarrow> Sys_write
        | SYS_MALLOC \<Rightarrow> Sys_malloc | SYS_FREE \<Rightarrow> Sys_free)))"

lemma late_init:
  fixes s :: "'e device_scheme"
  assumes l: "linked (addr_of s)" and tss: "addr_of s Tss_obj \<noteq> NULL"
  shows "\<exists>t. tss_init (keyboard_init (console_init s)) = Ok () t \<and> devices_ready s (put_str x (syscall_init t))"
proof -
  obtain q where q: "q = addr_of s Keyboard_buf" by simp
  let ?C = "addr_of s Console_lock"
  let ?c = "console_init s" and ?k = "keyboard_init (console_init s)"
  have ob: "(Console_lock, 28) \<in> set objects" "(Keyboard_buf, 108) \<in> set objects" by (simp_all add: objects_def)
  have dis: "region ?C 28 \<inter> region q 108 = {}" using linked_apart [OF l ob] q by simp
  have sub: "region q 28 \<subseteq> region q 108" by (auto simp: in_range_def)
  have pr: "touches {} (lock_init L v) (put_str y (lock_init L v))" for L y and v :: "'e device_scheme" by simp
  have C: "touches (region ?C 28) s ?c" "fresh_lock ?C ?c"
    using touches_trans [OF touches_trans [OF touches_refl(2) touches_lock_init [of ?C]] touches_refl(2), of s]
      fresh_lock_keep [OF fresh_lock_init [of ?C] pr]
    by (simp_all add: console_init_def Let_def put_str_def)
  have ca: "addr_of ?c = addr_of s" by (rule touchesD(1) [OF C(1)])
  have K: "touches (region q 28) ?c (lock_init q (put_str (ln ''keyboard init start'') ?c))"
    using touches_trans [OF touches_refl(2) touches_lock_init [of q]] by simp
  have k: "touches {} (lock_init q (put_str (ln ''keyboard init start'') ?c)) ?k"
    using ca q by (simp add: keyboard_init_def Let_def ioqueue_init_def register_handler_def put_str_def touches_def)
  have ka: "addr_of ?k Tss_obj \<noteq> NULL" using touchesD(1) [OF k] ca tss by simp
  obtain t where t: "tss_init ?k = Ok () t" "touches {} ?k t" "tasks t = tasks ?k" "next_pid t = next_pid ?k" "mem t = mem ?k"
      "main_thread t = main_thread ?k" "kvp t = kvp ?k" "kernel_mem_pool t = kernel_mem_pool ?k" "user_mem_pool t = user_mem_pool ?k"
      "idt t = idt ?k" "handlers t = handlers ?k" "kernel.more t = kernel.more ?k" "tss t = zero_tss\<lparr>tss_ss0 := 0x10, tss_io_base := 108\<rparr>"
    using ka by (simp add: tss_init_def ltr_def Let_def set_gdt_def put_str_def touches_def selector_values)
  note D = device_fields_more [OF t(12)]
  let ?u = "put_str x (syscall_init t)"
  have U: "touches {} t ?u" by (simp add: syscall_init_def Let_def put_str_def touches_def)
  have T: "touches ({} \<union> {} \<union> {}) (lock_init q (put_str (ln ''keyboard init start'') ?c)) ?u"
    by (rule touches_trans [OF touches_trans [OF k t(2)] U])
  have T': "touches (region q 28) ?c ?u" using touches_trans [OF K T] by simp
  have "touches (region ?C 28 \<union> region q 108) s ?u"
    using sub by (intro touches_weaken [OF touches_trans [OF C(1) T']]) blast
  moreover have "fresh_lock ?C ?u" using dis sub by (intro fresh_lock_keep [OF C(2) T']) blast
  moreover have "fresh_lock q ?u" using fresh_lock_keep [OF fresh_lock_init T] by simp
  moreover have "syscall_table ?u (nr n) = addr_of s (case n of SYS_GETPID \<Rightarrow> Sys_getpid | SYS_WRITE \<Rightarrow> Sys_write
        | SYS_MALLOC \<Rightarrow> Sys_malloc | SYS_FREE \<Rightarrow> Sys_free)" for n
    using syscall_init_table [of t n] touchesD(1) [OF t(2)] touchesD(1) [OF k] ca by (simp add: put_str_def)
  moreover have "tasks ?k = tasks s" "next_pid ?k = next_pid s" "mem ?k = mem s" "main_thread ?k = main_thread s" "kvp ?k = kvp s"
    "kernel_mem_pool ?k = kernel_mem_pool s" "user_mem_pool ?k = user_mem_pool s" "idt ?k = idt s"
    "handlers ?k = (handlers s)(0x21 := addr_of s Intr_keyboard_handler)" "ioq_head ?k q = 0" "ioq_tail ?k q = 0"
    "ioq_producer ?k q = NULL" "ioq_consumer ?k q = NULL"
    using q by (simp_all add: keyboard_init_def console_init_def Let_def ioqueue_init_def register_handler_def put_str_def)
  moreover have "tasks ?u = tasks t" "next_pid ?u = next_pid t" "mem ?u = mem t" "main_thread ?u = main_thread t" "kvp ?u = kvp t"
    "kernel_mem_pool ?u = kernel_mem_pool t" "user_mem_pool ?u = user_mem_pool t" "idt ?u = idt t" "handlers ?u = handlers t"
    "ioq_head ?u = ioq_head t" "ioq_tail ?u = ioq_tail t" "ioq_producer ?u = ioq_producer t" "ioq_consumer ?u = ioq_consumer t"
    "tss ?u = tss t"
    by (simp_all add: syscall_init_def Let_def put_str_def)
  ultimately have "devices_ready s ?u" using t D unfolding devices_ready_def Let_def q [symmetric] by simp
  then show ?thesis using t(1) by blast
qed


section \<open>The whole sequence\<close>

lemma booted_keep:
  assumes "booted D n s" and T: "touches {} s t" and "mem t = mem s"
  shows "booted D n t"
  using assms(1) unfolding booted_def touches_paging [OF T] touchesD(1,3-5,10) [OF T] assms(3) get_intr_status_def .

lemma fresh_heap_apart:
  assumes "fresh_heap D s" and "touches X s t" and l: "linked (addr_of s)"
    and X: "X \<subseteq> region main_task 240 \<union> \<Union> {region (addr_of s x) n | x n. (x, n) \<in> set objects \<and> x \<noteq> Kernel_pool_lock \<and> x \<noteq> K_block_descs}"
    and "kvp t = kvp s" "kernel_mem_pool t = kernel_mem_pool s" "user_mem_pool t = user_mem_pool s"
    and "\<forall>a. unat a < 0xc009e000 \<longrightarrow> mem t a = mem s a"
  shows "fresh_heap D t"
proof (rule fresh_heap_keep [OF assms(1,2) _ _ assms(5-7)])
  have ob: "(Kernel_pool_lock, 28) \<in> set objects" "(K_block_descs, 168) \<in> set objects" by (simp_all add: objects_def)
  show "region (klock s) 28 \<inter> X = {}" using X linked_apart [OF l ob(1)] linked_main [OF l ob(1)] by blast
  show "region (addr_of s K_block_descs) 168 \<inter> X = {}" using X linked_apart [OF l ob(2)] linked_main [OF l ob(2)] by blast
qed (use assms(8) in simp)

lemma boot_threads:
  fixes s :: "'e kernel_scheme"
  assumes b: "booted D n s"
  shows "\<exists>c. bind (mem_init s) (\<lambda>_ s. thread_init s) = Ok () c \<and> fresh_heap D c \<and> addr_of c = addr_of s \<and> running_thread c = main_task \<and>
    cr3 c = 0x100000 \<and> get_intr_status c = INTR_OFF \<and> tasks c main_task = main_struct (next_pid s + 1) \<and>
    fresh_lock (addr_of s Pid_lock) c \<and> dll c (thread_ready_list s) [] \<and> dll c (thread_all_list s) [all_list_tag main_task] \<and>
    main_thread c = main_task \<and> handlers c = handlers s \<and> idt c = idt s"
proof -
  note B = bootedD [OF b]
  obtain t where t: "mem_init s = Ok () t" "fresh_heap D t"
      "touches (region (klock s) 28 \<union> region (addr_of s User_pool_lock) 28 \<union> region (addr_of s K_block_descs) 168) s t"
      "tasks t = tasks s" "next_pid t = next_pid s" "handlers t = handlers s" "idt t = idt s" "kernel.more t = kernel.more s"
      "\<forall>a. unat a < 0xc009a000 \<or> 0xc009e000 \<le> unat a \<longrightarrow> mem t a = mem s a"
    using mem_init_fresh [OF b] by (elim exE conjE) (rule that)
  note T = touchesD [OF t(3)]
  let ?p = "addr_of s (Literal ''main'')"
  have nm: "main_name ?p (mem t)"
  proof -
    have "unat ?p + 5 \<le> 0xc009a000" using B(9) by (simp add: main_name_def)
    then have "mem t (?p + of_nat i) = mem s (?p + of_nat i)" if "i < 5" for i
      using that t(9) by (simp add: unat_add_below unat_of_nat_below)
    note same = this this [of 4]
    then show ?thesis using B(9) unfolding main_name_def cstr_iff by simp
  qed
  have h: "linked (addr_of t)" "running_thread t = main_task" "main_name (addr_of t (Literal ''main'')) (mem t)"
    using B(1,7) nm unfolding T(1,10) by simp_all
  obtain c where c: "thread_init t = Ok () c" "tasks c = (tasks t)(main_task := main_struct (next_pid t + 1))"
      "touches (region (thread_ready_list t) 16 \<union> region (thread_all_list t) 16 \<union> region (addr_of t Pid_lock) 28 \<union> region main_task 240) t c"
      "fresh_lock (addr_of t Pid_lock) c" "dll c (thread_ready_list t) []" "dll c (thread_all_list t) [all_list_tag main_task]"
      "next_pid c = next_pid t + 1" "main_thread c = main_task"
      "kvp c = kvp t" "kernel_mem_pool c = kernel_mem_pool t" "user_mem_pool c = user_mem_pool t"
      "handlers c = handlers t" "idt c = idt t" "kernel.more c = kernel.more t" "\<forall>a. unat a < 0xc009e000 \<longrightarrow> mem c a = mem t a"
    using thread_init_ok [OF h refl] by (elim exE conjE) (rule that)
  note C = touchesD [OF c(3)]
  have "fresh_heap D c"
    by (rule fresh_heap_apart [OF t(2) c(3) h(1) _ c(9-11,15)]) (auto simp: objects_def)
  moreover have "get_intr_status c = INTR_OFF" using B(8) C(5) T(5) by (simp add: get_intr_status_def)
  ultimately show ?thesis
    using c t(1,5-7) C(1,4,10) T(1,4,10) B(3,7) by (intro exI [of _ c]) simp
qed


lemma fresh_sched:
  assumes l: "linked (addr_of s)" and "dll s (thread_ready_list s) []" and "running_thread s = main_task"
    and "tasks s main_task = main_struct n" and "cr3 s = 0x100000"
  shows "sched_inv s {main_task} (\<lambda>_. 0x100000) []"
proof -
  have "(Thread_ready_list, 16) \<in> set objects" by (simp add: objects_def)
  then have "general_tag main_task \<notin> foot (thread_ready_list s) []"
    using linked_main [OF l, of Thread_ready_list 16] foot_region [of "thread_ready_list s"] tags_in_page(1) [of main_task] by auto
  then show ?thesis using assms(2-5) by (simp add: sched_inv_def spaces_def main_struct_def)
qed

lemma fresh_lock_free:
  assumes "fresh_lock (addr_of s L) s" and "running_thread s = main_task"
  shows "L = Pid_lock \<Longrightarrow> pid_free s" and "L = Console_lock \<Longrightarrow> console_free main_task s"
  using assms fresh_lock_empty [OF assms(1)] by (simp_all add: pid_free_def console_free_def fresh_lock_def)

lemma fresh_queue:
  assumes "sched_inv s {main_task} (\<lambda>_. 0x100000) []" and "get_intr_status s = INTR_OFF"
    and "ioq_head s q = 0" "ioq_tail s q = 0" "ioq_producer s q = NULL" "ioq_consumer s q = NULL"
  shows "ioq_inv q s" and "ioq_list q s = []"
proof -
  have "ioq_ready q {main_task} (\<lambda>_. 0x100000) [] s" using assms by (simp add: ioq_ready_def ioq_wf_def sleeper_def)
  then show "ioq_inv q s" unfolding ioq_inv_def by blast
  show "ioq_list q s = []" using assms(3,4) by (simp add: ioq_list_def ioq_count_def)
qed

section \<open>Property\<close>

lemma init_all_ok:
  fixes s :: "'e device_scheme"
  assumes b: "booted D n s" and q: "q = addr_of s Keyboard_buf"
  shows "\<exists>t. init_all entries s = Ok () t \<and> heap_inv D no_chunks no_blocks t \<and>
    sched_inv t {main_task} (\<lambda>_. 0x100000) [] \<and> tasks t main_task = main_struct (next_pid s + 1) \<and>
    dll t (thread_all_list s) [all_list_tag main_task] \<and> pid_free t \<and> console_free main_task t \<and>
    ioq_inv q t \<and> ioq_list q t = [] \<and>
    handlers t 0x20 = addr_of s Intr_timer_handler \<and> handlers t 0x21 = addr_of s Intr_keyboard_handler \<and>
    gate_target (idt t 0x20) = entries 0x20 \<and> gate_target (idt t 0x21) = entries 0x21 \<and>
    gate_target (idt t 0x80) = addr_of s Syscall_handler \<and>
    (\<forall>k. syscall_table t (nr k) = addr_of s (case k of SYS_GETPID \<Rightarrow> Sys_getpid | SYS_WRITE \<Rightarrow> Sys_write
        | SYS_MALLOC \<Rightarrow> Sys_malloc | SYS_FREE \<Rightarrow> Sys_free)) \<and> get_intr_status t = INTR_OFF"
proof -
  let ?s = "put_str (ln ''init all start'') s"
  obtain e where e: "e = init_timer (init_intr entries (addr_of ?s Syscall_handler) (addr_of ?s General_intr_handler)
      (addr_of ?s Idt_obj) ?s)" by simp
  note E = early_init [OF e]
  have as: "addr_of ?s = addr_of s" by (simp add: put_str_def)
  have be: "booted D n e" by (rule booted_keep [OF b E(1,4)])
  have ae: "addr_of e = addr_of s" by (rule touchesD(1) [OF E(1)])
  obtain c where c: "bind (mem_init e) (\<lambda>_ s. thread_init s) = Ok () c" "fresh_heap D c" "addr_of c = addr_of e"
      "running_thread c = main_task" "cr3 c = 0x100000" "get_intr_status c = INTR_OFF" "tasks c main_task = main_struct (next_pid e + 1)"
      "fresh_lock (addr_of e Pid_lock) c" "dll c (thread_ready_list e) []" "dll c (thread_all_list e) [all_list_tag main_task]"
      "main_thread c = main_task" "handlers c = handlers e" "idt c = idt e"
    using boot_threads [OF be] by (elim exE conjE) (rule that)
  note ac = c(3) [unfolded ae]
  have lc: "linked (addr_of c)" "addr_of c Tss_obj \<noteq> NULL" using bootedD(1,2) [OF b] ac by simp_all
  obtain k where k: "tss_init (keyboard_init (console_init c)) = Ok () k"
      "devices_ready c (put_str (ln ''init all done'') (syscall_init k))"
    using late_init [OF lc, of "ln ''init all done''"] by (elim exE conjE) (rule that)
  obtain u where u: "u = put_str (ln ''init all done'') (syscall_init k)" by simp
  note K = k(2) [folded u, unfolded devices_ready_def ac Let_def]
  note T = K [THEN conjunct1]
  let ?X = "region (addr_of s Console_lock) 28 \<union> region (addr_of s Keyboard_buf) 108"
  note D = touchesD [OF T]
  have au: "addr_of u = addr_of s" using D(1) ac by simp
  have "init_all entries s = Ok () u"
  proof -
    obtain m where "mem_init e = Ok () m" "thread_init m = Ok () c" using c(1) by (auto simp: bind_eq_Ok)
    then show ?thesis using k(1) unfolding init_all_def Let_def e [symmetric] by (simp add: u)
  qed
  moreover have "heap_inv D no_chunks no_blocks u"
  proof (rule fresh_heap_inv)
    show "fresh_heap D u"
      by (rule fresh_heap_apart [OF c(2) T lc(1)]) (use K ac in \<open>auto simp: objects_def\<close>)
    show "linked (addr_of u)" using lc(1) ac au by simp
    show "running_thread u = main_task" using c(4) D(10) by simp
    show "pgdir (tasks u main_task) = NULL" using K c(7) by (simp add: main_struct_def)
  qed
  moreover have tk: "tasks u main_task = main_struct (next_pid s + 1)" using K c(7) E(3) by simp
  moreover have r: "running_thread u = main_task" using c(4) D(10) by simp
  have ob: "(Thread_ready_list, 16) \<in> set objects" "(Thread_all_list, 16) \<in> set objects" "(Pid_lock, 28) \<in> set objects"
    "(Console_lock, 28) \<in> set objects" "(Keyboard_buf, 108) \<in> set objects" by (simp_all add: objects_def)
  note ls = bootedD(1) [OF b]
  have out: "region (addr_of s x) m \<inter> ?X = {}" if "(x, m) \<in> set objects" "x \<noteq> Console_lock" "x \<noteq> Keyboard_buf" for x m
    using linked_apart [OF ls that(1) ob(4) that(2)] linked_apart [OF ls that(1) ob(5) that(3)] by blast
  have dR: "dll u (thread_ready_list s) []"
    using touches_dll [OF T, of "thread_ready_list s" "[]"] foot_region [of "thread_ready_list s"] out [OF ob(1)] c(9) ae by auto
  moreover have "dll u (thread_all_list s) [all_list_tag main_task]"
  proof -
    have "foot (thread_all_list s) [all_list_tag main_task] \<subseteq> region (thread_all_list s) 16 \<union> region main_task 240"
      using foot_region [of "thread_all_list s"] tags_in_page(2) [of main_task] by (auto simp: foot_simps)
    then have "foot (thread_all_list s) [all_list_tag main_task] \<inter> ?X = {}"
      using out [OF ob(2)] linked_main [OF ls ob(4)] linked_main [OF ls ob(5)] by blast
    then show ?thesis using touches_dll [OF T] c(10) ae by simp
  qed
  moreover have sched: "sched_inv u {main_task} (\<lambda>_. 0x100000) []"
    using dR r tk c(5) D(4) au ls by (intro fresh_sched) simp_all
  moreover have "pid_free u"
    using fresh_lock_keep [OF c(8) T] out [OF ob(3)] ae au r by (intro fresh_lock_free(1)) simp_all
  moreover have "console_free main_task u" using K au r by (intro fresh_lock_free(2)) simp_all
  moreover have off: "get_intr_status u = INTR_OFF" using c(6) D(5) by (simp add: get_intr_status_def)
  moreover have "ioq_inv q u" "ioq_list q u = []" using K q by (intro fresh_queue [OF sched off]; simp)+
  moreover have "handlers u 0x20 = addr_of s Intr_timer_handler" "handlers u 0x21 = addr_of s Intr_keyboard_handler"
    "gate_target (idt u 0x20) = entries 0x20" "gate_target (idt u 0x21) = entries 0x21" "gate_target (idt u 0x80) = addr_of s Syscall_handler"
    using K c(12,13) E(6-8) as by simp_all
  moreover have "\<forall>k. syscall_table u (nr k) = addr_of s (case k of SYS_GETPID \<Rightarrow> Sys_getpid | SYS_WRITE \<Rightarrow> Sys_write
        | SYS_MALLOC \<Rightarrow> Sys_malloc | SYS_FREE \<Rightarrow> Sys_free)" using K by blast
  ultimately show ?thesis by blast
qed

text \<open>C8: The kernel is set up. From a state as the boot code leaves it, \<open>init_all\<close> returns: the heap is empty and in order,
  the calling thread is the only thread, running, with its number and a full time slice, in the list of all threads, the locks of
  the thread numbers and of the console are free, the keyboard buffer is an empty queue, the clock, the keyboard and the system
  calls have their handlers and entries, and interrupts are still off.\<close>
theorem init_all_establishes:
  fixes s :: "'e device_scheme"
  assumes "booted D n s"
  shows "\<exists>t. init_all entries s = Ok () t \<and> heap_inv D no_chunks no_blocks t \<and>
    sched_inv t {main_task} (\<lambda>_. 0x100000) [] \<and> tasks t main_task = main_struct (next_pid s + 1) \<and>
    dll t (thread_all_list s) [all_list_tag main_task] \<and> pid_free t \<and> console_free main_task t \<and>
    ioq_inv (addr_of s Keyboard_buf) t \<and> ioq_list (addr_of s Keyboard_buf) t = [] \<and>
    handlers t 0x20 = addr_of s Intr_timer_handler \<and> handlers t 0x21 = addr_of s Intr_keyboard_handler \<and>
    gate_target (idt t 0x20) = entries 0x20 \<and> gate_target (idt t 0x21) = entries 0x21 \<and>
    gate_target (idt t 0x80) = addr_of s Syscall_handler \<and>
    (\<forall>k. syscall_table t (nr k) = addr_of s (case k of SYS_GETPID \<Rightarrow> Sys_getpid | SYS_WRITE \<Rightarrow> Sys_write
        | SYS_MALLOC \<Rightarrow> Sys_malloc | SYS_FREE \<Rightarrow> Sys_free)) \<and> get_intr_status t = INTR_OFF"
  by (rule init_all_ok [OF assms refl])

text \<open>A machine with 2 MB and 16 pages, as the boot code leaves it: one page table, for the first megabyte and the kernel.\<close>

definition demo_start :: device where
  "demo_start = demo_device\<lparr>
     phys := (\<lambda>_. 0)(0x100000 := 0x101007, 0x100c00 := 0x101007, 0x100ffc := 0x100007, 0x101000 := 7, 0xb00 := 0x210000),
     mem := (\<lambda>_. 0)(0xc0004000 := 0x6d, 0xc0004001 := 0x61, 0xc0004002 := 0x69, 0xc0004003 := 0x6e)\<rparr>"

lemma demo_start_booted: "booted {768} 0x210000 demo_start"
proof -
  have f: "addr_of demo_start = demo_addr" "esp demo_start = 0xc009eff0" "cr3 demo_start = 0x100000" "get_intr_status demo_start = INTR_OFF"
    "phys demo_start = (\<lambda>_. 0)(0x100000 := 0x101007, 0x100c00 := 0x101007, 0x100ffc := 0x100007, 0x101000 := 7, 0xb00 := 0x210000)"
    "mem demo_start = (\<lambda>_. 0)(0xc0004000 := 0x6d, 0xc0004001 := 0x61, 0xc0004002 := 0x69, 0xc0004003 := 0x6e)"
    using demo_device_kernel by (simp_all add: demo_start_def get_intr_status_def)
  have "linked demo_addr" by (simp add: linked_def objects_def)
  moreover have "translate demo_start 0xb00 = Some 0xb00"
    by (simp add: translate_def pde_of_def pte_slot_def f page_of_def PDE_IDX_def PTE_IDX_def)
  moreover have "ptabs demo_start {768}"
    by (simp add: ptabs_def self_mapped_def dir_entry_def f page_of_def page_aligned_def)
  moreover have "\<forall>i<8. PDE_IDX (0xc0100000 + of_nat i * 4096) \<in> {768} \<and> translate demo_start (0xc0100000 + of_nat i * 4096) = None"
    unfolding less8 by (simp add: translate_def pde_of_def pte_slot_def f page_of_def PDE_IDX_def PTE_IDX_def)
  moreover have "main_name 0xc0004000 (mem demo_start)" by (simp add: main_name_def f)
  ultimately show ?thesis
    by (simp add: booted_def f running_thread_def dir_entry_def page_of_def)
qed

theorem init_all_establishes_witness:
  "\<exists>t. init_all (\<lambda>i. of_nat i) demo_start = Ok () t \<and> heap_inv {768} no_chunks no_blocks t \<and>
     sched_inv t {main_task} (\<lambda>_. 0x100000) [] \<and> ioq_list 0xc0003200 t = [] \<and> handlers t 0x20 = 0xc0001c00 \<and>
     syscall_table t 3 = 0xc0001ec0"
proof -
  have a: "addr_of demo_start = demo_addr" using demo_device_kernel by (simp add: demo_start_def)
  obtain t where t: "init_all (\<lambda>i. of_nat i) demo_start = Ok () t" "heap_inv {768} no_chunks no_blocks t"
      "sched_inv t {main_task} (\<lambda>_. 0x100000) []" "ioq_list (addr_of demo_start Keyboard_buf) t = []"
      "handlers t 0x20 = addr_of demo_start Intr_timer_handler"
      "\<forall>k. syscall_table t (nr k) = addr_of demo_start (case k of SYS_GETPID \<Rightarrow> Sys_getpid | SYS_WRITE \<Rightarrow> Sys_write
        | SYS_MALLOC \<Rightarrow> Sys_malloc | SYS_FREE \<Rightarrow> Sys_free)"
    using init_all_establishes [OF demo_start_booted, of "\<lambda>i. of_nat i"] by (elim exE conjE) (rule that)
  have "syscall_table t 3 = 0xc0001ec0" using t(6) [THEN spec, of SYS_FREE] a by simp
  then show ?thesis using t a by auto
qed

end
