(* ===== verification/Boot.thy ===== *)
theory Boot
  imports Startup
begin

text \<open>
  What the kernel relies on of the loader (\<open>boot/loader.S\<close>).

  \<open>setup_page\<close> is the routine of that name on the physical memory: it clears the page directory at
  1 MB, enters the first page table for the first megabyte and for the first megabyte of the
  kernel's addresses, makes the last entry the directory's own, fills the first page table and
  enters the 254 tables of the rest of the kernel. \<open>find_max_mem_area\<close> is the loop over the memory
  map of the firmware that finds the size of the memory.

  The lemmas describe the memory after \<open>setup_page\<close> word by word. \<open>setup_page_boots\<close> is the link to
  the theory \<open>Startup\<close>: the page tables of the loader are those of a state \<open>booted\<close>, from which
  \<open>init_all\<close> runs, if the page tables the loader enters were clear, since the loader itself clears
  the directory only. \<open>find_max_mem_area_max\<close> says that the size is the largest end of an area
  below 2 GB, and \<open>find_max_mem_area_above_2GB\<close> that an area that ends at 2 GB or above is passed over.

  The master boot record, the disk and the copying of the kernel's segments are not modelled.
\<close>

section \<open>The page tables of the loader\<close>

text \<open>The loops that fill a table: \<open>ecx\<close> entries from index \<open>esi\<close> of the table at \<open>ebx\<close>, for frame after frame.\<close>

fun store_entries :: "u32 \<Rightarrow> nat \<Rightarrow> u32 \<Rightarrow> u32 \<Rightarrow> (u32 \<Rightarrow> u32) \<Rightarrow> u32 \<Rightarrow> u32" where
  "store_entries ebx 0 esi e m = m"
| "store_entries ebx (Suc ecx) esi e m = store_entries ebx ecx (esi + 1) (e + 0x1000) (m(ebx + esi * 4 := e))"

definition PAGE_DIR_TABLE_POS :: u32 where "PAGE_DIR_TABLE_POS = 0x100000"

definition setup_page :: "(u32 \<Rightarrow> u32) \<Rightarrow> u32 \<Rightarrow> u32" where
  "setup_page m =
     (let m = (\<lambda>a. if in_range PAGE_DIR_TABLE_POS 4096 a then 0 else m a);
          eax = PAGE_DIR_TABLE_POS + 0x1000;
          ebx = eax;
          eax = eax OR 7;
          m = m(PAGE_DIR_TABLE_POS := eax);
          m = m(PAGE_DIR_TABLE_POS + 0xc00 := eax);
          eax = eax - 0x1000;
          m = m(PAGE_DIR_TABLE_POS + 4092 := eax);
          m = store_entries ebx 256 0 7 m;
          eax = (PAGE_DIR_TABLE_POS + 0x2000) OR 7
      in store_entries PAGE_DIR_TABLE_POS 254 769 eax m)"

section \<open>The size of the memory\<close>

text \<open>The two fields the loader reads of an area of the firmware's memory map; \<open>jge\<close> compares signed numbers.\<close>

record ards =
  base_add_low :: u32
  length_low :: u32

fun find_max_mem_area :: "u32 \<Rightarrow> ards list \<Rightarrow> u32" where
  "find_max_mem_area edx [] = edx"
| "find_max_mem_area edx (r # rs) =
     (let eax = base_add_low r + length_low r in find_max_mem_area (if sint eax \<le> sint edx then edx else eax) rs)"

section \<open>Lemmas\<close>

lemma word_offset: "k < 2 ^ 32 \<Longrightarrow> (a :: u32) = b + of_nat k \<longleftrightarrow> unat (a - b) = k"
proof -
  assume k: "k < 2 ^ 32"
  have "a = b + of_nat k \<longleftrightarrow> a - b = of_nat k" by (auto simp: algebra_simps)
  also have "\<dots> \<longleftrightarrow> unat (a - b) = k" using unat_of_nat_below [of k, where ?'a = 32] k by auto
  finally show ?thesis .
qed

lemma store_entries_eq:
  assumes "i + n \<le> 1024" and k: "k = unat (a - b)"
  shows "store_entries b n (of_nat i) e m a =
    (if k mod 4 = 0 \<and> i \<le> k div 4 \<and> k div 4 < i + n then e + of_nat (k div 4 - i) * 0x1000 else m a)"
  using assms(1)
proof (induction n arbitrary: i e m)
  case (Suc n)
  have nx: "(of_nat i :: u32) + 1 = of_nat (Suc i)" by simp
  have w: "a = b + of_nat i * 4 \<longleftrightarrow> k = 4 * i" using word_offset [of "4 * i" a b] Suc.prems k by (simp add: mult.commute)
  have "store_entries b (Suc n) (of_nat i) e m a = store_entries b n (of_nat (Suc i)) (e + 0x1000) (m(b + of_nat i * 4 := e)) a"
    unfolding store_entries.simps nx ..
  also have "\<dots> = (if k mod 4 = 0 \<and> Suc i \<le> k div 4 \<and> k div 4 < Suc i + n then e + 0x1000 + of_nat (k div 4 - Suc i) * 0x1000
      else (m(b + of_nat i * 4 := e)) a)"
    using Suc.prems by (intro Suc.IH) simp
  also have "\<dots> = (if k mod 4 = 0 \<and> i \<le> k div 4 \<and> k div 4 < i + Suc n then e + of_nat (k div 4 - i) * 0x1000 else m a)"
  proof (cases "k = 4 * i")
    case True
    then show ?thesis using w by simp
  next
    case False
    have "Suc i \<le> k div 4 \<Longrightarrow> (of_nat (k div 4 - i) :: u32) = of_nat (k div 4 - Suc i) + 1"
      by (metis Suc_diff_Suc Suc_le_lessD of_nat_Suc add.commute)
    moreover have "k mod 4 = 0 \<Longrightarrow> i \<le> k div 4 \<longleftrightarrow> Suc i \<le> k div 4" using False by presburger
    ultimately show ?thesis using False w by (auto simp: algebra_simps)
  qed
  finally show ?case .
qed auto


lemma setup_page_eq:
  assumes k: "k = unat (a - 0x100000)" and j: "j = unat (a - 0x101000)"
  shows "setup_page m a =
    (if k mod 4 = 0 \<and> 769 \<le> k div 4 \<and> k div 4 < 1023 then 0x102007 + of_nat (k div 4 - 769) * 0x1000
     else if j mod 4 = 0 \<and> j div 4 < 256 then 7 + of_nat (j div 4) * 0x1000
     else if a = 0x100ffc then 0x100007 else if a = 0x100c00 then 0x101007 else if a = 0x100000 then 0x101007
     else if k < 4096 then 0 else m a)"
  using store_entries_eq [of 769 254 k a "0x100000", OF _ k] store_entries_eq [of 0 256 j a "0x101000", OF _ j]
  by (simp add: setup_page_def Let_def PAGE_DIR_TABLE_POS_def in_range_def k)

lemma entry_offset:
  fixes d :: u32
  assumes "unat d < 1024"
  shows "unat (0x100000 + d * 4 - 0x100000) = 4 * unat d" "unat (0x100000 + d * 4) = 0x100000 + 4 * unat d"
  using assms by (simp_all add: unat_add_below unat_mult_below mult.commute)

lemma setup_page_dir:
  fixes d :: u32
  assumes d: "768 \<le> unat d" "unat d < 1024"
  shows "setup_page m (0x100000 + d * 4) =
    (if unat d = 768 then 0x101007 else if unat d = 1023 then 0x100007 else 0x102007 + of_nat (unat d - 769) * 0x1000)"
proof -
  obtain a where a: "a = 0x100000 + d * 4" by simp
  note o = entry_offset [OF d(2), folded a]
  have l: "unat a < 0x101000" using o(2) d(2) by simp
  then have "unat (a - 0x101000) = unat a + 2 ^ 32 - 0x101000"
    by (simp add: unat_sub_if_size word_size word_le_nat_alt)
  then have j: "256 \<le> unat (a - 0x101000) div 4" unfolding o(2) using d by simp
  have e: "a = 0x100ffc \<longleftrightarrow> unat d = 1023" "a = 0x100c00 \<longleftrightarrow> unat d = 768" "a \<noteq> 0x100000"
    unfolding word_unat_eq_iff o(2) using d by simp_all
  show ?thesis unfolding a [symmetric] setup_page_eq [OF refl refl] o(1) using e d j by simp
qed

lemma setup_page_table:
  assumes "unat a < 0x100000 \<or> 0x101400 \<le> unat a"
  shows "setup_page m a = m a"
proof -
  have "4096 \<le> unat (a - 0x100000)" "1024 \<le> unat (a - 0x101000)"
    using assms u32_bound [of a] by (auto simp: unat_sub_if_size word_size word_le_nat_alt)
  moreover have "a \<noteq> 0x100ffc" "a \<noteq> 0x100c00" "a \<noteq> 0x100000" using assms by auto
  ultimately show ?thesis unfolding setup_page_eq [OF refl refl] by auto
qed

lemma setup_page_low: "setup_page m 0x100000 = 0x101007" "setup_page m 0x101000 = 7"
  by (simp_all add: setup_page_eq [OF refl refl])

lemma setup_page_entry:
  fixes d :: u32
  assumes d: "768 \<le> unat d" "unat d \<le> 1022"
  shows "unat (setup_page m (0x100000 + d * 4)) = (unat d - 511) * 4096 + 7"
proof -
  have "(0x102007 :: u32) + of_nat (unat d - 769) * 0x1000 = of_nat ((unat d - 511) * 4096 + 7)" if "769 \<le> unat d"
  proof -
    have "(unat d - 511) * 4096 + 7 = 0x102007 + (unat d - 769) * 4096" using that by simp
    then show ?thesis by (simp only: of_nat_add of_nat_mult) simp
  qed
  moreover have "setup_page m (0x100000 + d * 4) = (if unat d = 768 then 0x101007 else 0x102007 + of_nat (unat d - 769) * 0x1000)"
    using d by (simp add: setup_page_dir)
  moreover have "unat (of_nat ((unat d - 511) * 4096 + 7) :: u32) = (unat d - 511) * 4096 + 7"
    by (rule unat_of_nat_below) (use d in simp)
  ultimately show ?thesis using d by (cases "unat d = 768") simp_all
qed

lemma present_odd: "w AND 1 \<noteq> 0 \<longleftrightarrow> odd (unat w)" for w :: u32
proof -
  have "unat (w AND mask 1) = unat w mod 2" by (simp only: unat_and_mask) simp
  then show ?thesis by (simp add: word_unat_eq_iff odd_iff_mod_2_eq_one)
qed

lemma table_offset:
  fixes d t :: nat
  assumes "768 \<le> d" "d \<le> 1022" "t < 1024" "d = 768 \<longrightarrow> 256 \<le> t"
  shows "0x101400 \<le> (d - 511) * 4096 + t * 4" "(d - 511) * 4096 + t * 4 < 0x200000"
  using assms by (cases "d = 768"; simp)+

lemma setup_page_unmapped:
  assumes m: "\<forall>a. 0x101400 \<le> unat a \<and> unat a < 0x200000 \<longrightarrow> m a = 0"
    and s: "phys s = setup_page m" "cr3 s = 0x100000"
    and v: "0xc0100000 \<le> unat v" "unat v < 0xffc00000"
  shows "translate s v = None"
proof -
  let ?d = "unat v div 2 ^ 22" and ?t = "unat v div 4096 mod 1024"
  have d: "768 \<le> ?d" "?d \<le> 1022" using v by simp_all
  have t: "256 \<le> ?t" if "?d = 768"
  proof -
    have "unat v div 4096 div 1024 = 768" "0xc0100 \<le> unat v div 4096" using that v by (simp_all add: div_mult2_eq [symmetric])
    then show ?thesis using div_mult_mod_eq [of "unat v div 4096" 1024] by simp
  qed
  have "unat (pde_of s v) = (?d - 511) * 4096 + 7"
    using setup_page_entry [of "PDE_IDX v" m] d by (simp add: unat_PDE_IDX pde_of_def s)
  then have p: "unat (page_of (pde_of s v)) = (?d - 511) * 4096" by (simp add: unat_page_of)
  have "unat (pte_slot s v) = (?d - 511) * 4096 + ?t * 4"
    using d unfolding pte_slot_def by (subst unat_add_below) (simp_all add: p unat_idx4 unat_PTE_IDX)
  then have "0x101400 \<le> unat (pte_slot s v)" "unat (pte_slot s v) < 0x200000"
    using d t table_offset [of ?d ?t] by simp_all
  then have "phys s (pte_slot s v) = 0" using m by (simp add: s setup_page_table)
  then show ?thesis by (simp add: translate_def)
qed

lemma setup_page_ptabs:
  assumes s: "phys s = setup_page m" "cr3 s = 0x100000"
  shows "ptabs s {d. 768 \<le> unat d \<and> unat d \<le> 1022}"
    and "\<forall>d\<in>{d. 768 \<le> unat d \<and> unat d \<le> 1022}. unat (page_of (dir_entry s d)) < 0x200000"
proof -
  let ?D = "{d :: u32. 768 \<le> unat d \<and> unat d \<le> 1022}"
  have e: "unat (dir_entry s d) = (unat d - 511) * 4096 + 7" if "d \<in> ?D" for d
    using setup_page_entry [of d m] that by (simp add: dir_entry_def s)
  then have p: "unat (page_of (dir_entry s d)) = (unat d - 511) * 4096" if "d \<in> ?D" for d
    using that by (simp add: unat_page_of)
  have "setup_page m 0x100ffc = 0x100007" using setup_page_dir [of "1023" m] by simp
  then have "self_mapped s" by (simp add: self_mapped_def s page_aligned_def page_of_def)
  moreover have "present (dir_entry s d) \<and> page_of (dir_entry s d) \<noteq> cr3 s" if "d \<in> ?D" for d
  proof
    show "present (dir_entry s d)" unfolding present_odd e [OF that] by simp
    show "page_of (dir_entry s d) \<noteq> cr3 s" unfolding word_unat_eq_iff p [OF that] s using that by auto
  qed
  moreover have "inj_on (\<lambda>d. page_of (dir_entry s d)) ?D"
  proof (rule inj_onI)
    fix a b assume ab: "a \<in> ?D" "b \<in> ?D" and "page_of (dir_entry s a) = page_of (dir_entry s b)"
    then have "(unat a - 511) * 4096 = (unat b - 511) * 4096" unfolding p [OF ab(1), symmetric] p [OF ab(2), symmetric] by simp
    then have "unat a - 511 = unat b - 511" by simp
    then have "unat a = unat b" using ab unfolding mem_Collect_eq by linarith
    then show "a = b" by (simp add: word_unat_eq_iff)
  qed
  ultimately show "ptabs s ?D" unfolding ptabs_def by auto
  show "\<forall>d\<in>?D. unat (page_of (dir_entry s d)) < 0x200000" using p by auto
qed

lemma setup_page_low_memory:
  assumes s: "phys s = setup_page m" "cr3 s = 0x100000" and v: "unat v < 0x1000"
  shows "translate s v = Some v"
proof -
  have "PDE_IDX v = 0" "PTE_IDX v = 0" using v by (simp_all add: word_unat_eq_iff unat_PDE_IDX unat_PTE_IDX)
  moreover have "v AND 0xfff = v" using v by (simp add: word_unat_eq_iff low12)
  ultimately show ?thesis by (simp add: translate_def pde_of_def pte_slot_def s setup_page_low page_of_def)
qed

text \<open>C9: The loader's page tables are what the kernel starts from. If the words behind the entries of the first
  megabyte, up to the end of the tables, were clear, then a machine with the page tables of \<open>setup_page\<close>, the memory size at
  0xb00, the kernel's objects in place, interrupts off and the stack of the loader is \<open>booted\<close>: the directory maps itself, the
  255 tables of the kernel are present, different and below 2 MB, the size can be read, and no page of the kernel's heap is
  mapped yet.\<close>
theorem setup_page_boots:
  fixes s :: "'e kernel_scheme"
  assumes "phys s = setup_page m" and "cr3 s = PAGE_DIR_TABLE_POS" and "m 0xb00 = n"
    and z: "\<forall>a. 0x101400 \<le> unat a \<and> unat a < 0x200000 \<longrightarrow> m a = 0"
    and n: "0x200000 \<le> unat n" "unat n \<le> 0x15600000"
    and "linked (addr_of s)" and "addr_of s Tss_obj \<noteq> NULL" and "main_name (addr_of s (Literal ''main'')) (mem s)"
    and "running_thread s = 0xc009e000" and "get_intr_status s = INTR_OFF"
  shows "booted {d. 768 \<le> unat d \<and> unat d \<le> 1022} n s"
proof -
  have s: "phys s = setup_page m" "cr3 s = 0x100000" using assms(1,2) by (simp_all add: PAGE_DIR_TABLE_POS_def)
  have "translate s 0xb00 = Some 0xb00" "phys s 0xb00 = n"
    using setup_page_low_memory [OF s, of "0xb00"] setup_page_table [of "0xb00" m] assms(3) s by simp_all
  moreover have "PDE_IDX (0xc0100000 + of_nat i * 4096) \<in> {d. 768 \<le> unat d \<and> unat d \<le> 1022} \<and>
      translate s (0xc0100000 + of_nat i * 4096) = None" if i: "i < (unat n - 0x200000) div 4096 div 2 div 8 * 8" for i
  proof -
    obtain v :: u32 where v: "v = 0xc0100000 + of_nat i * 4096" by simp
    have "i < 43520" using i n by linarith
    then have "unat v = 0xc0100000 + i * 4096"
      unfolding v by (simp add: unat_add_below unat_mult_below unat_of_nat_below)
    then have "0xc0100000 \<le> unat v" "unat v < 0xffc00000" using \<open>i < 43520\<close> by simp_all
    then have "translate s v = None" "768 \<le> unat v div 2 ^ 22" "unat v div 2 ^ 22 \<le> 1022"
      using setup_page_unmapped [OF z s, of v] by simp_all
    then show ?thesis unfolding v [symmetric] by (simp only: mem_Collect_eq unat_PDE_IDX)
  qed
  ultimately show ?thesis
    unfolding booted_def using setup_page_ptabs [OF s] s(2) assms(5-) by simp
qed

definition demo_loaded :: device where
  "demo_loaded = demo_start\<lparr>phys := setup_page ((\<lambda>_. 0)(0xb00 := 0x210000))\<rparr>"

theorem setup_page_boots_witness:
  "setup_page ((\<lambda>_. 0)(0xb00 := 0x210000)) 0x100c04 = 0x102007 \<and>
   booted {d. 768 \<le> unat d \<and> unat d \<le> 1022} 0x210000 demo_loaded"
proof -
  have f: "addr_of demo_loaded = demo_addr" "esp demo_loaded = 0xc009eff0" "cr3 demo_loaded = 0x100000" "get_intr_status demo_loaded = INTR_OFF"
    "phys demo_loaded = setup_page ((\<lambda>_. 0)(0xb00 := 0x210000))"
    "mem demo_loaded = (\<lambda>_. 0)(0xc0004000 := 0x6d, 0xc0004001 := 0x61, 0xc0004002 := 0x69, 0xc0004003 := 0x6e)"
    using demo_device_kernel by (simp_all add: demo_loaded_def demo_start_def get_intr_status_def)
  have "linked demo_addr" by (simp add: linked_def objects_def)
  moreover have "main_name 0xc0004000 (mem demo_loaded)" by (simp add: main_name_def f)
  moreover have "running_thread demo_loaded = 0xc009e000" by (simp add: running_thread_def f)
  ultimately have "booted {d. 768 \<le> unat d \<and> unat d \<le> 1022} 0x210000 demo_loaded"
    by (intro setup_page_boots [OF f(5)]) (auto simp: f PAGE_DIR_TABLE_POS_def)
  moreover have "setup_page ((\<lambda>_. 0)(0xb00 := 0x210000)) 0x100c04 = 0x102007"
    using setup_page_dir [of 769] by simp
  ultimately show ?thesis by blast
qed

section \<open>Properties of the memory size\<close>

lemma sint_small: "unat x < 2 ^ 31 \<Longrightarrow> sint x = int (unat x)" for x :: u32
proof -
  assume "unat x < 2 ^ 31"
  moreover have "n < 2 ^ 31 \<Longrightarrow> signed_take_bit 31 (int n) = int n" for n by (intro signed_take_bit_int_eq_self) simp_all
  ultimately have "signed_take_bit 31 (int (unat x)) = int (unat x)" by blast
  moreover have "sint x = signed_take_bit 31 (uint x)" by (simp add: sint_uint)
  moreover have "uint x = int (unat x)" by (rule uint_nat)
  ultimately show "sint x = int (unat x)" by (simp only:)
qed

text \<open>Where every area ends below 2 GB, the size found is the largest end.\<close>

theorem find_max_mem_area_max:
  assumes "\<forall>r \<in> set rs. unat (base_add_low r) + unat (length_low r) < 2 ^ 31" and "unat e < 2 ^ 31"
  shows "unat (find_max_mem_area e rs) = Max (insert (unat e) ((\<lambda>r. unat (base_add_low r) + unat (length_low r)) ` set rs))"
  using assms
proof (induction rs arbitrary: e)
  case (Cons r rs)
  let ?x = "base_add_low r + length_low r" and ?f = "\<lambda>r. unat (base_add_low r) + unat (length_low r)"
  have x: "unat ?x = ?f r" using Cons.prems(1) by (intro unat_add_below) simp
  then have small: "unat ?x < 2 ^ 31" using Cons.prems(1) by simp
  have l: "sint ?x \<le> sint e \<longleftrightarrow> ?f r \<le> unat e" 
    unfolding sint_small [OF small] sint_small [OF Cons.prems(2)] x by linarith
  let ?e = "if sint ?x \<le> sint e then e else ?x"
  have e: "unat ?e = max (unat e) (?f r)" using l x by auto
  have "unat (find_max_mem_area ?e rs) = Max (insert (unat ?e) (?f ` set rs))"
    by (rule Cons.IH) (use Cons.prems x in \<open>auto\<close>)
  also have "\<dots> = Max (insert (unat e) (?f ` set (r # rs)))" unfolding e by (cases "set rs = {}") (simp_all add: max.assoc)
  finally show ?case by (simp add: Let_def)
qed simp

text \<open>An area that ends at 2 GB counts as negative: on such a machine the size found is that of the low memory.\<close>

theorem find_max_mem_area_above_2GB:
  "find_max_mem_area 0 [\<lparr>base_add_low = 0, length_low = 0x9fc00\<rparr>, \<lparr>base_add_low = 0x100000, length_low = 0x7ff00000\<rparr>] = 0x9fc00"
  by simp

end
