(* ===== verification/Screen.thy ===== *)
theory Screen
  imports Machine
begin

text \<open>
  The screen routines of \<open>lib/kernel/print.S\<close> that the kernel's output calls: \<open>put_char\<close>, \<open>put_str\<close>, \<open>put_int\<close> and
  \<open>set_cursor\<close>. The other theories record the calls in the field \<open>screen\<close>; \<open>draw\<close> carries such a record out on the video memory.

  The state is the two cursor registers of the controller (reached through the ports \<open>0x3d4\<close> and \<open>0x3d5\<close>) and the bytes of the
  segment \<open>SELECTOR_VIDEO\<close>, by their 16-bit offsets. A store behind the limit that \<open>boot/loader.S\<close> gives the segment
  raises an exception, which is \<open>None\<close>. The routine that scrolls addresses the same bytes by
  their linear addresses from \<open>0xc00b8000\<close> on. The names of the parts of \<open>put_char\<close> are its labels.
\<close>

unbundle bit_operations_syntax

section \<open>State\<close>

record video =
  crtc_high :: u8
  crtc_low :: u8
  vram :: "u16 \<Rightarrow> u8"

definition VIDEO_LIMIT :: u16 where "VIDEO_LIMIT = 0x7fff"

definition store_byte :: "u16 \<Rightarrow> u8 \<Rightarrow> video \<Rightarrow> video option" where
  "store_byte off x v = (if off \<le> VIDEO_LIMIT then Some (v\<lparr>vram := (vram v)(off := x)\<rparr>) else None)"

definition store_cell :: "u16 \<Rightarrow> video \<Rightarrow> video option" where
  "store_cell off v =
     (if off < VIDEO_LIMIT then Some (v\<lparr>vram := (vram v)(off := 0x20, off + 1 := 0x07)\<rparr>) else None)"

section \<open>Routines\<close>

definition get_cursor :: "video \<Rightarrow> u16" where
  "get_cursor v = push_bit 8 (ucast (crtc_high v)) OR ucast (crtc_low v)"

definition move_cursor :: "u16 \<Rightarrow> video \<Rightarrow> video" where
  "move_cursor bx v = v\<lparr>crtc_high := ucast (drop_bit 8 bx), crtc_low := ucast bx\<rparr>"

fun rep_movsd :: "nat \<Rightarrow> u16 \<Rightarrow> u16 \<Rightarrow> (u16 \<Rightarrow> u8) \<Rightarrow> u16 \<Rightarrow> u8" where
  "rep_movsd 0 esi edi m = m"
| "rep_movsd (Suc ecx) esi edi m =
     rep_movsd ecx (esi + 4) (edi + 4)
       (m(edi := m esi, edi + 1 := m (esi + 1), edi + 2 := m (esi + 2), edi + 3 := m (esi + 3)))"

fun cls_loop :: "nat \<Rightarrow> u16 \<Rightarrow> video \<Rightarrow> video option" where
  "cls_loop 0 bx v = Some v"
| "cls_loop (Suc ecx) bx v = Option.bind (store_cell bx v) (cls_loop ecx (bx + 2))"

definition roll_screen :: "video \<Rightarrow> video option" where
  "roll_screen v =
     Option.bind (cls_loop 80 3840 (v\<lparr>vram := rep_movsd 960 0xa0 0 (vram v)\<rparr>)) (\<lambda>v. Some (move_cursor 1920 v))"

definition set_or_roll :: "u16 \<Rightarrow> video \<Rightarrow> video option" where
  "set_or_roll bx v = (if sint bx < 2000 then Some (move_cursor bx v) else roll_screen v)"

definition is_backspace :: "u16 \<Rightarrow> video \<Rightarrow> video option" where
  "is_backspace bx v =
     (let bx = push_bit 1 (bx - 1) in
      Option.bind (store_cell bx v) (\<lambda>v. Some (move_cursor (drop_bit 1 bx) v)))"

definition put_other :: "u8 \<Rightarrow> u16 \<Rightarrow> video \<Rightarrow> video option" where
  "put_other cl bx v =
     (let bx = push_bit 1 bx in
      Option.bind (store_byte bx cl v) (\<lambda>v.
      let bx = bx + 1 in
      Option.bind (store_byte bx 0x07 v) (\<lambda>v.
      set_or_roll (drop_bit 1 bx + 1) v)))"

definition is_line_feed :: "u16 \<Rightarrow> video \<Rightarrow> video option" where
  "is_line_feed bx v = set_or_roll (bx - bx mod 80 + 80) v"

definition video_put_char :: "u8 \<Rightarrow> video \<Rightarrow> video option" where
  "video_put_char cl v =
     (let bx = get_cursor v in
      if cl = 0x0d then is_line_feed bx v
      else if cl = 0x0a then is_line_feed bx v
      else if cl = 0x08 then is_backspace bx v
      else put_other cl bx v)"

fun put_each :: "u8 list \<Rightarrow> video \<Rightarrow> video option" where
  "put_each [] v = Some v"
| "put_each (c # cs) v = Option.bind (video_put_char c v) (put_each cs)"

fun video_put_str :: "string \<Rightarrow> video \<Rightarrow> video option" where
  "video_put_str [] v = Some v"
| "video_put_str (c # cs) v =
     (if of_char c = (0 :: u8) then Some v else Option.bind (video_put_char (of_char c) v) (video_put_str cs))"

fun hex_digits :: "nat \<Rightarrow> u32 \<Rightarrow> u8 list \<Rightarrow> u8 list" where
  "hex_digits 0 eax buf = buf"
| "hex_digits (Suc ecx) eax buf =
     (let edx = eax AND 0xf;
          dl = (if edx \<le> 9 then edx + 48 else edx - 10 + 65)
      in hex_digits ecx (drop_bit 4 eax) (ucast dl # buf))"

fun skip_prefix_0 :: "u8 list \<Rightarrow> u8 list" where
  "skip_prefix_0 [] = [48]"
| "skip_prefix_0 (cl # buf) = (if cl = 48 then skip_prefix_0 buf else cl # buf)"

definition video_put_int :: "u32 \<Rightarrow> video \<Rightarrow> video option" where
  "video_put_int n v = put_each (skip_prefix_0 (hex_digits 8 n [])) v"

definition video_set_cursor :: "u32 \<Rightarrow> video \<Rightarrow> video" where
  "video_set_cursor pos v = move_cursor (ucast pos) v"

text \<open>The calls the kernel has recorded, carried out in order.\<close>

fun draw_call :: "print_call \<Rightarrow> video \<Rightarrow> video option" where
  "draw_call (Put_char c) v = video_put_char c v"
| "draw_call (Put_str str) v = video_put_str str v"
| "draw_call (Put_int n) v = video_put_int n v"
| "draw_call (Set_cursor pos) v = Some (video_set_cursor pos v)"

fun draw :: "print_call list \<Rightarrow> video \<Rightarrow> video option" where
  "draw [] v = Some v"
| "draw (c # cs) v = Option.bind (draw_call c v) (draw cs)"

section \<open>A terminal\<close>

text \<open>The abstract view: a position and the characters of the 25 lines of 80 columns.\<close>

type_synonym terminal = "nat \<times> u8 list"

definition scroll :: "u8 list \<Rightarrow> terminal" where
  "scroll cs = (1920, drop 80 cs @ replicate 80 0x20)"

definition term_char :: "u8 \<Rightarrow> terminal \<Rightarrow> terminal option" where
  "term_char c t = (case t of (p, cs) \<Rightarrow>
     if c \<in> {0x0a, 0x0d}
     then Some (if p div 80 < 24 then ((p div 80 + 1) * 80, cs) else scroll cs)
     else if c = 0x08
     then if p = 0 then None else Some (p - 1, cs[p - 1 := 0x20])
     else Some (if p < 1999 then (p + 1, cs[p := c]) else scroll (cs[p := c])))"

fun term_chars :: "u8 list \<Rightarrow> terminal \<Rightarrow> terminal option" where
  "term_chars [] t = Some t"
| "term_chars (c # cs) t = Option.bind (term_char c t) (term_chars cs)"

text \<open>The characters of a call: a number is shown in capital hexadecimal digits without leading zeros.\<close>

definition hex_char :: "nat \<Rightarrow> u8" where
  "hex_char n = of_nat (if n < 10 then 48 + n else 55 + n)"

fun hex_text :: "nat \<Rightarrow> u8 list" where
  "hex_text n = (if n < 16 then [hex_char n] else hex_text (n div 16) @ [hex_char (n mod 16)])"

declare hex_text.simps [simp del]

fun term_call :: "print_call \<Rightarrow> terminal \<Rightarrow> terminal option" where
  "term_call (Put_char c) t = term_char c t"
| "term_call (Put_str str) t = term_chars (map of_char (takeWhile (\<lambda>c. c \<noteq> CHR 0x00) str)) t"
| "term_call (Put_int n) t = term_chars (hex_text (unat n)) t"
| "term_call (Set_cursor pos) t = Some (unat pos, snd t)"

fun term_run :: "print_call list \<Rightarrow> terminal \<Rightarrow> terminal option" where
  "term_run [] t = Some t"
| "term_run (c # cs) t = Option.bind (term_call c t) (term_run cs)"

fun cursor_ok :: "print_call \<Rightarrow> bool" where
  "cursor_ok (Set_cursor pos) \<longleftrightarrow> pos < 2000"
| "cursor_ok _ \<longleftrightarrow> True"

definition cells :: "video \<Rightarrow> u8 list" where
  "cells v = map (\<lambda>i. vram v (of_nat (2 * i))) [0..<2000]"

definition terminal_of :: "video \<Rightarrow> terminal" where
  "terminal_of v = (unat (get_cursor v), cells v)"

text \<open>A good step stays on the screen and writes nothing behind its 4000 bytes.\<close>

definition stays :: "video \<Rightarrow> video \<Rightarrow> bool" where
  "stays v v' \<longleftrightarrow> unat (get_cursor v') < 2000 \<and> (\<forall>k. 4000 \<le> k \<and> k < 2 ^ 16 \<longrightarrow> vram v' (of_nat k) = vram v (of_nat k))"

section \<open>Lemmas\<close>

lemma get_move_cursor [simp]: "get_cursor (move_cursor bx v) = bx" "vram (move_cursor bx v) = vram v"
proof -
  show "get_cursor (move_cursor bx v) = bx"
    by (rule bit_word_eqI) (auto simp: get_cursor_def move_cursor_def bit_simps)
qed (simp add: move_cursor_def)

lemma sint_below: "unat (x :: u16) < 2 ^ 15 \<Longrightarrow> sint x < 2000 \<longleftrightarrow> unat x < 2000"
proof -
  assume "unat x < 2 ^ 15"
  moreover have "n < 2 ^ 15 \<Longrightarrow> signed_take_bit 15 (int n) = int n" for n by (intro signed_take_bit_int_eq_self) simp_all
  ultimately have "signed_take_bit 15 (int (unat x)) = int (unat x)" by blast
  moreover have "sint x = signed_take_bit 15 (uint x)" by (simp add: sint_uint)
  moreover have "uint x = int (unat x)" by (rule uint_nat)
  ultimately have "sint x = int (unat x)" by (simp only:)
  then show ?thesis by linarith
qed

lemma unat_double: "unat (x :: u16) < 2 ^ 15 \<Longrightarrow> unat (push_bit 1 x) = 2 * unat x"
  using unat_mult_lem [of x 2] by (simp add: push_bit_eq_mult)

lemma unat_half: "unat (drop_bit 1 x) = unat x div 2" for x :: u16
  by (simp add: drop_bit_eq_div unat_div)

lemma unat_Suc16: "unat x < 65535 \<Longrightarrow> unat (x + 1) = unat x + 1" for x :: u16
  by (subst unat_add_below) simp_all

lemma word_at: "unat (x :: 'a::len word) = n \<Longrightarrow> x = of_nat n"
  by auto

lemma u16_eq: "a < 2 ^ 16 \<Longrightarrow> b < 2 ^ 16 \<Longrightarrow> (of_nat a :: u16) = of_nat b \<longleftrightarrow> a = b"
  using of_nat_eq_word_iff [of a b, where ?'a = 16] by simp

text \<open>The copy of the lines, and the blanks behind it.\<close>

lemma rep_movsd_eq:
  assumes "d < s" and "s + 4 * n \<le> 2 ^ 16" and "k < 2 ^ 16"
  shows "rep_movsd n (of_nat s) (of_nat d) m (of_nat k) = m (of_nat (if d \<le> k \<and> k < d + 4 * n then k - d + s else k))"
  using assms(1,2)
proof (induction n arbitrary: s d m)
  case (Suc n)
  let ?m = "m(of_nat d := m (of_nat s), of_nat d + 1 := m (of_nat s + 1), of_nat d + 2 := m (of_nat s + 2), of_nat d + 3 := m (of_nat s + 3))"
  have add: "of_nat d + 1 = (of_nat (d + 1) :: u16)" "of_nat d + 2 = (of_nat (d + 2) :: u16)" "of_nat d + 3 = (of_nat (d + 3) :: u16)"
    "of_nat s + 1 = (of_nat (s + 1) :: u16)" "of_nat s + 2 = (of_nat (s + 2) :: u16)" "of_nat s + 3 = (of_nat (s + 3) :: u16)"
    "of_nat d + 4 = (of_nat (d + 4) :: u16)" "of_nat s + 4 = (of_nat (s + 4) :: u16)" by simp_all
  have m: "?m (of_nat j) = m (of_nat (if d \<le> j \<and> j < d + 4 then j - d + s else j))" if "j < 2 ^ 16" for j
  proof (cases "d \<le> j \<and> j < d + 4")
    case True
    then have "j = d \<or> j = d + 1 \<or> j = d + 2 \<or> j = d + 3" by arith
    then show ?thesis unfolding add using that Suc.prems by (elim disjE) (simp_all add: u16_eq add.commute [of s] del: of_nat_add of_nat_Suc)
  next
    case False
    then show ?thesis unfolding add using that Suc.prems by (auto simp: u16_eq simp del: of_nat_add of_nat_Suc)
  qed
  have "rep_movsd (Suc n) (of_nat s) (of_nat d) m (of_nat k) = rep_movsd n (of_nat (s + 4)) (of_nat (d + 4)) ?m (of_nat k)"
    unfolding rep_movsd.simps add ..
  also have "\<dots> = ?m (of_nat (if d + 4 \<le> k \<and> k < d + 4 + 4 * n then k - (d + 4) + (s + 4) else k))"
    using Suc.prems by (intro Suc.IH) simp_all
  also have "\<dots> = m (of_nat (if d \<le> k \<and> k < d + 4 * Suc n then k - d + s else k))"
    using Suc.prems assms(3) by (subst m) auto
  finally show ?case .
qed auto

lemma cls_loop_eq:
  assumes "b + 2 * n \<le> 0x7fff"
  shows "\<exists>v'. cls_loop n (of_nat b) v = Some v' \<and>
    (\<forall>k<2 ^ 16. vram v' (of_nat k) = (if b \<le> k \<and> k < b + 2 * n then (if even (k - b) then 0x20 else 7) else vram v (of_nat k)))"
  using assms
proof (induction n arbitrary: b v)
  case (Suc n)
  let ?v = "v\<lparr>vram := (vram v)(of_nat b := 0x20, of_nat (b + 1) := 7)\<rparr>"
  have "(of_nat b :: u16) < VIDEO_LIMIT" using Suc.prems by (simp add: VIDEO_LIMIT_def word_less_nat_alt unat_of_nat_below)
  then have st: "store_cell (of_nat b) v = Some ?v" by (simp add: store_cell_def add.commute [of 1])
  have nx: "(of_nat b :: u16) + 2 = of_nat (b + 2)" by simp
  obtain v' where v': "cls_loop n (of_nat (b + 2)) ?v = Some v'" "\<forall>k<2 ^ 16. vram v' (of_nat k) =
      (if b + 2 \<le> k \<and> k < b + 2 + 2 * n then (if even (k - (b + 2)) then 0x20 else 7) else vram ?v (of_nat k))"
    using Suc.IH [of "b + 2" ?v] Suc.prems by auto
  have "vram v' (of_nat k) = (if b \<le> k \<and> k < b + 2 * Suc n then (if even (k - b) then 0x20 else 7) else vram v (of_nat k))"
    if "k < 2 ^ 16" for k
  proof -
    have "vram ?v (of_nat k) = (if k = b then 0x20 else if k = b + 1 then 7 else vram v (of_nat k))"
      using that Suc.prems by (simp add: u16_eq del: of_nat_add of_nat_Suc)
    moreover have "k = b \<or> k = b + 1 \<or> k < b \<or> b + 2 \<le> k" by arith
    ultimately show ?thesis using v'(2) [rule_format, OF that] by (elim disjE) simp_all
  qed
  then show ?case unfolding cls_loop.simps st nx using v'(1) by (intro exI [of _ v']) simp
qed auto


lemma cells_nth: "i < 2000 \<Longrightarrow> cells v ! i = vram v (of_nat (2 * i))" "length (cells v) = 2000"
  by (simp_all add: cells_def)

lemma cells_upd:
  assumes "p < 2000" and "vram v' = (vram v)(of_nat (2 * p) := c, of_nat (2 * p + 1) := x)"
  shows "cells v' = (cells v)[p := c]" and "\<And>k. 4000 \<le> k \<Longrightarrow> k < 2 ^ 16 \<Longrightarrow> vram v' (of_nat k) = vram v (of_nat k)"
proof -
  show "cells v' = (cells v)[p := c]"
  proof (rule nth_equalityI)
    fix i assume "i < length (cells v')"
    then have i: "i < 2000" by (simp add: cells_nth)
    have "2 * i \<noteq> 2 * p + 1" by presburger
    then show "cells v' ! i = (cells v)[p := c] ! i"
      using i assms by (simp add: cells_nth nth_list_update u16_eq del: of_nat_add of_nat_Suc of_nat_mult)
  qed (simp add: cells_nth)
  show "\<And>k. 4000 \<le> k \<Longrightarrow> k < 2 ^ 16 \<Longrightarrow> vram v' (of_nat k) = vram v (of_nat k)"
    using assms by (simp add: u16_eq del: of_nat_add of_nat_Suc of_nat_mult)
qed

lemma roll_ok: "\<exists>v'. roll_screen v = Some v' \<and> terminal_of v' = scroll (cells v) \<and> stays v v'"
proof -
  let ?w = "v\<lparr>vram := rep_movsd 960 0xa0 0 (vram v)\<rparr>"
  have w: "vram ?w (of_nat k) = vram v (of_nat (if k < 3840 then k + 160 else k))" if "k < 2 ^ 16" for k
    using rep_movsd_eq [of 0 160 960 k "vram v"] that by simp
  obtain u where u: "cls_loop 80 3840 ?w = Some u" "\<forall>k<2 ^ 16. vram u (of_nat k) =
      (if 3840 \<le> k \<and> k < 4000 then (if even (k - 3840) then 0x20 else 7) else vram ?w (of_nat k))"
    using cls_loop_eq [of 3840 80 ?w] by auto
  have "cells u = drop 80 (cells v) @ replicate 80 0x20"
  proof (rule nth_equalityI)
    fix i assume "i < length (cells u)"
    then have i: "i < 2000" by (simp add: cells_nth)
    then have "vram u (of_nat (2 * i)) = (if i < 1920 then vram v (of_nat (2 * (i + 80))) else 0x20)"
      using u(2) [rule_format, of "2 * i"] w [of "2 * i"] by (simp del: of_nat_mult of_nat_add)
    then show "cells u ! i = (drop 80 (cells v) @ replicate 80 0x20) ! i"
      using i by (simp add: cells_nth nth_append algebra_simps del: of_nat_mult of_nat_add)
  qed (simp add: cells_nth)
  moreover have "vram u (of_nat k) = vram v (of_nat k)" if "4000 \<le> k" "k < 2 ^ 16" for k
    using that u(2) [rule_format, of k] w [of k] by simp
  ultimately show ?thesis
    using u(1) by (simp add: roll_screen_def terminal_of_def scroll_def stays_def cells_def)
qed


lemma set_or_roll_ok:
  assumes "unat bx \<le> 2000"
  shows "\<exists>v'. set_or_roll bx v = Some v' \<and> terminal_of v' = (if unat bx < 2000 then (unat bx, cells v) else scroll (cells v)) \<and> stays v v'"
proof (cases "unat bx < 2000")
  case True
  then have "set_or_roll bx v = Some (move_cursor bx v)" by (simp add: set_or_roll_def sint_below)
  then show ?thesis using True by (simp add: terminal_of_def stays_def cells_def)
next
  case False
  then have "set_or_roll bx v = roll_screen v" using assms by (simp add: set_or_roll_def sint_below)
  then show ?thesis using False roll_ok [of v] by simp
qed

lemma stays_after:
  assumes "\<And>k. 4000 \<le> k \<Longrightarrow> k < 2 ^ 16 \<Longrightarrow> vram w (of_nat k) = vram v (of_nat k)" and "stays w v'"
  shows "stays v v'"
  using assms by (simp add: stays_def)

lemma put_other_ok:
  assumes p: "unat bx < 2000"
  shows "\<exists>v'. put_other c bx v = Some v' \<and> stays v v' \<and>
    terminal_of v' = (if unat bx < 1999 then (unat bx + 1, (cells v)[unat bx := c]) else scroll ((cells v)[unat bx := c]))"
proof -
  let ?o = "push_bit 1 bx" and ?w = "v\<lparr>vram := (vram v)(push_bit 1 bx := c, push_bit 1 bx + 1 := 7)\<rparr>"
  have o: "unat ?o = 2 * unat bx" using p by (intro unat_double) simp
  then have o1: "unat (?o + 1) = 2 * unat bx + 1" using p unat_Suc16 [of ?o] by linarith
  have at: "?o = of_nat (2 * unat bx)" "?o + 1 = of_nat (2 * unat bx + 1)" using o o1 by (simp_all only: word_at)
  obtain w where w: "w = ?w" by simp
  have vw: "vram w = (vram v)(of_nat (2 * unat bx) := c, of_nat (2 * unat bx + 1) := 7)" unfolding w at [symmetric] by simp
  note C = cells_upd [OF p vw]
  obtain b where b: "b = drop_bit 1 (?o + 1) + 1" by simp
  have "put_other c bx v = set_or_roll b w"
    using o o1 p unfolding b w by (simp add: put_other_def Let_def store_byte_def VIDEO_LIMIT_def word_le_nat_alt)
  moreover have ub: "unat b = unat bx + 1"
    unfolding b using unat_Suc16 [of "drop_bit 1 (?o + 1)"] unat_half [of "?o + 1"] p unfolding o1 by linarith
  ultimately show ?thesis using p set_or_roll_ok [of b w] stays_after [OF C(2)] unfolding C(1) by auto
qed

lemma is_backspace_ok:
  assumes p: "unat bx < 2000"
  shows "if bx = 0 then is_backspace bx v = None
    else \<exists>v'. is_backspace bx v = Some v' \<and> stays v v' \<and> terminal_of v' = (unat bx - 1, (cells v)[unat bx - 1 := 0x20])"
proof (cases "bx = 0")
  case True
  then show ?thesis by (simp add: is_backspace_def store_cell_def VIDEO_LIMIT_def)
next
  case False
  let ?o = "push_bit 1 (bx - 1)" and ?p = "unat bx - 1"
  let ?w = "v\<lparr>vram := (vram v)(push_bit 1 (bx - 1) := 0x20, push_bit 1 (bx - 1) + 1 := 7)\<rparr>"
  have b: "unat (bx - 1) = ?p" "?p < 2000" using False p by (simp_all add: unat_minus_one)
  have o: "unat ?o = 2 * ?p" using b by (subst unat_double) simp_all
  then have o1: "unat (?o + 1) = 2 * ?p + 1" using b unat_Suc16 [of ?o] by linarith
  have at: "?o = of_nat (2 * ?p)" "?o + 1 = of_nat (2 * ?p + 1)" using o o1 by (simp_all only: word_at)
  have d: "unat (drop_bit 1 ?o) = ?p" unfolding unat_half o by simp
  have "is_backspace bx v = Some (move_cursor (drop_bit 1 ?o) ?w)"
    using o b by (simp add: is_backspace_def Let_def store_cell_def VIDEO_LIMIT_def word_less_nat_alt)
  moreover have "vram ?w = (vram v)(of_nat (2 * ?p) := 0x20, of_nat (2 * ?p + 1) := 7)" unfolding at [symmetric] by simp
  note C = cells_upd [OF b(2) this]
  have "terminal_of (move_cursor (drop_bit 1 ?o) ?w) = (?p, cells ?w)" using d by (simp only: terminal_of_def get_move_cursor cells_def)
  moreover have "stays v (move_cursor (drop_bit 1 ?o) ?w)"
    unfolding stays_def get_move_cursor d using b(2) C(2) by blast
  ultimately show ?thesis using False unfolding C(1) by simp
qed

lemma is_line_feed_ok:
  assumes p: "unat bx < 2000"
  shows "\<exists>v'. is_line_feed bx v = Some v' \<and> stays v v' \<and>
    terminal_of v' = (if unat bx div 80 < 24 then ((unat bx div 80 + 1) * 80, cells v) else scroll (cells v))"
proof -
  let ?b = "bx - bx mod 80 + 80" and ?p = "unat bx"
  have "unat (bx mod 80) = ?p mod 80" by (simp add: unat_mod)
  then have "unat (bx - bx mod 80) = ?p - ?p mod 80" by (subst unat_sub_le) (simp_all add: word_le_nat_alt)
  moreover have "?p - ?p mod 80 = ?p div 80 * 80" by (simp add: minus_mod_eq_div_mult)
  moreover have "?p div 80 \<le> 24" using p by linarith
  ultimately have b: "unat ?b = (?p div 80 + 1) * 80" by (subst unat_add_below) simp_all
  have "(?p div 80 + 1) * 80 \<le> 2000" "(?p div 80 + 1) * 80 < 2000 \<longleftrightarrow> ?p div 80 < 24" using \<open>?p div 80 \<le> 24\<close> by auto
  then show ?thesis using set_or_roll_ok [of ?b v] unfolding is_line_feed_def b by (auto split: if_splits)
qed


text \<open>A routine follows an operation of the terminal when it has its effect, faults exactly where that is undefined and stays on
  the screen.\<close>

definition follows :: "(video \<Rightarrow> video option) \<Rightarrow> (terminal \<Rightarrow> terminal option) \<Rightarrow> bool" where
  "follows f g \<longleftrightarrow> (\<forall>v. unat (get_cursor v) < 2000 \<longrightarrow>
     map_option terminal_of (f v) = g (terminal_of v) \<and> (\<forall>v'. f v = Some v' \<longrightarrow> stays v v'))"

lemma follows_skip: "follows Some Some"
  by (simp add: follows_def stays_def)

lemma follows_seq:
  assumes "follows f g" and "follows f' g'"
  shows "follows (\<lambda>v. Option.bind (f v) f') (\<lambda>t. Option.bind (g t) g')"
  unfolding follows_def
proof (intro allI impI)
  fix v assume v: "unat (get_cursor v) < 2000"
  show "map_option terminal_of (Option.bind (f v) f') = Option.bind (g (terminal_of v)) g' \<and>
    (\<forall>v'. Option.bind (f v) f' = Some v' \<longrightarrow> stays v v')"
  proof (cases "f v")
    case None
    then show ?thesis using assms(1) v unfolding follows_def by (metis bind.bind_lunit option.map_disc_iff option.simps(3) Option.bind.simps(1))
  next
    case (Some w)
    have 1: "g (terminal_of v) = Some (terminal_of w)" "stays v w" using assms(1) v Some unfolding follows_def by (metis option.simps(9))+
    then have "unat (get_cursor w) < 2000" by (simp add: stays_def)
    then have 2: "map_option terminal_of (f' w) = g' (terminal_of w)" "\<And>v'. f' w = Some v' \<Longrightarrow> stays w v'"
      using assms(2) unfolding follows_def by blast+
    show ?thesis using 1 2 Some by (auto simp: stays_def)
  qed
qed

lemma put_char_follows: "follows (video_put_char c) (term_char c)"
  unfolding follows_def
proof (intro allI impI)
  fix v assume v: "unat (get_cursor v) < 2000"
  have z: "get_cursor v = 0 \<longleftrightarrow> unat (get_cursor v) = 0" by (simp add: unat_eq_0)
  show "map_option terminal_of (video_put_char c v) = term_char c (terminal_of v) \<and>
    (\<forall>v'. video_put_char c v = Some v' \<longrightarrow> stays v v')"
    using put_other_ok [OF v, of c v] is_backspace_ok [OF v, of v] is_line_feed_ok [OF v, of v]
    unfolding video_put_char_def Let_def terminal_of_def [of v] term_char_def z by (auto split: if_splits)
qed

lemma put_each_follows: "follows (put_each cs) (term_chars cs)"
proof (induction cs)
  case Nil
  then show ?case using follows_skip by (simp add: follows_def)
next
  case (Cons c cs)
  show ?case using follows_seq [OF put_char_follows Cons, of c] by (simp add: follows_def)
qed

lemma of_char_nul: "of_char c = (0 :: u8) \<longleftrightarrow> c = CHR 0x00"
proof -
  have "of_char c = (0 :: u8) \<longleftrightarrow> (of_nat (of_char c) :: u8) = of_nat 0" unfolding of_nat_of_char by simp
  also have "\<dots> \<longleftrightarrow> of_char c = (0 :: nat)" using nat_of_char_less_256 [of c] by (intro of_nat_eq_word_iff) simp_all
  also have "\<dots> \<longleftrightarrow> of_char c = (of_char (CHR 0x00) :: nat)" by simp
  also have "\<dots> \<longleftrightarrow> c = CHR 0x00" by (rule of_char_eq_iff)
  finally show ?thesis .
qed

lemma put_str_each: "video_put_str str = put_each (map of_char (takeWhile (\<lambda>c. c \<noteq> CHR 0x00) str))"
proof (induction str)
  case (Cons c cs)
  show ?case by (rule ext) (simp add: of_char_nul Cons)
qed (simp add: fun_eq_iff)

text \<open>The buffer of \<open>put_int\<close> holds the number with leading zeros.\<close>

fun padded :: "nat \<Rightarrow> nat \<Rightarrow> u8 list" where
  "padded 0 n = []"
| "padded (Suc k) n = padded k (n div 16) @ [hex_char (n mod 16)]"

lemma hex_char_zero: "n < 16 \<Longrightarrow> hex_char n = 48 \<longleftrightarrow> n = 0"
  by (auto simp: hex_char_def word_unat_eq_iff unat_of_nat_below)

lemma hex_digits_padded: "hex_digits k n buf = padded k (unat n) @ buf"
proof (induction k arbitrary: n buf)
  case (Suc k)
  have e: "unat (n AND 0xf) = unat n mod 16" using unat_and_mask [of n 4] by (simp add: mask_eq_exp_minus_1)
  have d: "unat (drop_bit 4 n) = unat n div 16" using unat_drop_bit [of 4 n] by simp
  have "ucast (if n AND 0xf \<le> 9 then (n AND 0xf) + 48 else (n AND 0xf) - 10 + 65) = hex_char (unat n mod 16)"
  proof -
    have n: "n AND 0xf = of_nat (unat n mod 16)" using e by (rule word_at)
    have "ucast (if (of_nat m :: u32) \<le> 9 then of_nat m + 48 else of_nat m - 10 + 65 :: u32) = hex_char m" if "m < 16" for m
    proof -
      have "m \<in> set [0..<16]" using that by simp
      then show ?thesis unfolding hex_char_def by (auto simp: upt_rec)
    qed
    then show ?thesis unfolding n by simp
  qed
  then show ?case using Suc by (simp add: Let_def d)
qed simp

lemma padded_zero: "n < 16 ^ k \<Longrightarrow> list_all (\<lambda>c. c = 48) (padded k n) \<longleftrightarrow> n = 0"
proof (induction k arbitrary: n)
  case (Suc k)
  then have "n div 16 < 16 ^ k" by (simp add: less_mult_imp_div_less mult.commute)
  then show ?case using Suc.IH [of "n div 16"] by (auto simp: hex_char_zero div_eq_0_iff)
qed simp

lemma skip_append: "skip_prefix_0 (xs @ [d]) = (if list_all (\<lambda>c. c = 48) xs then skip_prefix_0 [d] else skip_prefix_0 xs @ [d])"
  by (induction xs) auto

lemma skip_padded: "n < 16 ^ k \<Longrightarrow> skip_prefix_0 (padded k n) = hex_text n"
proof (induction k arbitrary: n)
  case 0
  then show ?case by (simp add: hex_text.simps hex_char_def)
next
  case (Suc k)
  then have d: "n div 16 < 16 ^ k" by (simp add: less_mult_imp_div_less mult.commute)
  show ?case
  proof (cases "n < 16")
    case True
    then show ?thesis using padded_zero [OF d] by (simp add: skip_append hex_text.simps hex_char_zero)
  next
    case False
    then show ?thesis using padded_zero [OF d] Suc.IH [OF d] by (simp add: skip_append hex_text.simps [of n] div_eq_0_iff)
  qed
qed

lemma put_int_text: "skip_prefix_0 (hex_digits 8 n []) = hex_text (unat n)"
  using skip_padded [of "unat n" 8] u32_bound [of n] by (simp add: hex_digits_padded)

lemma draw_call_follows: "cursor_ok c \<Longrightarrow> follows (draw_call c) (term_call c)"
proof (cases c)
  case (Put_char b)
  then show ?thesis using put_char_follows [of b] by (simp add: follows_def)
next
  case (Put_str str)
  then show ?thesis using put_each_follows by (simp add: follows_def put_str_each)
next
  case (Put_int n)
  then show ?thesis using put_each_follows by (simp add: follows_def video_put_int_def put_int_text)
next
  case (Set_cursor pos)
  assume "cursor_ok c"
  then have "unat pos < 2000" using Set_cursor by (simp add: word_less_nat_alt)
  then have "unat (ucast pos :: u16) = unat pos" by (simp add: unsigned_ucast_eq take_bit_nat_eq_self)
  then show ?thesis using Set_cursor \<open>unat pos < 2000\<close>
    by (simp add: follows_def video_set_cursor_def terminal_of_def stays_def cells_def)
qed

lemma draw_follows: "list_all cursor_ok cs \<Longrightarrow> follows (draw cs) (term_run cs)"
proof (induction cs)
  case Nil
  then show ?case using follows_skip by (simp add: follows_def)
next
  case (Cons c cs)
  then show ?case using follows_seq [OF draw_call_follows, of c "draw cs" "term_run cs"] by (simp add: follows_def)
qed


section \<open>Property\<close>

text \<open>C18: Whatever the kernel prints, the screen shows what a terminal of 25 lines of 80 characters would show: characters go to
  the position of the cursor and move it on, a line feed or carriage return starts the next line, below the last
  line the text scrolls up by one line, a number appears in hexadecimal, and a backspace removes the character before the cursor. The cursor
  stays on the screen and no byte behind the 4000 of the page is written. A backspace in the first position alone does not
  return: its store lies outside the video segment and the processor raises an exception.\<close>
theorem screen_refines_terminal:
  assumes "get_cursor v < 2000" and "list_all cursor_ok cs"
  shows "map_option terminal_of (draw cs v) = term_run cs (terminal_of v) \<and>
    (\<forall>v'. draw cs v = Some v' \<longrightarrow> get_cursor v' < 2000 \<and>
       (\<forall>k. 4000 \<le> k \<and> k < 2 ^ 16 \<longrightarrow> vram v' (of_nat k) = vram v (of_nat k)))"
proof -
  have "unat (get_cursor v) < 2000" using assms(1) by (simp add: word_less_nat_alt)
  with draw_follows [OF assms(2)] have "map_option terminal_of (draw cs v) = term_run cs (terminal_of v) \<and>
      (\<forall>v'. draw cs v = Some v' \<longrightarrow> stays v v')" unfolding follows_def by blast
  then show ?thesis unfolding stays_def word_less_nat_alt by simp
qed

definition demo_video :: video where "demo_video = \<lparr>crtc_high = 0, crtc_low = 0, vram = \<lambda>_. 0\<rparr>"

theorem screen_refines_terminal_witness:
  "(\<exists>v'. draw [Put_str (ln ''ab''), Put_int 0xc009a000, Put_char 8] demo_video = Some v' \<and> get_cursor v' = 87 \<and>
      cells v' ! 80 = 0x43 \<and> cells v' ! 87 = 0x20) \<and> draw [Put_char 8] demo_video = None"
proof -
  have c: "get_cursor demo_video < 2000" "terminal_of demo_video = (0, cells demo_video)"
    by (simp_all add: get_cursor_def demo_video_def terminal_of_def)
  let ?cs = "[Put_str (ln ''ab''), Put_int 0xc009a000, Put_char 8]"
  have h: "hex_text 0xc009a000 = [0x43, 0x30, 0x30, 0x39, 0x41, 0x30, 0x30, 0x30]" by (simp add: hex_text.simps hex_char_def)
  obtain cs where cs: "term_run ?cs (0, cells demo_video) = Some (87, cs)" "cs ! 80 = 0x43" "cs ! 87 = 0x20"
    by (simp add: h term_char_def cells_nth)
  have "map_option terminal_of (draw ?cs demo_video) = Some (87, cs)"
    using screen_refines_terminal [OF c(1), of ?cs] unfolding c(2) cs(1) by simp
  then obtain v' where v: "draw ?cs demo_video = Some v'" "terminal_of v' = (87, cs)" by blast
  have "get_cursor v' = 87" using v(2) word_at [of "get_cursor v'" 87] by (simp add: terminal_of_def)
  moreover have "map_option terminal_of (draw [Put_char 8] demo_video) = None"
    using screen_refines_terminal [OF c(1), of "[Put_char 8]"] unfolding c(2) by (simp add: term_char_def)
  ultimately show ?thesis using v cs by (simp add: terminal_of_def)
qed

end
