(* ===== verification/Entry.thy ===== *)
theory Entry
  imports Syscall Keyboard
begin

text \<open>
  The way of an interrupt: the stubs that the macro \<open>VECTOR\<close> of \<open>kernel/kernel.S\<close> generates for each vector, the handler the table
  names, and the return through \<open>intr_exit\<close>. The context of the interrupted program is a value of type \<open>intr_stack\<close>, as in \<open>Syscall\<close>.

  The gates are interrupt gates, so the handler runs with interrupts off. What runs for a handler that is none of the kernel's
  three is the argument \<open>other\<close>; the value of \<open>cr2\<close> is an argument too. When the handler has passed the processor on, the
  interrupted thread is left inside it: the result is \<open>Blocked\<close> with the state of the thread that runs now.
\<close>

section \<open>Routines\<close>

text \<open>A fact of the processor, not of the code: the exceptions for which it pushes an error code of its own, those of the
  virtualisation and control flow extensions included. A processor without an extension never raises its exception.\<close>

definition cpu_error_code :: "nat \<Rightarrow> bool" where
  "cpu_error_code vec \<longleftrightarrow> vec \<in> {8, 10, 11, 12, 13, 14, 17, 21, 29, 30}"

text \<open>The one vector whose stub expects a code of the processor and pushes none.\<close>

definition stub_error_code :: "nat \<Rightarrow> bool" where
  "stub_error_code vec \<longleftrightarrow> vec = 0x1e"

text \<open>The address of the frame of an interrupt that meets the program in the context \<open>u\<close>, and what \<open>struct intr_stack\<close>
  shows of it: where both the processor and the stub push a code, the words of the processor are one place lower.\<close>

definition entry_stack :: "nat \<Rightarrow> intr_stack \<Rightarrow> 'e kernel_scheme \<Rightarrow> u32" where
  "entry_stack vec u s =
     (if from_user u then tss_esp0 (tss s) - 76 else is_esp u - 68) - (if cpu_error_code vec \<and> \<not> stub_error_code vec then 4 else 0)"

definition entry_frame :: "nat \<Rightarrow> u32 \<Rightarrow> intr_stack \<Rightarrow> intr_stack \<Rightarrow> intr_stack" where
  "entry_frame vec err old u =
     (let u = (if from_user u then u else u\<lparr>is_esp := is_esp old, is_ss := is_ss old\<rparr>)
      in if cpu_error_code vec \<and> \<not> stub_error_code vec
         then u\<lparr>is_vec_no := of_nat vec, is_err_code := 0, is_eip := err, is_cs := is_eip u, is_eflags := is_cs u,
                is_esp := is_eflags u, is_ss := is_esp u\<rparr>
         else u\<lparr>is_vec_no := of_nat vec, is_err_code := (if stub_error_code vec then err else 0)\<rparr>)"

definition intr_entry :: "nat \<Rightarrow> u32 \<Rightarrow> intr_stack \<Rightarrow> 'e kernel_scheme \<Rightarrow> 'e kernel_scheme" where
  "intr_entry vec err u s =
     (let p = entry_stack vec u s;
          s = cli (s\<lparr>intr_stacks := (intr_stacks s)(p := entry_frame vec err (intr_stacks s p) u)\<rparr>);
          s = outb 0xa0 0x20 s;
          s = outb 0x20 0x20 s
      in s\<lparr>esp := p - 4\<rparr>)"

definition call_handler ::
    "(u32 \<Rightarrow> 'e device_scheme \<Rightarrow> (unit, 'e device_scheme) res) \<Rightarrow> u32 \<Rightarrow> nat \<Rightarrow> 'e device_scheme \<Rightarrow> (unit, 'e device_scheme) res" where
  "call_handler other cr2 vec s =
     (let f = handlers s vec in
      if f = addr_of s Intr_timer_handler then intr_timer_handler s
      else if f = addr_of s Intr_keyboard_handler then intr_keyboard_handler s
      else if f = addr_of s General_intr_handler then general_intr_handler cr2 (of_nat vec) s
      else other f s)"

definition interrupt ::
    "(u32 \<Rightarrow> 'e device_scheme \<Rightarrow> (unit, 'e device_scheme) res) \<Rightarrow> u32 \<Rightarrow> nat \<Rightarrow> u32 \<Rightarrow> intr_stack \<Rightarrow> 'e device_scheme \<Rightarrow>
     (intr_stack, 'e device_scheme) res" where
  "interrupt other cr2 vec err u s =
     (let s = intr_entry vec err u s;
          cur = running_thread s
      in bind (call_handler other cr2 vec s) (\<lambda>_ s.
         if running_thread s \<noteq> cur then Blocked s
         else let s = s\<lparr>esp := esp s + 4\<rparr>;
                  (f, s) = intr_exit s
              in Ok f s))"

section \<open>Lemmas\<close>

lemma interrupt_returns:
  fixes s :: "'e device_scheme"
  assumes plain: "\<not> cpu_error_code vec" "\<not> stub_error_code vec" and e: "e = intr_entry vec err u s"
    and h: "call_handler other cr2 vec e = Ok () t" and keep: "esp t = esp e" "intr_stacks t = intr_stacks e"
  shows "\<exists>f v. interrupt other cr2 vec err u s = Ok f v \<and>
    f\<lparr>is_vec_no := is_vec_no u, is_err_code := is_err_code u, is_esp := is_esp u, is_ss := is_ss u\<rparr> = u \<and>
    (\<exists>r a b c. v = t\<lparr>regs := r, eip := a, eflags := b, esp := c\<rparr>) \<and>
    eip v = is_eip u \<and> eflags v = is_eflags u \<and> esp v = is_esp u \<and>
    regs v = \<lparr>r_ebp = is_ebp u, r_ebx = is_ebx u, r_edi = is_edi u, r_esi = is_esi u\<rparr>"
proof -
  let ?p = "entry_stack vec u s" and ?f = "entry_frame vec err (intr_stacks s (entry_stack vec u s)) u"
  have p: "esp e = ?p - 4" "intr_stacks e ?p = ?f" by (simp_all add: e intr_entry_def Let_def outb_def cli_def)
  have f: "?f\<lparr>is_vec_no := is_vec_no u, is_err_code := is_err_code u, is_esp := is_esp u, is_ss := is_ss u\<rparr> = u"
    "is_cs ?f = is_cs u" "is_eip ?f = is_eip u" "is_eflags ?f = is_eflags u" "is_ebp ?f = is_ebp u" "is_ebx ?f = is_ebx u"
    "is_edi ?f = is_edi u" "is_esi ?f = is_esi u" "from_user u \<Longrightarrow> is_esp ?f = is_esp u"
    using plain by (simp_all add: entry_frame_def)
  have top: "\<not> from_user u \<Longrightarrow> ?p + 68 = is_esp u" using plain by (simp add: entry_stack_def)
  have "running_thread t = running_thread e" using keep(1) by (rule running_thread_cong)
  then have "interrupt other cr2 vec err u s = Ok ?f (snd (intr_exit (t\<lparr>esp := ?p\<rparr>)))"
    using h keep p unfolding interrupt_def Let_def e [symmetric] by (simp add: intr_exit_def Let_def)
  then show ?thesis
    using f top p(2) keep(2) by (auto simp: intr_exit_def Let_def from_user_def)
qed


lemma sched_inv_entry:
  fixes s :: "'e device_scheme"
  assumes inv: "sched_inv s T sp rs" and run: "running_thread (intr_entry vec err u s) = running_thread s"
  shows "sched_inv (intr_entry vec err u s) T sp rs"
proof -
  let ?e = "intr_entry vec err u s"
  have f: "node_next ?e = node_next s" "node_prev ?e = node_prev s" "tasks ?e = tasks s" "addr_of ?e = addr_of s" "phys ?e = phys s"
    "cr3 ?e = cr3 s" by (simp_all add: intr_entry_def Let_def outb_def cli_def)
  have "dll ?e l xs = dll s l xs" for l xs by (rule dll_cong) (simp_all add: f)
  moreover have "spaces ?e T sp = spaces s T sp" by (rule spaces_cong) (simp_all add: f)
  ultimately show ?thesis using inv run f unfolding sched_inv_def by simp
qed

lemma entry_fields [simp]:
  fixes s :: "'e device_scheme"
  shows "handlers (intr_entry vec err u s) = handlers s" "addr_of (intr_entry vec err u s) = addr_of s"
    "tasks (intr_entry vec err u s) = tasks s" "get_intr_status (intr_entry vec err u s) = INTR_OFF"
    "ports (intr_entry vec err u s) = ports s @ [(0xa0, 0x20), (0x20, 0x20)]" "mem (intr_entry vec err u s) = mem s"
    "timer_ticks (intr_entry vec err u s) = timer_ticks s" "running_thread (intr_entry vec err u s) = page_of (entry_stack vec u s - 4)"
  using get_cli [of s] by (simp_all add: intr_entry_def Let_def outb_def cli_def running_thread_def page_of_def get_intr_status_def)

text \<open>An exception for which both the processor and the stub push a code: the frame leads back to the code, not to the program.\<close>

lemma error_code_shifts_frame:
  assumes "cpu_error_code vec" and "\<not> stub_error_code vec"
  shows "eip (snd (intr_exit ((intr_entry vec err u s)\<lparr>esp := entry_stack vec u s\<rparr>))) = err"
  using assms by (simp add: intr_exit_def Let_def intr_entry_def outb_def cli_def entry_frame_def)

section \<open>Property\<close>

text \<open>C22: A clock interrupt that meets a program with ticks left in its slice is invisible to it: it goes on at the same
  instruction with the same registers, flags and stack, and only the counters have changed. With no tick left the
  interrupt hands the processor to the first ready thread and the program is queued last. Both controllers get their
  acknowledgement.\<close>
theorem timer_interrupt_transparent:
  fixes s :: "'e device_scheme"
  assumes e: "e = intr_entry 0x20 err u s" and h: "handlers s 0x20 = addr_of s Intr_timer_handler"
    and inv: "sched_inv e T sp (n # ns)" and mag: "clocked T e" and cur: "cur = running_thread e" "status (tasks s cur) = TASK_RUNNING"
  shows "if ticks (tasks s cur) \<noteq> 0
    then \<exists>f v. interrupt other cr2 0x20 err u s = Ok f v \<and>
      f\<lparr>is_vec_no := is_vec_no u, is_err_code := is_err_code u, is_esp := is_esp u, is_ss := is_ss u\<rparr> = u \<and>
      eip v = is_eip u \<and> eflags v = is_eflags u \<and> esp v = is_esp u \<and>
      regs v = \<lparr>r_ebp = is_ebp u, r_ebx = is_ebx u, r_edi = is_edi u, r_esi = is_esi u\<rparr> \<and> mem v = mem s \<and>
      tasks v = (tasks s)(cur := (tasks s cur)\<lparr>elapsed_ticks := elapsed_ticks (tasks s cur) + 1, ticks := ticks (tasks s cur) - 1\<rparr>) \<and>
      timer_ticks v = timer_ticks s + 1 \<and> ports v = ports s @ [(0xa0, 0x20), (0x20, 0x20)]
    else \<exists>v. interrupt other cr2 0x20 err u s = Blocked v \<and> running_thread v = n \<and> sched_inv v T sp (ns @ [cur]) \<and>
      ticks (tasks v cur) = priority (tasks s cur)"
proof -
  note I = sched_invD [OF inv]
  have te: "tasks e = tasks s" "addr_of e = addr_of s" "handlers e = handlers s" "get_intr_status e = INTR_OFF" by (simp_all add: e)
  have m: "stack_magic (tasks e (running_thread e)) = 0x20030621" using mag I(2) by (simp add: clocked_def)
  have c: "call_handler other cr2 0x20 e = intr_timer_handler e" using h by (simp add: call_handler_def te)
  show ?thesis
  proof (cases "ticks (tasks s cur) = 0")
    case False
    then have t: "call_handler other cr2 0x20 e = Ok () (ticked 1 e)" using handler_ticks [OF m] c cur(1) te(1) by simp
    have pl: "\<not> cpu_error_code 0x20" "\<not> stub_error_code 0x20" by (simp_all add: cpu_error_code_def stub_error_code_def)
    have k: "esp (ticked 1 e) = esp e" "intr_stacks (ticked 1 e) = intr_stacks e" "mem (ticked 1 e) = mem s"
      "ports (ticked 1 e) = ports s @ [(0xa0, 0x20), (0x20, 0x20)]" "timer_ticks e = timer_ticks s"
      by (simp_all add: ticked_def upd_task_def e)
    obtain f v r a b d where v: "interrupt other cr2 0x20 err u s = Ok f v"
        "f\<lparr>is_vec_no := is_vec_no u, is_err_code := is_err_code u, is_esp := is_esp u, is_ss := is_ss u\<rparr> = u"
        "v = (ticked 1 e)\<lparr>regs := r, eip := a, eflags := b, esp := d\<rparr>"
        "eip v = is_eip u" "eflags v = is_eflags u" "esp v = is_esp u"
        "regs v = \<lparr>r_ebp = is_ebp u, r_ebx = is_ebx u, r_edi = is_edi u, r_esi = is_esi u\<rparr>"
      using interrupt_returns [OF pl e t k(1,2)] by (elim exE conjE) (rule that)
    have "mem v = mem s" "ports v = ports s @ [(0xa0, 0x20), (0x20, 0x20)]" "timer_ticks v = timer_ticks s + 1"
      "tasks v = (tasks s)(cur := (tasks s cur)\<lparr>elapsed_ticks := elapsed_ticks (tasks s cur) + 1, ticks := ticks (tasks s cur) - 1\<rparr>)"
      using k(3-5) cur(1) te(1) unfolding v(3) by simp_all
    then show ?thesis using v False by (simp only: if_True simp_thms) blast
  next
    case True
    then have x: "call_handler other cr2 0x20 e = schedule (expired e)" using handler_expires [OF m] c cur(1) te(1) by simp
    have ne: "n \<noteq> cur" using I(3) cur(1) by auto
    have st: "cur = running_thread (expired e)" "status (tasks (expired e) cur) = TASK_RUNNING" "get_intr_status (expired e) = INTR_OFF"
      using cur te by simp_all
    obtain t where t: "schedule (expired e) = Ok () t" "sched_inv t T sp (tl ((n # ns) @ [cur]))" "running_thread t = hd ((n # ns) @ [cur])"
        "ticks (tasks t cur) = priority (tasks (expired e) cur)"
      using schedule_running [OF sched_inv_expired [OF inv] st(3,1,2)] by blast
    have "interrupt other cr2 0x20 err u s = Blocked t"
      unfolding interrupt_def Let_def e [symmetric] x t(1) using t(3) ne cur(1) by simp
    then show ?thesis using t True cur(1) te(1) by simp
  qed
qed


text \<open>The main thread of the example machine, interrupted in the kernel.\<close>

definition demo_clock :: device where
  "demo_clock = demo_device\<lparr>handlers := (\<lambda>_. 0)(0x20 := 0xc0001c00)\<rparr>"

definition demo_kernel_context :: intr_stack where
  "demo_kernel_context = zero_intr_stack\<lparr>is_cs := 8, is_eip := 0xc0001600, is_eflags := 0x202, is_esp := 0xc009eff0, is_ebx := 5\<rparr>"

theorem timer_interrupt_transparent_witness:
  "\<exists>f v. interrupt (\<lambda>_ s. Blocked s) 0 0x20 0 demo_kernel_context demo_clock = Ok f v \<and> eip v = 0xc0001600 \<and> esp v = 0xc009eff0 \<and>
     eflags v = 0x202 \<and> is_ebx f = 5 \<and> timer_ticks v = 1"
proof -
  let ?u = demo_kernel_context
  obtain e where e: "e = intr_entry 0x20 0 ?u demo_clock" by simp
  have p: "entry_stack 0x20 ?u demo_clock = 0xc009efac"
    by (simp add: entry_stack_def from_user_def demo_kernel_context_def cpu_error_code_def)
  have f: "tasks demo_clock = demo_tasks" "addr_of demo_clock = demo_addr" "timer_ticks demo_clock = 0"
    "handlers demo_clock 0x20 = addr_of demo_clock Intr_timer_handler" by (simp_all add: demo_clock_def demo_device_kernel)
  have r: "running_thread e = 0xc009e000" unfolding e entry_fields p by (simp add: page_of_def)
  have "sched_inv demo_clock demo_threads demo_dirs [0xc0100000, 0xc0101000]"
    using demo_device_sched by (subst sched_inv_cong [where s = demo_device]) (simp_all add: demo_clock_def)
  then have S: "sched_inv e demo_threads demo_dirs [0xc0100000, 0xc0101000]"
    using r demo_device_clocked(2) unfolding e by (intro sched_inv_entry) (simp_all add: demo_clock_def running_thread_def)
  have C: "clocked demo_threads e" using demo_device_clocked(1) by (simp add: clocked_def e f demo_device_kernel)
  have R: "status (tasks demo_clock 0xc009e000) = TASK_RUNNING" by (simp add: f demo_tasks_def zero_task_def)
  have t: "ticks (tasks demo_clock 0xc009e000) \<noteq> 0" by (simp add: f demo_tasks_def zero_task_def)
  note X = timer_interrupt_transparent [OF e f(4) S C r [symmetric] R, of "\<lambda>_ s. Blocked s" 0]
  obtain f v where v: "interrupt (\<lambda>_ s. Blocked s) 0 0x20 0 ?u demo_clock = Ok f v"
      "f\<lparr>is_vec_no := is_vec_no ?u, is_err_code := is_err_code ?u, is_esp := is_esp ?u, is_ss := is_ss ?u\<rparr> = ?u"
      "eip v = is_eip ?u" "eflags v = is_eflags ?u" "esp v = is_esp ?u" "timer_ticks v = timer_ticks demo_clock + 1"
    using X unfolding if_P [OF t] by (elim exE conjE) (rule that)
  have "is_ebx f = 5" using arg_cong [OF v(2), of is_ebx] by (simp add: demo_kernel_context_def)
  then show ?thesis using v(1,3-6) by (auto simp: demo_kernel_context_def f(3))
qed

end
