(* ===== verification/Spec2Isabelle.thy ===== *)
theory Spec2Isabelle
  imports Boot Screen Entry
begin

text \<open>
  \<^bold>\<open>A verification development for the GOOS kernel.\<close>

  GOOS is a small operating system for a 32-bit x86 processor with one core: it sets up interrupts and
  paging, manages physical and virtual memory and a block heap, schedules kernel threads and user
  processes round robin, offers semaphores and locks, drives a timer, a keyboard and a console, and
  serves four system calls. This development translates its C code (and the parts of its assembly
  files the C code relies on) into functions over an explicit machine state and proves properties of
  them.

  \<^bold>\<open>State.\<close> The state is a chain of records: \<open>machine\<close> (flags, byte memory, page table words, list
  nodes, port and screen output), \<open>icu\<close> (interrupt tables), \<open>kernel\<close> (tasks, semaphores, locks,
  memory pools, block descriptors, arenas, stack frames, descriptor table, linker addresses) and
  \<open>device\<close> (timer, keyboard, ring buffers, system call table). Routines are polymorphic in the
  extension, so a routine of a lower layer runs unchanged on the state of a higher one. Memory is
  split by type: each kind of structure is a map from the address it is reached by, a pointer is a
  32-bit word, a field of a structure inside another has the address the 32-bit layout gives it. The
  page directory and the page tables are words of physical memory and every access to them goes
  through the two-level walk of the processor. Linker addresses of objects, functions and string
  literals are the field \<open>addr_of\<close>.

  \<^bold>\<open>Results.\<close> A routine returns a \<open>res\<close>: a value and a state, \<open>Halt\<close> for the endless loops of the
  panic routine and the default handler, \<open>Blocked\<close> for a thread that gave the processor away inside
  \<open>thread_block\<close> (what it does later is a routine of its own, with \<open>resume\<close> in its name), and
  \<open>Diverge\<close> for a loop over memory that never ends. Every \<open>ASSERT\<close> of the code is a branch of the model.

  \<^bold>\<open>Theories.\<close>
  \<^item> \<open>Prelude\<close>: C integer types, results and their sequencing, lemmas on words and ranges of addresses,
    the locales \<open>invariant_system\<close> and \<open>simulation\<close> for step relations.
  \<^item> \<open>Machine\<close>: interrupt flag, output, panic and assertion (\<open>kernel/interrupt.c\<close>, \<open>kernel/debug.c\<close>,
    \<open>lib/kernel/io.h\<close>); the locale \<open>intr_guard\<close> for critical sections.
  \<^item> \<open>Screen\<close>: \<open>lib/kernel/print.S\<close> on cursor registers and video memory. The calls recorded by the other theories show what a
    terminal of 25 lines of 80 characters would show.
  \<^item> \<open>Cstring\<close>: \<open>lib/string.c\<close>. Functional behaviour of the routines on terminated strings, and the three
    places where they differ from their names.
  \<^item> \<open>Bitmap\<close>: \<open>lib/kernel/bitmap.c\<close>. The scan is first fit; the abstract view as a set of used indices is the
    locale the memory pools use.
  \<^item> \<open>Klist\<close>: \<open>lib/kernel/list.c\<close>. The doubly linked list refines a sequence, with frame rules.
  \<^item> \<open>Interrupt\<close>: tables and controller set-up of \<open>kernel/interrupt.c\<close>.
  \<^item> \<open>Paging\<close>: address translation and the self-mapped directory (\<open>kernel/memory.c\<close>).
  \<^item> \<open>Kernel\<close>: the structures and globals; a concrete kernel state for examples.
  \<^item> \<open>Sched\<close>: \<open>schedule\<close>, \<open>thread_block\<close>, \<open>thread_unblock\<close>, \<open>switch_to\<close> and the activation of an address
    space (\<open>thread/thread.c\<close>, \<open>thread/switch.S\<close>, \<open>userprog/process.c\<close>, \<open>userprog/tss.c\<close>): round robin
    order, fairness, no idle thread.
  \<^item> \<open>Sync\<close>: \<open>thread/sync.c\<close>. The lock as a step relation on threads with preemption between any two
    statements; mutual exclusion, no failing assertion and no lost wakeup by simulation of a monitor.
  \<^item> \<open>Memory\<close>: page pools, mapping and unmapping (\<open>kernel/memory.c\<close>).
  \<^item> \<open>Heap\<close>: \<open>sys_malloc\<close> and \<open>sys_free\<close> (\<open>kernel/memory.c\<close>) over the locks and the page allocator, with
    the invariant of arenas, free lists and mapped pages.
  \<^item> \<open>Tss\<close>: segment descriptors and the task segment (\<open>userprog/tss.c\<close>, \<open>kernel/global.h\<close>).
  \<^item> \<open>Thread\<close>: creation of threads (\<open>thread/thread.c\<close>): \<open>thread_start\<close> gives a ready thread with a page, a
    number and a first frame of its own and keeps the queues of the scheduler.
  \<^item> \<open>Console\<close>: \<open>device/console.c\<close> over the lock: the text of a call appears in one piece.
  \<^item> \<open>Process\<close>: \<open>userprog/process.c\<close>: a new directory shares the kernel half and nothing else; the entry
    into user mode maps the stack, with a page table where there is none, and sets all registers, segments and flags.
  \<^item> \<open>Timer\<close>: \<open>device/timer.c\<close>: the time slice of the running thread, and the turn of every ready thread.
  \<^item> \<open>Ioqueue\<close>: \<open>device/ioqueue.c\<close>: the locale \<open>fifo\<close> for a bounded queue, interpreted on the ring buffer, and
    its extension \<open>blocking_fifo\<close>: a call that cannot go on puts its thread to sleep with the lock held; the handover
    of a byte to a sleeping consumer.
  \<^item> \<open>Keyboard\<close>: \<open>device/keyboard.c\<close>: the handler implements a state machine of the modifier keys over
    every sequence of scan codes; the key strokes of a text on a US keyboard, described on its own, put that text into the buffer.
  \<^item> \<open>Syscall\<close>: \<open>userprog/syscallInit.c\<close>, \<open>lib/user/syscall.c\<close> and the entry of \<open>kernel/kernel.S\<close>: the result
    arrives in the caller's context, the rest of which is unchanged.
  \<^item> \<open>Entry\<close>: the interrupt stubs of \<open>kernel/kernel.S\<close>, the call of the handler and the return: a clock interrupt within a
    time slice is invisible to the program, one at its end passes the processor on.
  \<^item> \<open>Stdio\<close>: \<open>lib/stdio.c\<close>: digits written by \<open>itoa\<close> read back as the number, \<open>vsprintf\<close> writes the text a
    specification of format strings gives, \<open>printf\<close> carries it through the system call to the screen.
  \<^item> \<open>Init\<close>: \<open>kernel/init.c\<close> and \<open>kernel/main.c\<close>.
  \<^item> \<open>Startup\<close>: the state after \<open>init_all\<close>. From the state the boot code leaves, it establishes the invariants of the
    heap, the scheduler, the locks, the keyboard queue, and the interrupt and system call tables.
  \<^item> \<open>Boot\<close>: the page tables and the memory size of \<open>boot/loader.S\<close>: the tables the loader builds are those \<open>Startup\<close>
    starts from, the size is the largest end of a memory area below 2 GB.

  \<^bold>\<open>Loops.\<close> Counted loops recurse on the count or have a termination proof by a measure; loops that run to
  a terminator in memory, over list nodes, or by division with a base given at run time are
  \<open>partial_function (option)\<close>, and the theorems about them prove that they return. There is no fuel.

  \<^bold>\<open>Not modelled.\<close> Of the boot code under \<open>boot/\<close> the master boot record, the calls of the firmware, the
  switch to protected mode, the disk reads and the copying of the kernel's segments; what they leave is in the hypothesis
  \<open>booted\<close> of \<open>Startup\<close>. Typed
  objects reached by virtual addresses belong to one address space at a time: the model does not
  keep apart the user memory of two processes, and an access to a typed object does not page fault.
  A task name longer than 15 characters runs over the fields behind it in the code; in the model it
  changes bytes only. The instructions between two model steps of different threads are not
  interleaved outside the step relations of \<open>Sync\<close> and \<open>Heap\<close>. In particular a call of a printing routine
  is one event of the output, while \<open>put_str\<close> of \<open>lib/kernel/print.S\<close> writes one character after the other and
  may be interrupted between two of them when interrupts are on; the routines of \<open>device/console.c\<close> hold the lock meanwhile.
  The translations the processor keeps are not modelled: a walk always reads the tables as they are. The
  pages named by \<open>invlpg\<close> are recorded in the field \<open>invlpgs\<close>, in order, so that a theorem can say which pages the
  processor is told to forget. Of the effects of \<open>ltr\<close> the busy bit of the descriptor is modelled. Word input and output
  (\<open>insw\<close>, \<open>outsw\<close>) of \<open>lib/kernel/io.h\<close> are not used by any file.
\<close>

end
